(* ===== verification/Py_Float.thy ===== *)
theory Py_Float
  imports Prelude
begin

text \<open>
  Python's \<open>float\<close>: IEEE 754 binary64 with rounding to nearest, ties to even.
  A finite value is the rational it denotes, \<open>fl\<close> rounds a rational to the nearest
  representable value and overflows to an infinity, and every arithmetic operation is the
  exact rational operation followed by \<open>fl\<close>. Negative zero is identified with zero:
  the two compare equal in Python and no code of the platform tells them apart other than
  by printing. Rounding is monotone, odd, exact on the integers below \<open>2^53\<close> and off by
  at most half a unit in the last place; the component theories use it through these facts.
\<close>

datatype pyfloat = Fin rat | PInf | NInf | NaN

section \<open>Rounding to binary64\<close>

fun nlog2 :: "nat \<Rightarrow> nat" where
  "nlog2 n = (if n \<le> 1 then 0 else Suc (nlog2 (n div 2)))"

declare nlog2.simps [simp del]

definition pow2 :: "int \<Rightarrow> rat" where
  "pow2 k = (if 0 \<le> k then 2 ^ nat k else 1 / 2 ^ nat (- k))"

definition ilog2 :: "rat \<Rightarrow> int" where
  \<comment> \<open>the exponent of a positive rational: \<open>2^e \<le> r < 2^(e+1)\<close>\<close>
  "ilog2 r = (if 1 \<le> r then int (nlog2 (nat \<lfloor>r\<rfloor>))
              else - int (Suc (nlog2 (nat \<lceil>1 / r\<rceil> - 1))))"

definition rne :: "rat \<Rightarrow> int" where
  \<comment> \<open>to the nearest integer, ties to even\<close>
  "rne x = (let f = \<lfloor>x\<rfloor>; d = x - of_int f
            in if d < 1 / 2 then f else if 1 / 2 < d then f + 1
               else if even f then f else f + 1)"

definition qexp :: "rat \<Rightarrow> int" where
  "qexp r = max (ilog2 \<bar>r\<bar> - 52) (- 1074)"

definition gridv :: "rat \<Rightarrow> rat" where
  "gridv r = (if r = 0 then 0 else of_int (rne (r / pow2 (qexp r))) * pow2 (qexp r))"

definition fl :: "rat \<Rightarrow> pyfloat" where
  "fl r = (let v = gridv r in
     if pow2 1024 \<le> v then PInf else if v \<le> - pow2 1024 then NInf else Fin v)"

subsection \<open>Powers of two and exponents\<close>

lemma pow2_pos [simp]: "0 < pow2 k"
  by (simp add: pow2_def)

lemma pow2_nonneg [simp]: "0 \<le> pow2 k"
  by (rule less_imp_le) simp

lemma pow2_nz [simp]: "pow2 k \<noteq> 0"
  using pow2_pos [of k] by linarith

lemma pow2_0 [simp]: "pow2 0 = 1"
  by (simp add: pow2_def)

lemma pow2_powi: "pow2 k = 2 powi k"
  by (simp add: pow2_def power_int_def power_one_over inverse_eq_divide)

lemma pow2_add: "pow2 (a + b) = pow2 a * pow2 b"
  by (simp add: pow2_powi power_int_add)

lemma pow2_diff: "pow2 (a - b) = pow2 a / pow2 b"
  by (simp add: pow2_powi power_int_diff)

lemma pow2_nonneg_int: "0 \<le> k \<Longrightarrow> pow2 k = of_int (2 ^ nat k)"
  by (simp add: pow2_def)

lemma pow2_mono: "a \<le> b \<Longrightarrow> pow2 a \<le> pow2 b"
proof -
  assume "a \<le> b"
  then have "1 \<le> pow2 (b - a)" by (simp add: pow2_def)
  then show ?thesis by (simp add: pow2_diff pos_le_divide_eq)
qed

lemma pow2_less_imp_less: "pow2 a < pow2 b \<Longrightarrow> a < b"
  using pow2_mono [of b a] by (meson leI not_less)

lemma nlog2_bounds: "0 < n \<Longrightarrow> 2 ^ nlog2 n \<le> n \<and> n < 2 ^ Suc (nlog2 n)"
proof (induction n rule: nlog2.induct)
  case (1 n)
  show ?case
  proof (cases "n \<le> 1")
    case True
    with "1.prems" have "n = 1" by simp
    then show ?thesis by (simp add: nlog2.simps)
  next
    case False
    then have "0 < n div 2" by simp
    with False "1.IH" have IH: "2 ^ nlog2 (n div 2) \<le> n div 2 \<and> n div 2 < 2 ^ Suc (nlog2 (n div 2))"
      by blast
    from False have e: "nlog2 n = Suc (nlog2 (n div 2))" by (subst nlog2.simps) simp
    from IH have "2 * 2 ^ nlog2 (n div 2) \<le> n" "n < 2 * 2 ^ Suc (nlog2 (n div 2))"
      by linarith+
    then show ?thesis by (simp add: e)
  qed
qed

lemma ilog2_bounds:
  assumes "0 < r"
  shows "pow2 (ilog2 r) \<le> r \<and> r < pow2 (ilog2 r + 1)"
proof (cases "1 \<le> r")
  case True
  define n where "n = nat \<lfloor>r\<rfloor>"
  have n: "0 < n" using True by (simp add: n_def)
  have ni: "int n = \<lfloor>r\<rfloor>" using True by (simp add: n_def)
  from nlog2_bounds [OF n] have b: "2 ^ nlog2 n \<le> n" "n < 2 ^ Suc (nlog2 n)" by auto
  have "(2::rat) ^ nlog2 n \<le> of_nat n"
    using b(1) by (metis of_nat_le_iff of_nat_numeral of_nat_power)
  moreover have "of_nat n \<le> r" using ni by (metis of_int_floor_le of_int_of_nat_eq)
  ultimately have "(2::rat) ^ nlog2 n \<le> r" by linarith
  moreover have "of_nat (n + 1) \<le> (of_nat (2 ^ Suc (nlog2 n)) :: rat)"
    using b(2) by (simp only: of_nat_le_iff Suc_eq_plus1 [symmetric] Suc_le_eq)
  moreover have "r < of_nat (n + 1)"
    using ni by (metis floor_less_iff less_add_one of_int_of_nat_eq of_nat_1 of_nat_add zless_add1_eq)
  moreover have "ilog2 r = int (nlog2 n)" using True by (simp add: ilog2_def n_def)
  moreover have "pow2 (int (nlog2 n) + 1) = 2 ^ Suc (nlog2 n)"
    by (simp add: pow2_def nat_add_distrib)
  ultimately show ?thesis by (simp add: pow2_def)
next
  case False
  define m where "m = nat \<lceil>1 / r\<rceil>"
  have inv: "1 < 1 / r" using False assms by simp
  then have "1 < \<lceil>1 / r\<rceil>" by (simp only: less_ceiling_iff of_int_1)
  then have m2: "2 \<le> m" unfolding m_def by linarith
  have mi: "int m = \<lceil>1 / r\<rceil>" using inv by (simp add: m_def)
  define k where "k = nlog2 (m - 1)"
  have b: "2 ^ k \<le> m - 1" "m - 1 < 2 ^ Suc k"
    using nlog2_bounds [of "m - 1"] m2 by (auto simp: k_def)
  have il: "ilog2 r = - int (Suc k)" using False by (simp add: ilog2_def m_def k_def)
  have "1 / r \<le> of_nat m" using mi by (metis le_of_int_ceiling of_int_of_nat_eq)
  also have "\<dots> \<le> of_nat (2 ^ Suc k)" using b(2) m2 by (intro of_nat_mono) simp
  finally have up: "1 / r \<le> 2 ^ Suc k" by simp
  have "of_nat (m - 1) < 1 / r"
    using mi m2 by (metis less_ceiling_iff nat_less_le of_int_of_nat_eq of_nat_less_iff
      One_nat_def Suc_1 Suc_le_eq diff_less zero_less_Suc order_less_trans lessI)
  moreover have "(2::rat) ^ k \<le> of_nat (m - 1)"
    using b(1) by (metis of_nat_le_iff of_nat_numeral of_nat_power)
  ultimately have lo: "2 ^ k < 1 / r" by linarith
  have p1: "pow2 (- int (Suc k)) = 1 / 2 ^ Suc k" by (simp add: pow2_def nat_add_distrib)
  have p2: "pow2 (- int (Suc k) + 1) = 1 / 2 ^ k" by (cases k) (simp_all add: pow2_def nat_add_distrib)
  from up assms have "1 / 2 ^ Suc k \<le> r" by (simp add: field_simps)
  moreover from lo assms have "r < 1 / 2 ^ k" by (simp add: field_simps)
  ultimately show ?thesis by (simp only: il p1 p2 simp_thms)
qed

lemma ilog2_mono: "0 < r \<Longrightarrow> r \<le> s \<Longrightarrow> ilog2 r \<le> ilog2 s"
proof -
  assume a: "0 < r" "r \<le> s"
  then have "pow2 (ilog2 r) < pow2 (ilog2 s + 1)"
    using ilog2_bounds [of r] ilog2_bounds [of s] by linarith
  then show ?thesis using pow2_less_imp_less by fastforce
qed

lemma ilog2_less: "0 < r \<Longrightarrow> r < pow2 k \<Longrightarrow> ilog2 r < k"
  using ilog2_bounds [of r] pow2_less_imp_less [of "ilog2 r" k] by linarith

subsection \<open>Rounding to an integer\<close>

lemma rne_of_int [simp]: "rne (of_int k) = k"
  by (simp add: rne_def Let_def)

lemma rne_bounds: "\<lfloor>x\<rfloor> \<le> rne x \<and> rne x \<le> \<lfloor>x\<rfloor> + 1"
  by (simp add: rne_def Let_def)

lemma rne_error: "\<bar>of_int (rne x) - x\<bar> \<le> 1 / 2"
proof -
  define f where "f = \<lfloor>x\<rfloor>"
  have "of_int f \<le> x" "x < of_int f + 1" unfolding f_def by linarith+
  moreover have "rne x = (if x - of_int f < 1 / 2 then f
      else if 1 / 2 < x - of_int f then f + 1 else if even f then f else f + 1)"
    by (simp add: rne_def Let_def f_def)
  ultimately show ?thesis by (auto simp: abs_if)
qed

lemma rne_mono: "x \<le> y \<Longrightarrow> rne x \<le> rne y"
proof (cases "\<lfloor>x\<rfloor> = \<lfloor>y\<rfloor>")
  case True
  assume "x \<le> y"
  then have "x - of_int \<lfloor>x\<rfloor> \<le> y - of_int \<lfloor>y\<rfloor>" using True by simp
  with True show ?thesis by (auto simp: rne_def Let_def)
next
  case False
  assume "x \<le> y"
  with False have "\<lfloor>x\<rfloor> + 1 \<le> \<lfloor>y\<rfloor>" using floor_mono [of x y] by linarith
  with rne_bounds [of x] rne_bounds [of y] show ?thesis by linarith
qed

lemma rne_minus: "rne (- x) = - rne x"
proof (cases "x \<in> \<int>")
  case True
  then obtain k where "x = of_int k" by (auto elim: Ints_cases)
  then show ?thesis by (metis of_int_minus rne_of_int)
next
  case False
  then have c: "\<lceil>x\<rceil> = \<lfloor>x\<rfloor> + 1" by (simp add: ceiling_altdef) (metis Ints_of_int)
  have f: "\<lfloor>- x\<rfloor> = - \<lfloor>x\<rfloor> - 1" using c by (simp add: floor_minus)
  then show ?thesis by (auto simp: rne_def Let_def)
qed

lemma rne_le_of_int: "x \<le> of_int k \<Longrightarrow> rne x \<le> k"
  using rne_mono [of x "of_int k"] by simp

lemma rne_ge_of_int: "of_int k \<le> x \<Longrightarrow> k \<le> rne x"
  using rne_mono [of "of_int k" x] by simp

subsection \<open>Rounding to the binary64 grid\<close>

lemma gridv_0 [simp]: "gridv 0 = 0"
  by (simp add: gridv_def)

lemma qexp_minus [simp]: "qexp (- r) = qexp r"
  by (simp add: qexp_def)

lemma gridv_minus: "gridv (- r) = - gridv r"
  by (simp add: gridv_def rne_minus)

lemma grid_le:
  assumes "r \<le> of_int k * pow2 q"
  shows "of_int (rne (r / pow2 q)) * pow2 q \<le> of_int k * pow2 q"
proof -
  have "r / pow2 q \<le> of_int k" using assms by (simp add: pos_divide_le_eq)
  from rne_le_of_int [OF this] show ?thesis by simp
qed

lemma grid_ge:
  assumes "of_int k * pow2 q \<le> r"
  shows "of_int k * pow2 q \<le> of_int (rne (r / pow2 q)) * pow2 q"
proof -
  have "of_int k \<le> r / pow2 q" using assms by (simp add: pos_le_divide_eq)
  from rne_ge_of_int [OF this] show ?thesis by simp
qed

lemma pow2_multiple: "q \<le> k \<Longrightarrow> pow2 k = of_int (2 ^ nat (k - q)) * pow2 q"
  using pow2_add [of "k - q" q] pow2_nonneg_int [of "k - q"] by simp

lemma gridv_nonneg: "0 \<le> r \<Longrightarrow> 0 \<le> gridv r"
  using grid_ge [of 0 "qexp r" r] by (simp add: gridv_def)

lemma gridv_mono_pos:
  assumes "0 < r" "r \<le> s"
  shows "gridv r \<le> gridv s"
proof (cases "qexp r = qexp s")
  case True
  have "r / pow2 (qexp s) \<le> s / pow2 (qexp s)" using assms by (simp add: divide_right_mono)
  then have "rne (r / pow2 (qexp s)) \<le> rne (s / pow2 (qexp s))" by (rule rne_mono)
  with assms True show ?thesis by (simp add: gridv_def)
next
  case False
  have s: "0 < s" using assms by simp
  have "ilog2 r \<le> ilog2 s" using assms by (rule ilog2_mono)
  with False s assms(1) have lt: "ilog2 r < ilog2 s" and qs: "qexp s = ilog2 s - 52" and
    qr: "qexp r \<le> ilog2 s"
    by (auto simp: qexp_def max_def split: if_splits)
  have rP: "r \<le> pow2 (ilog2 s)"
    using ilog2_bounds [OF assms(1)] pow2_mono [of "ilog2 r + 1" "ilog2 s"] lt by linarith
  have "gridv r \<le> pow2 (ilog2 s)"
    using grid_le [of r _ "qexp r"] rP assms(1) pow2_multiple [OF qr]
    by (metis gridv_def less_irrefl)
  moreover have "qexp s \<le> ilog2 s" using qs by simp
  then have "pow2 (ilog2 s) \<le> gridv s"
    using grid_ge [of _ "qexp s" s] ilog2_bounds [OF s] s pow2_multiple
    by (metis gridv_def less_irrefl)
  ultimately show ?thesis by linarith
qed

lemma gridv_mono: "r \<le> s \<Longrightarrow> gridv r \<le> gridv s"
proof -
  assume a: "r \<le> s"
  consider "0 < r" | "r \<le> 0" "0 \<le> s" | "s < 0" by linarith
  then show ?thesis
  proof cases
    case 1
    with a show ?thesis by (simp add: gridv_mono_pos)
  next
    case 2
    then have "0 \<le> gridv (- r)" "0 \<le> gridv s" by (auto intro: gridv_nonneg)
    then show ?thesis by (simp add: gridv_minus)
  next
    case 3
    with a have "gridv (- s) \<le> gridv (- r)" by (intro gridv_mono_pos) auto
    then show ?thesis by (simp add: gridv_minus)
  qed
qed

lemma gridv_exact:
  assumes "r = of_int k * pow2 (qexp r)"
  shows "gridv r = r"
proof (cases "r = 0")
  case False
  have "r / pow2 (qexp r) = of_int k" using assms by (metis nonzero_mult_div_cancel_right pow2_nz)
  with False assms show ?thesis by (simp add: gridv_def)
qed simp

lemma gridv_of_int: "\<bar>n\<bar> < 2 ^ 53 \<Longrightarrow> gridv (of_int n) = of_int n"
proof (cases "n = 0")
  case False
  assume a: "\<bar>n\<bar> < 2 ^ 53"
  have p: "(0::rat) < of_int \<bar>n\<bar>" using False by simp
  have "(of_int \<bar>n\<bar> :: rat) < of_int (2 ^ 53)" using a by (simp only: of_int_less_iff)
  then have "of_int \<bar>n\<bar> < pow2 53" by (simp add: pow2_def)
  with p have "ilog2 (of_int \<bar>n\<bar>) < 53" by (rule ilog2_less)
  then have q: "qexp (of_int n) \<le> 0" by (simp add: qexp_def)
  then have "of_int n = of_int (n * 2 ^ nat (- qexp (of_int n))) * pow2 (qexp (of_int n))"
    by (cases "qexp (of_int n) = 0") (simp_all add: pow2_def)
  then show ?thesis by (rule gridv_exact)
qed simp

lemma gridv_error:
  assumes "\<bar>r\<bar> < pow2 e" "- 1021 \<le> e"
  shows "\<bar>gridv r - r\<bar> \<le> pow2 (e - 53) / 2"
proof (cases "r = 0")
  case False
  let ?q = "qexp r"
  have "ilog2 \<bar>r\<bar> < e" using False assms(1) by (intro ilog2_less) auto
  then have q: "?q \<le> e - 53" using assms(2) by (auto simp: qexp_def)
  have "gridv r - r = (of_int (rne (r / pow2 ?q)) - r / pow2 ?q) * pow2 ?q"
    using False by (simp add: gridv_def left_diff_distrib)
  then have "\<bar>gridv r - r\<bar> = \<bar>of_int (rne (r / pow2 ?q)) - r / pow2 ?q\<bar> * pow2 ?q"
    by (simp add: abs_mult less_imp_le [OF pow2_pos])
  also have "\<dots> \<le> 1 / 2 * pow2 ?q"
    using rne_error [of "r / pow2 ?q"] by (intro mult_right_mono) auto
  also have "\<dots> \<le> 1 / 2 * pow2 (e - 53)"
    using pow2_mono [OF q] by simp
  finally show ?thesis by simp
qed (simp add: less_imp_le)

section \<open>Arithmetic and comparison\<close>

text \<open>
  The operators on finite operands round the exact result; on infinities and NaN they
  follow IEEE 754. A comparison with NaN is false. Division by zero raises.
\<close>

fun f_neg :: "pyfloat \<Rightarrow> pyfloat" where
  "f_neg (Fin x) = Fin (- x)"
| "f_neg PInf = NInf"
| "f_neg NInf = PInf"
| "f_neg NaN = NaN"

fun f_abs :: "pyfloat \<Rightarrow> pyfloat" where
  "f_abs (Fin x) = Fin \<bar>x\<bar>"
| "f_abs PInf = PInf"
| "f_abs NInf = PInf"
| "f_abs NaN = NaN"

fun f_add :: "pyfloat \<Rightarrow> pyfloat \<Rightarrow> pyfloat" where
  "f_add (Fin x) (Fin y) = fl (x + y)"
| "f_add NaN _ = NaN"
| "f_add _ NaN = NaN"
| "f_add PInf NInf = NaN"
| "f_add NInf PInf = NaN"
| "f_add PInf _ = PInf"
| "f_add _ PInf = PInf"
| "f_add NInf _ = NInf"
| "f_add _ NInf = NInf"

definition f_sub :: "pyfloat \<Rightarrow> pyfloat \<Rightarrow> pyfloat" where
  "f_sub x y = f_add x (f_neg y)"

definition f_sgn_inf :: "bool \<Rightarrow> pyfloat" where
  "f_sgn_inf pos = (if pos then PInf else NInf)"

fun f_mul :: "pyfloat \<Rightarrow> pyfloat \<Rightarrow> pyfloat" where
  "f_mul (Fin x) (Fin y) = fl (x * y)"
| "f_mul NaN _ = NaN"
| "f_mul _ NaN = NaN"
| "f_mul (Fin x) y = (if x = 0 then NaN else f_sgn_inf ((0 < x) = (y = PInf)))"
| "f_mul x (Fin y) = (if y = 0 then NaN else f_sgn_inf ((0 < y) = (x = PInf)))"
| "f_mul x y = f_sgn_inf (x = y)"

fun f_div :: "pyfloat \<Rightarrow> pyfloat \<Rightarrow> pyfloat result" where
  "f_div (Fin x) (Fin y) = (if y = 0 then Inl ZeroDivisionError else Inr (fl (x / y)))"
| "f_div x (Fin y) =
     (if y = 0 then Inl ZeroDivisionError
      else Inr (if x = NaN then NaN else f_sgn_inf ((0 < y) = (x = PInf))))"
| "f_div NaN _ = Inr NaN"
| "f_div _ NaN = Inr NaN"
| "f_div (Fin _) _ = Inr (Fin 0)"
| "f_div _ _ = Inr NaN"

fun f_lt :: "pyfloat \<Rightarrow> pyfloat \<Rightarrow> bool" where
  "f_lt NaN _ = False"
| "f_lt _ NaN = False"
| "f_lt (Fin x) (Fin y) = (x < y)"
| "f_lt NInf y = (y \<noteq> NInf)"
| "f_lt (Fin _) y = (y = PInf)"
| "f_lt PInf _ = False"

definition f_eq :: "pyfloat \<Rightarrow> pyfloat \<Rightarrow> bool" where
  "f_eq x y \<longleftrightarrow> x = y \<and> x \<noteq> NaN"

definition f_le :: "pyfloat \<Rightarrow> pyfloat \<Rightarrow> bool" where
  "f_le x y \<longleftrightarrow> f_lt x y \<or> f_eq x y"

definition f_min :: "pyfloat \<Rightarrow> pyfloat \<Rightarrow> pyfloat" where
  \<comment> \<open>\<open>min(a, b)\<close> keeps \<open>a\<close> unless \<open>b < a\<close>\<close>
  "f_min a b = (if f_lt b a then b else a)"

definition f_max :: "pyfloat \<Rightarrow> pyfloat \<Rightarrow> pyfloat" where
  "f_max a b = (if f_lt a b then b else a)"

definition f_is_finite :: "pyfloat \<Rightarrow> bool" where
  \<comment> \<open>\<open>math.isfinite\<close>\<close>
  "f_is_finite x \<longleftrightarrow> (case x of Fin _ \<Rightarrow> True | _ \<Rightarrow> False)"

definition f_of_int :: "int \<Rightarrow> pyfloat result" where
  \<comment> \<open>\<open>float(n)\<close>: an integer too large for a float raises\<close>
  "f_of_int n = (case fl (of_int n) of Fin v \<Rightarrow> Inr (Fin v) | _ \<Rightarrow> Inl OverflowError)"

definition f_int_div :: "int \<Rightarrow> int \<Rightarrow> pyfloat result" where
  \<comment> \<open>\<open>a / b\<close> on integers: the correctly rounded quotient\<close>
  "f_int_div a b =
     (if b = 0 then Inl ZeroDivisionError
      else case fl (of_int a / of_int b) of Fin v \<Rightarrow> Inr (Fin v) | _ \<Rightarrow> Inl OverflowError)"

fun f_int :: "pyfloat \<Rightarrow> int result" where
  \<comment> \<open>\<open>int(x)\<close>: towards zero\<close>
  "f_int (Fin x) = Inr (if 0 \<le> x then \<lfloor>x\<rfloor> else \<lceil>x\<rceil>)"
| "f_int NaN = Inl ValueError"
| "f_int _ = Inl OverflowError"

fun f_round :: "nat \<Rightarrow> pyfloat \<Rightarrow> pyfloat" where
  \<comment> \<open>\<open>round(x, nd)\<close>: the decimal nearest to the exact value, ties to even, as a float\<close>
  "f_round nd (Fin x) = fl (of_int (rne (x * 10 ^ nd)) / 10 ^ nd)"
| "f_round nd x = x"

instantiation pyfloat :: linorder
begin

fun less_eq_pyfloat :: "pyfloat \<Rightarrow> pyfloat \<Rightarrow> bool" where
  "NInf \<le> y \<longleftrightarrow> True"
| "Fin x \<le> y \<longleftrightarrow> (case y of NInf \<Rightarrow> False | Fin v \<Rightarrow> x \<le> v | _ \<Rightarrow> True)"
| "PInf \<le> y \<longleftrightarrow> y = PInf \<or> y = NaN"
| "NaN \<le> y \<longleftrightarrow> y = NaN"

definition less_pyfloat :: "pyfloat \<Rightarrow> pyfloat \<Rightarrow> bool" where
  "x < y \<longleftrightarrow> x \<le> y \<and> \<not> y \<le> (x :: pyfloat)"

instance
proof
  fix x y z :: pyfloat
  show "x < y \<longleftrightarrow> x \<le> y \<and> \<not> y \<le> x" by (rule less_pyfloat_def)
  show "x \<le> x" by (cases x) auto
  show "x \<le> z" if "x \<le> y" "y \<le> z" using that by (cases x; cases y; cases z) auto
  show "x = y" if "x \<le> y" "y \<le> x" using that by (cases x; cases y) auto
  show "x \<le> y \<or> y \<le> x" by (cases x; cases y) auto
qed

end

text \<open>On values that are not NaN, Python's \<open><\<close> is this order, so \<open>sorted\<close> is \<^const>\<open>sort\<close>.\<close>

lemma f_lt_less: "x \<noteq> NaN \<Longrightarrow> y \<noteq> NaN \<Longrightarrow> f_lt x y \<longleftrightarrow> x < y"
  by (cases x; cases y) (auto simp: less_pyfloat_def)

lemma f_lt_Fin [simp]: "f_lt (Fin x) (Fin y) \<longleftrightarrow> x < y"
  by simp

lemma f_le_Fin [simp]: "f_le (Fin x) (Fin y) \<longleftrightarrow> x \<le> y"
  by (auto simp: f_le_def f_eq_def)

lemma f_le_iff: "x \<noteq> NaN \<Longrightarrow> y \<noteq> NaN \<Longrightarrow> f_le x y \<longleftrightarrow> x \<le> y"
  by (cases x; cases y) (auto simp: f_le_def f_eq_def)

lemma fl_not_NaN [simp]: "fl r \<noteq> NaN"
  by (simp add: fl_def Let_def)

lemma fl_mono: "r \<le> s \<Longrightarrow> fl r \<le> fl s"
  using gridv_mono [of r s] pow2_pos [of 1024] unfolding fl_def Let_def by auto

lemma fl_0 [simp]: "fl 0 = Fin 0"
  using pow2_pos [of 1024] by (simp add: fl_def not_le del: pow2_pos)

lemma fl_grid: "\<bar>gridv r\<bar> < pow2 1024 \<Longrightarrow> fl r = Fin (gridv r)"
  by (auto simp: fl_def Let_def)

lemma fl_Fin: "fl r = Fin v \<Longrightarrow> v = gridv r"
  by (auto simp: fl_def Let_def split: if_splits)

lemma fl_of_int: "\<bar>n\<bar> < 2 ^ 53 \<Longrightarrow> fl (of_int n) = Fin (of_int n)"
proof -
  assume a: "\<bar>n\<bar> < 2 ^ 53"
  then have "(of_int \<bar>n\<bar> :: rat) < of_int (2 ^ 53)" by (simp only: of_int_less_iff)
  also have "\<dots> = pow2 53" by (simp add: pow2_def)
  also have "\<dots> \<le> pow2 1024" by (rule pow2_mono) simp
  finally show ?thesis using fl_grid [of "of_int n"] gridv_of_int [OF a] by simp
qed

lemma f_of_int_small: "\<bar>n\<bar> < 2 ^ 53 \<Longrightarrow> f_of_int n = Inr (Fin (of_int n))"
  by (simp add: f_of_int_def fl_of_int)

lemma fl_nonneg: "0 \<le> r \<Longrightarrow> f_le (Fin 0) (fl r)"
  using fl_mono [of 0 r] by (simp add: f_le_iff)

lemma fl_le_const: "r \<le> of_int n \<Longrightarrow> \<bar>n\<bar> < 2 ^ 53 \<Longrightarrow> fl r \<le> Fin (of_int n)"
  using fl_mono [of r "of_int n"] by (simp add: fl_of_int)

lemma f_round_mono: "x \<le> y \<Longrightarrow> f_round nd (Fin x) \<le> f_round nd (Fin y)"
proof -
  assume "x \<le> y"
  then have "rne (x * 10 ^ nd) \<le> rne (y * 10 ^ nd)" by (intro rne_mono mult_right_mono) auto
  then have "of_int (rne (x * 10 ^ nd)) / 10 ^ nd \<le> (of_int (rne (y * 10 ^ nd)) / 10 ^ nd :: rat)"
    by (simp add: divide_right_mono)
  then show ?thesis by (simp add: fl_mono)
qed

lemma f_sub_Fin [simp]: "f_sub (Fin x) (Fin y) = fl (x - y)"
  by (simp add: f_sub_def)

lemma f_min_le: "x \<noteq> NaN \<Longrightarrow> y \<noteq> NaN \<Longrightarrow> f_min x y \<le> y \<and> f_min x y \<le> x"
  by (auto simp: f_min_def f_lt_less)

lemma f_min_not_NaN: "x \<noteq> NaN \<Longrightarrow> y \<noteq> NaN \<Longrightarrow> f_min x y \<noteq> NaN"
  by (simp add: f_min_def)

lemma fl_between:
  assumes "0 \<le> r" "r \<le> of_int k" "k < 2 ^ 53"
  shows "\<exists>v. fl r = Fin v \<and> v = gridv r \<and> 0 \<le> v \<and> v \<le> of_int k"
proof -
  have k: "0 \<le> k" using assms(1,2) by (metis of_int_0_le_iff order_trans)
  then have "gridv r \<le> of_int k" using gridv_mono [OF assms(2)] gridv_of_int [of k] assms(3) by simp
  moreover have "0 \<le> gridv r" using assms(1) by (rule gridv_nonneg)
  moreover have "(of_int k :: rat) < pow2 1024"
  proof -
    have "(of_int k :: rat) < of_int (2 ^ 53)" using assms(3) by (simp only: of_int_less_iff)
    also have "\<dots> = pow2 53" by (simp add: pow2_def)
    also have "\<dots> \<le> pow2 1024" by (rule pow2_mono) simp
    finally show ?thesis .
  qed
  ultimately show ?thesis using fl_grid [of r] by auto
qed

lemma f_round_mono_all: "x \<le> y \<Longrightarrow> f_round nd x \<le> f_round nd y"
proof -
  assume a: "x \<le> y"
  show ?thesis
  proof (cases x; cases y)
    fix v w assume "x = Fin v" "y = Fin w"
    with a show ?thesis using f_round_mono [of v w nd] by simp
  next
    fix v assume "x = Fin v" "y = PInf"
    then show ?thesis by (cases "f_round nd x") auto
  next
    fix v assume "x = Fin v" "y = NaN"
    then show ?thesis by (cases "f_round nd x") auto
  qed (use a in \<open>auto split: pyfloat.splits\<close>)
qed

lemma ilog2_pow2 [simp]: "ilog2 (pow2 k) = k"
proof -
  have "pow2 (ilog2 (pow2 k)) \<le> pow2 k" "pow2 k < pow2 (ilog2 (pow2 k) + 1)"
    using ilog2_bounds [of "pow2 k"] by auto
  moreover have "pow2 k < pow2 (k + 1)" by (simp add: pow2_add pow2_def [of 1])
  ultimately have "pow2 (ilog2 (pow2 k)) < pow2 (k + 1)" "pow2 k < pow2 (ilog2 (pow2 k) + 1)"
    by linarith+
  then have "ilog2 (pow2 k) < k + 1" "k < ilog2 (pow2 k) + 1" by (blast dest: pow2_less_imp_less)+
  then show ?thesis by simp
qed

lemma gridv_pow2: "- 1074 \<le> k \<Longrightarrow> gridv (pow2 k) = pow2 k"
  by (rule gridv_exact [where k = "2 ^ nat (k - qexp (pow2 k))"], rule pow2_multiple)
    (simp add: qexp_def)

lemma fl_pow2: "- 1074 \<le> k \<Longrightarrow> k < 1024 \<Longrightarrow> fl (pow2 k) = Fin (pow2 k)"
proof -
  assume k: "- 1074 \<le> k" "k < 1024"
  have "pow2 k < pow2 (k + 1)" by (simp add: pow2_add pow2_def [of 1])
  also have "\<dots> \<le> pow2 1024" using k by (intro pow2_mono) simp
  finally show ?thesis using fl_grid [of "pow2 k"] gridv_pow2 [OF k(1)] by simp
qed

end
