(* ===== verification/Py_Data.thy ===== *)
theory Py_Data
  imports Py_Float
begin

text \<open>
  Python's built-in conversions as the platform uses them: \<open>int(s)\<close> and \<open>str(n)\<close>,
  \<open>str.upper\<close>, the values \<open>json.loads\<close> can return, and \<open>float(v)\<close>, \<open>int(v)\<close>,
  \<open>v[k]\<close> and \<open>v.get(k)\<close> on such values, each with the exception it raises.

  Strings are lists of 8-bit characters; \<^term>\<open>str_upper\<close> is the ASCII part of
  \<open>str.upper\<close>. The decimal text of a float (\<open>repr\<close>, \<open>float(str)\<close>) is the one
  conversion kept abstract: the functions that need it take it as an argument.
\<close>

section \<open>Strings and integers\<close>

definition char_code :: "char \<Rightarrow> nat" where
  "char_code c = of_char c"

definition char_upper :: "char \<Rightarrow> char" where
  "char_upper c = (if 97 \<le> char_code c \<and> char_code c \<le> 122 then char_of (char_code c - 32) else c)"

definition str_upper :: "string \<Rightarrow> string" where
  "str_upper s = map char_upper s"

definition is_space :: "char \<Rightarrow> bool" where
  "is_space c \<longleftrightarrow> (9 \<le> char_code c \<and> char_code c \<le> 13) \<or> char_code c = 32"

definition is_digit :: "char \<Rightarrow> bool" where
  "is_digit c \<longleftrightarrow> 48 \<le> char_code c \<and> char_code c \<le> 57"

definition digit_val :: "char \<Rightarrow> nat" where
  "digit_val c = char_code c - 48"

definition digit_char :: "nat \<Rightarrow> char" where
  "digit_char d = char_of (48 + d)"

definition strip_spaces :: "string \<Rightarrow> string" where
  "strip_spaces s = rev (dropWhile is_space (rev (dropWhile is_space s)))"

text \<open>
  The digits of an integer literal: at least one, single underscores allowed between
  digits. The flag is set where an underscore (or the end) is not allowed.
\<close>

fun parse_digits :: "nat \<Rightarrow> bool \<Rightarrow> string \<Rightarrow> nat option" where
  "parse_digits acc gap [] = (if gap then None else Some acc)"
| "parse_digits acc gap (c # cs) =
     (if is_digit c then parse_digits (10 * acc + digit_val c) False cs
      else if c = CHR ''_'' \<and> \<not> gap then parse_digits acc True cs
      else None)"

definition max_str_digits :: nat where
  "max_str_digits = 4300"

definition parse_signed :: "string \<Rightarrow> int option" where
  "parse_signed s =
     (case s of
        c # cs \<Rightarrow>
          (if c = CHR ''-'' then map_option (\<lambda>n. - int n) (parse_digits 0 True cs)
           else if c = CHR ''+'' then map_option int (parse_digits 0 True cs)
           else map_option int (parse_digits 0 True s))
      | [] \<Rightarrow> None)"

definition int_of_str :: "string \<Rightarrow> int result" where
  "int_of_str s =
     (if max_str_digits < length (filter is_digit s) then Inl ValueError
      else case parse_signed (strip_spaces s) of None \<Rightarrow> Inl ValueError | Some n \<Rightarrow> Inr n)"

fun nat_str :: "nat \<Rightarrow> string" where
  "nat_str n = (if n < 10 then [digit_char n] else nat_str (n div 10) @ [digit_char (n mod 10)])"

declare nat_str.simps [simp del]

definition str_of_int :: "int \<Rightarrow> string" where
  "str_of_int n = (if n < 0 then CHR ''-'' # nat_str (nat (- n)) else nat_str (nat n))"

lemma char_code_digit [simp]: "d < 10 \<Longrightarrow> char_code (digit_char d) = 48 + d"
  by (simp add: char_code_def digit_char_def of_char_of)

lemma is_digit_digit_char [simp]: "d < 10 \<Longrightarrow> is_digit (digit_char d)"
  by (simp add: is_digit_def)

lemma digit_val_digit_char [simp]: "d < 10 \<Longrightarrow> digit_val (digit_char d) = d"
  by (simp add: digit_val_def)

lemma nat_str_digits: "c \<in> set (nat_str n) \<Longrightarrow> is_digit c"
proof (induction n rule: nat_str.induct)
  case (1 n)
  show ?case
  proof (cases "n < 10")
    case True
    with "1.prems" show ?thesis by (simp add: nat_str.simps [of n])
  next
    case False
    with "1.prems" consider "c \<in> set (nat_str (n div 10))" | "c = digit_char (n mod 10)"
      by (auto simp: nat_str.simps [of n])
    then show ?thesis using "1.IH" False by cases auto
  qed
qed

lemma nat_str_nonempty [simp]: "nat_str n \<noteq> []"
  by (subst nat_str.simps) simp

lemma parse_digits_nat_str:
  "parse_digits a g (nat_str n @ ys) = parse_digits (a * 10 ^ length (nat_str n) + n) False ys"
proof (induction n arbitrary: a g ys rule: nat_str.induct)
  case (1 n)
  show ?case
  proof (cases "n < 10")
    case True
    then show ?thesis by (simp add: nat_str.simps [of n] mult.commute)
  next
    case False
    let ?l = "length (nat_str (n div 10))"
    from False show ?thesis by (simp add: nat_str.simps [of n] "1.IH" [OF False] algebra_simps)
  qed
qed

lemma length_nat_str: "0 < k \<Longrightarrow> n < 10 ^ k \<Longrightarrow> length (nat_str n) \<le> k"
proof (induction n arbitrary: k rule: nat_str.induct)
  case (1 n)
  show ?case
  proof (cases "n < 10")
    case True
    with "1.prems" show ?thesis by (simp add: nat_str.simps [of n])
  next
    case False
    with "1.prems" have "k \<noteq> 1" by (intro notI) simp
    with "1.prems" obtain k' where k: "k = Suc k'" "0 < k'" by (cases k) auto
    with "1.prems" have "n div 10 < 10 ^ k'" by (simp add: div_less_iff_less_mult mult.commute)
    then show ?thesis using "1.IH" [OF False k(2)] False k by (simp add: nat_str.simps [of n])
  qed
qed

lemma digit_not_space: "is_digit c \<Longrightarrow> \<not> is_space c"
  by (auto simp: is_digit_def is_space_def)

lemma digit_not_sign: "is_digit c \<Longrightarrow> c \<noteq> CHR ''-'' \<and> c \<noteq> CHR ''+''"
  by (auto simp: is_digit_def char_code_def)

lemma strip_spaces_id: "(\<forall>c \<in> set s. \<not> is_space c) \<Longrightarrow> strip_spaces s = s"
proof -
  have d: "dropWhile is_space xs = xs" if "\<forall>c \<in> set xs. \<not> is_space c" for xs
    using that by (cases xs) auto
  assume "\<forall>c \<in> set s. \<not> is_space c"
  then show ?thesis by (simp add: strip_spaces_def d)
qed

lemma parse_signed_str_of_int: "parse_signed (str_of_int n) = Some n"
proof (cases "n < 0")
  case True
  then show ?thesis
    using parse_digits_nat_str [of 0 True "nat (- n)" "[]"]
    by (simp add: parse_signed_def str_of_int_def)
next
  case False
  obtain c cs where s: "nat_str (nat n) = c # cs" by (meson nat_str_nonempty list.exhaust)
  then have "is_digit c" using nat_str_digits [of c "nat n"] by simp
  with digit_not_sign have c: "c \<noteq> CHR ''-''" "c \<noteq> CHR ''+''" by blast+
  have "parse_digits 0 True (c # cs) = Some (nat n)"
    using parse_digits_nat_str [of 0 True "nat n" "[]"] s by simp
  with c False show ?thesis
    by (simp add: parse_signed_def str_of_int_def s del: parse_digits.simps)
qed

lemma str_of_int_chars: "c \<in> set (str_of_int n) \<Longrightarrow> \<not> is_space c"
  using nat_str_digits digit_not_space
  by (auto simp: str_of_int_def is_space_def char_code_def split: if_splits)

lemma str_of_int_digit_count:
  assumes "\<bar>n\<bar> < 10 ^ max_str_digits"
  shows "length (filter is_digit (str_of_int n)) \<le> max_str_digits"
proof -
  have m: "nat \<bar>n\<bar> < 10 ^ max_str_digits"
    using assms by (metis abs_ge_zero nat_less_iff of_nat_numeral of_nat_power)
  have "0 < max_str_digits" by (simp add: max_str_digits_def)
  from length_nat_str [OF this m] have "length (nat_str (nat \<bar>n\<bar>)) \<le> max_str_digits" .
  moreover have "length (filter is_digit (str_of_int n)) \<le> length (nat_str (nat \<bar>n\<bar>))"
    by (auto simp: str_of_int_def is_digit_def char_code_def length_filter_le)
  ultimately show ?thesis by linarith
qed

lemma int_of_str_of_int:
  "\<bar>n\<bar> < 10 ^ max_str_digits \<Longrightarrow> int_of_str (str_of_int n) = Inr n"
  using str_of_int_digit_count [of n] str_of_int_chars [of _ n]
  by (simp add: int_of_str_def strip_spaces_id parse_signed_str_of_int)

lemma small_int_printable: "(n :: int) < 10 ^ 9 \<Longrightarrow> n < 10 ^ max_str_digits"
proof -
  have "(10::int) ^ 9 \<le> 10 ^ max_str_digits"
    by (rule power_increasing) (simp_all add: max_str_digits_def)
  then show "n < 10 ^ 9 \<Longrightarrow> ?thesis" by linarith
qed

lemma str_upper_upper [simp]: "str_upper (str_upper s) = str_upper s"
  by (auto simp: str_upper_def char_upper_def char_code_def of_char_of)

lemma str_upper_Nil_iff [simp]: "str_upper s = [] \<longleftrightarrow> s = []"
  by (simp add: str_upper_def)

section \<open>JSON values\<close>

datatype json =
    JNull
  | JBool bool
  | JInt int
  | JFloat pyfloat
  | JStr string
  | JList "json list"
  | JObj "(string \<times> json) list"

fun json_float :: "(string \<Rightarrow> pyfloat result) \<Rightarrow> json \<Rightarrow> pyfloat result" where
  "json_float fparse (JBool b) = Inr (Fin (if b then 1 else 0))"
| "json_float fparse (JInt n) = f_of_int n"
| "json_float fparse (JFloat x) = Inr x"
| "json_float fparse (JStr s) = fparse s"
| "json_float fparse _ = Inl TypeError"

fun json_int :: "json \<Rightarrow> int result" where
  "json_int (JBool b) = Inr (if b then 1 else 0)"
| "json_int (JInt n) = Inr n"
| "json_int (JFloat x) = f_int x"
| "json_int (JStr s) = int_of_str s"
| "json_int _ = Inl TypeError"

fun json_item :: "json \<Rightarrow> string \<Rightarrow> json result" where
  \<comment> \<open>\<open>v[k]\<close>\<close>
  "json_item (JObj kvs) k =
     (case dict_get kvs k of None \<Rightarrow> Inl KeyError | Some v \<Rightarrow> Inr v)"
| "json_item _ k = Inl TypeError"

fun json_get :: "json \<Rightarrow> string \<Rightarrow> json \<Rightarrow> json result" where
  \<comment> \<open>\<open>v.get(k, default)\<close>: only a dictionary has \<open>get\<close>\<close>
  "json_get (JObj kvs) k dflt =
     Inr (case dict_get kvs k of None \<Rightarrow> dflt | Some v \<Rightarrow> v)"
| "json_get _ k dflt = Inl AttributeError"

lemma json_float_JFloat_eq [simp]: "json_float fparse (JFloat x) = Inr x"
  by simp

end
