(* ===== verification/Models.thy ===== *)
theory Models
  imports Py_Data "HOL-Library.Monad_Syntax"
begin

text \<open>
  \<open>src/models.py\<close>: the market event, the per-symbol snapshot, their conversions to and
  from dictionaries, and the event parser the three consumers of the platform share
  (\<open>KafkaConsumerBridge._parse_event\<close>, \<open>TickWriter._parse_event\<close>,
  \<open>_parse_pubsub_event\<close> differ only in where \<open>server_ts\<close> comes from).

  Field names carry a prefix (\<open>ev_\<close>, \<open>sn_\<close>) because records share one name space.
\<close>

section \<open>MarketEvent\<close>

datatype event_type = QUOTE | TRADE | SNAPSHOT

fun event_type_value :: "event_type \<Rightarrow> string" where
  "event_type_value QUOTE = ''quote''"
| "event_type_value TRADE = ''trade''"
| "event_type_value SNAPSHOT = ''snapshot''"

definition event_type_of :: "json \<Rightarrow> event_type result" where
  \<comment> \<open>\<open>EventType(v)\<close>\<close>
  "event_type_of v =
     (if v = JStr ''quote'' then Inr QUOTE
      else if v = JStr ''trade'' then Inr TRADE
      else if v = JStr ''snapshot'' then Inr SNAPSHOT
      else Inl ValueError)"

record market_event =
  ev_symbol :: string
  ev_bid :: pyfloat
  ev_ask :: pyfloat
  ev_bid_size :: int
  ev_ask_size :: int
  ev_event_ts :: int
  ev_server_ts :: int
  ev_seq :: int
  ev_type :: event_type
  ev_last_price :: pyfloat
  ev_last_size :: int

definition event_to_dict :: "market_event \<Rightarrow> (string, json) dict" where
  "event_to_dict e =
     [(''symbol'', JStr (ev_symbol e)),
      (''bid'', JFloat (ev_bid e)),
      (''ask'', JFloat (ev_ask e)),
      (''bid_size'', JInt (ev_bid_size e)),
      (''ask_size'', JInt (ev_ask_size e)),
      (''event_ts'', JInt (ev_event_ts e)),
      (''server_ts'', JInt (ev_server_ts e)),
      (''seq'', JInt (ev_seq e)),
      (''type'', JStr (event_type_value (ev_type e))),
      (''last_price'', JFloat (ev_last_price e)),
      (''last_size'', JInt (ev_last_size e))]"

definition now_ms :: "pyfloat \<Rightarrow> int result" where
  \<comment> \<open>\<open>int(time.time() * 1000)\<close>, the clock reading being the argument\<close>
  "now_ms time = f_int (f_mul time (Fin 1000))"

section \<open>SnapshotData\<close>

record snapshot_data =
  sn_symbol :: string
  sn_bid :: pyfloat
  sn_ask :: pyfloat
  sn_bid_size :: int
  sn_ask_size :: int
  sn_seq :: int
  sn_ts :: int

definition snapshot_to_dict :: "snapshot_data \<Rightarrow> (string, json) dict" where
  "snapshot_to_dict s =
     [(''symbol'', JStr (sn_symbol s)),
      (''bid'', JFloat (sn_bid s)),
      (''ask'', JFloat (sn_ask s)),
      (''bid_size'', JInt (sn_bid_size s)),
      (''ask_size'', JInt (sn_ask_size s)),
      (''seq'', JInt (sn_seq s)),
      (''ts'', JInt (sn_ts s))]"

definition from_event :: "market_event \<Rightarrow> snapshot_data" where
  "from_event e =
     \<lparr>sn_symbol = ev_symbol e, sn_bid = ev_bid e, sn_ask = ev_ask e,
      sn_bid_size = ev_bid_size e, sn_ask_size = ev_ask_size e,
      sn_seq = ev_seq e, sn_ts = ev_server_ts e\<rparr>"

definition redis_field :: "(string, string) dict \<Rightarrow> string \<Rightarrow> string result" where
  "redis_field data k = (case dict_get data k of None \<Rightarrow> Inl KeyError | Some v \<Rightarrow> Inr v)"

definition from_redis ::
  "(string \<Rightarrow> pyfloat result) \<Rightarrow> string \<Rightarrow> (string, string) dict \<Rightarrow> snapshot_data result" where
  "from_redis fparse sy data =
     bindE (bindE (redis_field data ''bid'') fparse) (\<lambda>b.
     bindE (bindE (redis_field data ''ask'') fparse) (\<lambda>a.
     bindE (bindE (redis_field data ''bid_size'') int_of_str) (\<lambda>bs.
     bindE (bindE (redis_field data ''ask_size'') int_of_str) (\<lambda>as.
     bindE (bindE (redis_field data ''seq'') int_of_str) (\<lambda>sq.
     bindE (bindE (redis_field data ''ts'') int_of_str) (\<lambda>ts.
       Inr \<lparr>sn_symbol = sy, sn_bid = b, sn_ask = a, sn_bid_size = bs,
            sn_ask_size = as, sn_seq = sq, sn_ts = ts\<rparr>))))))"

section \<open>Parsing an event\<close>

text \<open>
  The parsers build the event inside \<open>try ... except Exception: return None\<close>, so every
  exception is \<^term>\<open>Rejected\<close>. They do not check that \<open>symbol\<close> is a string: a
  decoded object whose \<open>symbol\<close> is any other JSON value becomes a \<open>MarketEvent\<close>
  all the same. Such an event does not fit the record and is kept apart as
  \<open>BadSymbol\<close>, with the value it carries.
\<close>

datatype 'e parse_outcome = Rejected | Parsed 'e | BadSymbol json

definition json_field :: "json \<Rightarrow> string \<Rightarrow> (json \<Rightarrow> 'a result) \<Rightarrow> 'a option" where
  "json_field d k conv = opt_of (bindE (json_item d k) conv)"

definition parse_fields ::
  "(string \<Rightarrow> pyfloat result) \<Rightarrow> (json \<Rightarrow> int option) \<Rightarrow> json \<Rightarrow> (json \<times> (string \<Rightarrow> market_event)) option"
  where
  "parse_fields fparse server d = do {
     s \<leftarrow> opt_of (json_item d ''symbol'');
     b \<leftarrow> json_field d ''bid'' (json_float fparse);
     a \<leftarrow> json_field d ''ask'' (json_float fparse);
     bs \<leftarrow> json_field d ''bid_size'' json_int;
     az \<leftarrow> json_field d ''ask_size'' json_int;
     ets \<leftarrow> json_field d ''event_ts'' json_int;
     sts \<leftarrow> server d;
     sq \<leftarrow> json_field d ''seq'' json_int;
     ty \<leftarrow> opt_of (bindE (json_get d ''type'' (JStr ''quote'')) event_type_of);
     Some (s, \<lambda>sy. \<lparr>ev_symbol = sy, ev_bid = b, ev_ask = a, ev_bid_size = bs,
        ev_ask_size = az, ev_event_ts = ets, ev_server_ts = sts, ev_seq = sq, ev_type = ty,
        ev_last_price = Fin 0, ev_last_size = 0\<rparr>)
   }"

definition parse_market_event ::
  "(string \<Rightarrow> pyfloat result) \<Rightarrow> (json \<Rightarrow> int option) \<Rightarrow> json result \<Rightarrow> market_event parse_outcome" where
  "parse_market_event fparse server loaded =
     (case opt_of loaded of
        None \<Rightarrow> Rejected
      | Some d \<Rightarrow>
          (case parse_fields fparse server d of
             None \<Rightarrow> Rejected
           | Some (s, mk) \<Rightarrow> (case s of JStr sy \<Rightarrow> Parsed (mk sy) | _ \<Rightarrow> BadSymbol s)))"

section \<open>Facts\<close>

lemma event_type_roundtrip [simp]: "event_type_of (JStr (event_type_value t)) = Inr t"
  by (cases t) (simp_all add: event_type_of_def)

lemma event_type_of_eq: "event_type_of v = Inr t \<longleftrightarrow> v = JStr (event_type_value t)"
  by (cases t) (auto simp: event_type_of_def)

lemma dict_get_event_to_dict [simp]:
  "dict_get (event_to_dict e) ''symbol'' = Some (JStr (ev_symbol e))"
  "dict_get (event_to_dict e) ''bid'' = Some (JFloat (ev_bid e))"
  "dict_get (event_to_dict e) ''ask'' = Some (JFloat (ev_ask e))"
  "dict_get (event_to_dict e) ''bid_size'' = Some (JInt (ev_bid_size e))"
  "dict_get (event_to_dict e) ''ask_size'' = Some (JInt (ev_ask_size e))"
  "dict_get (event_to_dict e) ''event_ts'' = Some (JInt (ev_event_ts e))"
  "dict_get (event_to_dict e) ''server_ts'' = Some (JInt (ev_server_ts e))"
  "dict_get (event_to_dict e) ''seq'' = Some (JInt (ev_seq e))"
  "dict_get (event_to_dict e) ''type'' = Some (JStr (event_type_value (ev_type e)))"
  by (simp_all add: event_to_dict_def dict_get_Cons)

lemma dict_get_snapshot_to_dict [simp]:
  "dict_get (snapshot_to_dict s) ''symbol'' = Some (JStr (sn_symbol s))"
  "dict_get (snapshot_to_dict s) ''seq'' = Some (JInt (sn_seq s))"
  "dict_get (snapshot_to_dict s) ''event_ts'' = None"
  by (simp_all add: snapshot_to_dict_def dict_get_Cons)

text \<open>
  What one hop through a serialised dictionary keeps of an event: everything but the last
  trade, which no parser reads, and the server timestamp, which the parser chooses.
\<close>

definition hop :: "int \<Rightarrow> market_event \<Rightarrow> market_event" where
  "hop ts e = e\<lparr>ev_server_ts := ts, ev_last_price := Fin 0, ev_last_size := 0\<rparr>"

lemma parse_event_to_dict:
  assumes "server (JObj (event_to_dict e)) = Some ts"
  shows "parse_market_event fparse server (Inr (JObj (event_to_dict e))) = Parsed (hop ts e)"
  using assms
  by (simp add: parse_market_event_def parse_fields_def json_field_def hop_def)

lemma parse_market_event_not_object:
  "\<forall>kvs. d \<noteq> JObj kvs \<Longrightarrow> parse_market_event fparse server (Inr d) = Rejected"
  by (cases d) (simp_all add: parse_market_event_def parse_fields_def)

lemma from_redis_symbol: "from_redis fparse sy data = Inr s \<Longrightarrow> sn_symbol s = sy"
  by (auto simp: from_redis_def bindE_eq_Inr)

text \<open>A concrete quote, for evaluating the theorems.\<close>

definition sample_event :: "string \<Rightarrow> int \<Rightarrow> market_event" where
  "sample_event s n =
     \<lparr>ev_symbol = s, ev_bid = Fin 10, ev_ask = Fin 11, ev_bid_size = 1, ev_ask_size = 1,
      ev_event_ts = 1000 + n, ev_server_ts = 1000 + n, ev_seq = n, ev_type = QUOTE,
      ev_last_price = Fin 0, ev_last_size = 0\<rparr>"

lemma sample_event_simps [simp]:
  "ev_symbol (sample_event s n) = s"
  "ev_seq (sample_event s n) = n"
  "ev_bid (sample_event s n) = Fin 10"
  "ev_ask (sample_event s n) = Fin 11"
  by (simp_all add: sample_event_def)

end
