(* ===== verification/Bounded_Queue.thy ===== *)
theory Bounded_Queue
  imports Prelude
begin

text \<open>
  \<open>asyncio.Queue(maxsize)\<close> as the platform uses it: \<open>put_nowait\<close> raises
  \<open>QueueFull\<close> (\<^const>\<open>None\<close>), \<open>get_nowait\<close> raises \<open>QueueEmpty\<close>, and the
  awaiting \<open>get\<close> takes the head once there is one. The interface
  \<open>bounded_queue\<close> states what its clients rely on; the two of them that discard the
  oldest element when the queue is full (\<open>AggregationBuffer._put_latest\<close> and
  \<open>ClientSession.enqueue\<close>) share the lemmas proved inside it.
\<close>

record 'a bqueue =
  q_items :: "'a list"
  q_max :: nat

definition new_queue :: "nat \<Rightarrow> 'a bqueue" where
  "new_queue n = \<lparr>q_items = [], q_max = n\<rparr>"

definition queue_full :: "'a bqueue \<Rightarrow> bool" where
  \<comment> \<open>a \<open>maxsize\<close> of 0 means unbounded\<close>
  "queue_full q \<longleftrightarrow> 0 < q_max q \<and> q_max q \<le> length (q_items q)"

definition put_nowait :: "'a \<Rightarrow> 'a bqueue \<Rightarrow> 'a bqueue option" where
  "put_nowait x q = (if queue_full q then None else Some (q\<lparr>q_items := q_items q @ [x]\<rparr>))"

definition get_nowait :: "'a bqueue \<Rightarrow> ('a \<times> 'a bqueue) option" where
  "get_nowait q =
     (case q_items q of [] \<Rightarrow> None | x # xs \<Rightarrow> Some (x, q\<lparr>q_items := xs\<rparr>))"

locale bounded_queue =
  fixes put :: "'a \<Rightarrow> 'q \<Rightarrow> 'q option"
    and get :: "'q \<Rightarrow> ('a \<times> 'q) option"
    and items :: "'q \<Rightarrow> 'a list"
    and cap :: "'q \<Rightarrow> nat"
  assumes put_room: "length (items q) < cap q \<Longrightarrow>
      \<exists>q'. put x q = Some q' \<and> items q' = items q @ [x] \<and> cap q' = cap q"
    and put_full: "0 < cap q \<Longrightarrow> cap q \<le> length (items q) \<Longrightarrow> put x q = None"
    and get_empty: "items q = [] \<Longrightarrow> get q = None"
    and get_head: "items q = x # xs \<Longrightarrow>
      \<exists>q'. get q = Some (x, q') \<and> items q' = xs \<and> cap q' = cap q"
begin

text \<open>Where the queue is full, taking the head makes room for one element.\<close>

lemma drop_oldest:
  assumes "0 < cap q" "length (items q) = cap q"
  shows "\<exists>y q1 q2. get q = Some (y, q1) \<and> y = hd (items q) \<and> put x q1 = Some q2 \<and>
    items q2 = tl (items q) @ [x] \<and> cap q2 = cap q"
proof -
  from assms obtain y ys where i: "items q = y # ys" by (cases "items q") auto
  from get_head [OF this] obtain q1 where
    g: "get q = Some (y, q1)" "items q1 = ys" "cap q1 = cap q" by blast
  with i assms have "length (items q1) < cap q1" by simp
  from put_room [OF this] obtain q2 where
    "put x q1 = Some q2" "items q2 = items q1 @ [x]" "cap q2 = cap q1" by blast
  with g i show ?thesis by simp
qed

lemma put_within: "put x q = Some q' \<Longrightarrow> 0 < cap q \<Longrightarrow> length (items q) \<le> cap q \<Longrightarrow>
    items q' = items q @ [x] \<and> cap q' = cap q \<and> length (items q') \<le> cap q'"
  using put_room [of q x] put_full [of q x] by (cases "length (items q) < cap q") force+

lemma put_None_iff: "0 < cap q \<Longrightarrow> put x q = None \<longleftrightarrow> cap q \<le> length (items q)"
  using put_room [of q x] put_full [of q x] by (metis leI option.distinct(1))

end

interpretation bq: bounded_queue put_nowait get_nowait q_items q_max
  by unfold_locales (auto simp: put_nowait_def get_nowait_def queue_full_def)

definition wf_queue :: "nat \<Rightarrow> 'a bqueue \<Rightarrow> bool" where
  "wf_queue n q \<longleftrightarrow> q_max q = n \<and> length (q_items q) \<le> n"

lemma wf_queue_new [simp]: "wf_queue n (new_queue n)"
  by (simp add: wf_queue_def new_queue_def)

lemma q_items_new [simp]: "q_items (new_queue n) = []"
  by (simp add: new_queue_def)

lemma get_nowait_None_iff: "get_nowait q = None \<longleftrightarrow> q_items q = []"
  by (simp add: get_nowait_def split: list.split)

lemma get_nowait_Some: "get_nowait q = Some (x, q') \<Longrightarrow> q_items q = x # q_items q' \<and> q_max q' = q_max q"
  by (auto simp: get_nowait_def split: list.splits)

lemma wf_queue_get: "wf_queue n q \<Longrightarrow> get_nowait q = Some (x, q') \<Longrightarrow> wf_queue n q'"
  using get_nowait_Some [of q x q'] by (auto simp: wf_queue_def)

end
