(* ===== verification/Aggregator.thy ===== *)
theory Aggregator
  imports Models Bounded_Queue
begin

text \<open>
  \<open>src/gateway/aggregator.py\<close>: the per-client \<open>AggregationBuffer\<close>. In RAW mode a
  pushed event goes to the bounded output queue; in AGG_100MS mode it replaces the
  symbol's event in an insertion-ordered buffer that the flush task empties into the queue
  every interval. A full queue loses its oldest event. The specification is
  \<^const>\<open>keep_last\<close> over what was emitted, and, for a window, the latest event of each
  symbol in the order in which the symbols first occurred.
\<close>

datatype aggregation_mode = RAW | AGG_100MS

definition OUTPUT_MAX_SIZE :: nat where
  "OUTPUT_MAX_SIZE = 1000"

record aggregation_buffer =
  ag_mode :: aggregation_mode
  ag_interval_ms :: nat
  ag_buffer :: "(string, market_event) dict"
  ag_output :: "market_event bqueue"
  ag_flush_task :: bool

definition new_aggregation_buffer :: "aggregation_mode \<Rightarrow> nat \<Rightarrow> aggregation_buffer" where
  "new_aggregation_buffer mode interval =
     \<lparr>ag_mode = mode, ag_interval_ms = interval, ag_buffer = [],
      ag_output = new_queue OUTPUT_MAX_SIZE, ag_flush_task = False\<rparr>"

text \<open>
  \<open>_put_latest\<close>. The last branch is the \<open>QueueFull\<close> of the second
  \<open>put_nowait\<close>; \<open>put_latest_room\<close> below shows that it is never taken.
\<close>

definition put_latest :: "'a \<Rightarrow> 'a bqueue \<Rightarrow> 'a bqueue" where
  "put_latest e q =
     (case put_nowait e q of
        Some q' \<Rightarrow> q'
      | None \<Rightarrow>
          (let q1 = (case get_nowait q of Some (_, q1) \<Rightarrow> q1 | None \<Rightarrow> q)
           in case put_nowait e q1 of Some q2 \<Rightarrow> q2 | None \<Rightarrow> q1))"

definition push :: "market_event \<Rightarrow> aggregation_buffer \<Rightarrow> aggregation_buffer" where
  "push e ag =
     (if ag_mode ag = RAW then ag\<lparr>ag_output := put_latest e (ag_output ag)\<rparr>
      else ag\<lparr>ag_buffer := dict_set (ev_symbol e) e (ag_buffer ag)\<rparr>)"

definition flush_window :: "aggregation_buffer \<Rightarrow> aggregation_buffer" where
  \<comment> \<open>one wake-up of \<open>_flush_loop\<close>\<close>
  "flush_window ag =
     (if ag_buffer ag \<noteq> [] then
        ag\<lparr>ag_output := fold put_latest (dict_values (ag_buffer ag)) (ag_output ag),
           ag_buffer := []\<rparr>
      else ag)"

definition start_aggregator :: "aggregation_buffer \<Rightarrow> aggregation_buffer" where
  "start_aggregator ag =
     (if ag_mode ag \<noteq> RAW then ag\<lparr>ag_flush_task := True\<rparr> else ag)"

definition stop_aggregator :: "aggregation_buffer \<Rightarrow> aggregation_buffer" where
  "stop_aggregator ag =
     (if ag_flush_task ag then ag\<lparr>ag_flush_task := False\<rparr> else ag)"

definition next_event :: "aggregation_buffer \<Rightarrow> (market_event \<times> aggregation_buffer) option" where
  \<comment> \<open>one turn of \<open>events()\<close>; \<^const>\<open>None\<close> while the queue is empty\<close>
  "next_event ag =
     (case get_nowait (ag_output ag) of
        None \<Rightarrow> None
      | Some (e, q) \<Rightarrow> Some (e, ag\<lparr>ag_output := q\<rparr>))"

section \<open>The output queue\<close>

lemma put_latest_room:
  assumes "wf_queue n q" "0 < n" "put_nowait e q = None" "get_nowait q = Some (x, q1)"
  shows "put_nowait e q1 \<noteq> None"
proof -
  from assms have "0 < q_max q" "length (q_items q) = q_max q"
    using bq.put_None_iff [of q e] by (auto simp: wf_queue_def)
  from bq.drop_oldest [OF this] assms(4) show ?thesis by auto
qed

lemma put_latest_items:
  assumes "wf_queue n q" "0 < n"
  shows "q_items (put_latest e q) = keep_last n (q_items q @ [e]) \<and> wf_queue n (put_latest e q)"
proof (cases "length (q_items q) < n")
  case True
  with assms bq.put_room [of q e] show ?thesis
    by (auto simp: put_latest_def wf_queue_def)
next
  case False
  with assms have f: "0 < q_max q" "length (q_items q) = q_max q" "q_max q = n"
    by (auto simp: wf_queue_def)
  from bq.drop_oldest [OF f(1,2)] obtain y q1 q2 where
    "get_nowait q = Some (y, q1)" "put_nowait e q1 = Some q2"
    "q_items q2 = tl (q_items q) @ [e]" "q_max q2 = q_max q" by blast
  moreover have "put_nowait e q = None" using f by (intro bq.put_full) auto
  moreover have "tl (q_items q) @ [e] = keep_last n (q_items q @ [e])"
    using f assms(2) by (simp add: keep_last_tl)
  ultimately show ?thesis using f by (auto simp: put_latest_def wf_queue_def)
qed

lemmas put_latest_wf = put_latest_items [THEN conjunct2]

lemma fold_put_latest:
  assumes "wf_queue n q" "0 < n"
  shows "q_items (fold put_latest es q) = keep_last n (q_items q @ es) \<and>
    wf_queue n (fold put_latest es q)"
  using assms(1)
proof (induction es arbitrary: q)
  case Nil
  then show ?case by (simp add: wf_queue_def)
next
  case (Cons e es)
  from put_latest_items [OF Cons.prems assms(2)]
  have i: "q_items (put_latest e q) = keep_last n (q_items q @ [e])"
    and w: "wf_queue n (put_latest e q)" by auto
  from Cons.IH [OF w] i keep_last_append [of n "q_items q @ [e]" es] show ?case by simp
qed

section \<open>The window buffer\<close>

definition first_seen :: "market_event list \<Rightarrow> string list" where
  "first_seen es = rev (remdups (rev (map ev_symbol es)))"

definition latest_per_symbol :: "market_event list \<Rightarrow> market_event list" where
  \<comment> \<open>what a window should emit\<close>
  "latest_per_symbol es =
     map (\<lambda>s. last (filter (\<lambda>e. ev_symbol e = s) es)) (first_seen es)"

definition wf_aggregator :: "aggregation_buffer \<Rightarrow> bool" where
  "wf_aggregator ag \<longleftrightarrow>
     wf_queue OUTPUT_MAX_SIZE (ag_output ag) \<and> wf_dict (ag_buffer ag) \<and>
     (\<forall>(s, e) \<in> set (ag_buffer ag). ev_symbol e = s) \<and>
     (ag_mode ag = RAW \<longrightarrow> ag_buffer ag = [] \<and> \<not> ag_flush_task ag)"

lemma first_seen_snoc:
  "first_seen (es @ [e]) =
     (if ev_symbol e \<in> set (first_seen es) then first_seen es
      else first_seen es @ [ev_symbol e])"
  by (simp add: first_seen_def)

lemma set_first_seen [simp]: "set (first_seen es) = ev_symbol ` set es"
  by (simp add: first_seen_def)

lemma distinct_first_seen [simp]: "distinct (first_seen es)"
  by (simp add: first_seen_def)

definition window_dict :: "market_event list \<Rightarrow> (string, market_event) dict" where
  "window_dict es =
     map (\<lambda>s. (s, last (filter (\<lambda>e. ev_symbol e = s) es))) (first_seen es)"

lemma window_dict_values: "dict_values (window_dict es) = latest_per_symbol es"
  by (simp add: window_dict_def latest_per_symbol_def dict_values_def)

lemma dict_set_map:
  "distinct ks \<Longrightarrow> dict_set k v (map (\<lambda>s. (s, f s)) ks) =
     (if k \<in> set ks then map (\<lambda>s. (s, (f(k := v)) s)) ks
      else map (\<lambda>s. (s, f s)) ks @ [(k, v)])"
  by (induction ks) (auto simp: dict_set_def)

lemma window_dict_snoc:
  "window_dict (es @ [e]) = dict_set (ev_symbol e) e (window_dict es)"
proof -
  let ?f = "\<lambda>s. last (filter (\<lambda>e. ev_symbol e = s) es)"
  have "map (\<lambda>s. (s, last (filter (\<lambda>e. ev_symbol e = s) (es @ [e])))) (first_seen es)
      = map (\<lambda>s. (s, (?f(ev_symbol e := e)) s)) (first_seen es)"
    by (intro map_cong) auto
  moreover have "ev_symbol e \<notin> set (first_seen es) \<Longrightarrow>
      filter (\<lambda>e'. ev_symbol e' = ev_symbol e) es = []"
    by (simp add: filter_empty_conv) (metis imageI)
  moreover have "ev_symbol e \<notin> set (first_seen es) \<Longrightarrow>
      map (\<lambda>s. (s, (?f(ev_symbol e := e)) s)) (first_seen es) = map (\<lambda>s. (s, ?f s)) (first_seen es)"
    by (intro map_cong) (auto simp del: set_first_seen)
  ultimately show ?thesis
    by (simp add: window_dict_def first_seen_snoc dict_set_map del: set_first_seen)
qed

lemma fold_dict_set_window:
  "fold (\<lambda>e. dict_set (ev_symbol e) e) es [] = window_dict es"
proof (induction es rule: rev_induct)
  case Nil
  then show ?case by (simp add: window_dict_def first_seen_def)
next
  case (snoc e es)
  then show ?case by (simp add: window_dict_snoc)
qed

section \<open>Invariant\<close>

lemma wf_new_aggregation_buffer [simp]: "wf_aggregator (new_aggregation_buffer m i)"
  by (simp add: wf_aggregator_def new_aggregation_buffer_def)

lemma new_aggregation_buffer_simps [simp]:
  "ag_mode (new_aggregation_buffer m i) = m"
  "ag_buffer (new_aggregation_buffer m i) = []"
  "ag_output (new_aggregation_buffer m i) = new_queue OUTPUT_MAX_SIZE"
  by (simp_all add: new_aggregation_buffer_def)

lemma dict_set_entries:
  "\<forall>(s, e) \<in> set d. ev_symbol e = s \<Longrightarrow>
   \<forall>(s, e') \<in> set (dict_set (ev_symbol e) e d). ev_symbol e' = s"
  by (induction d) (auto simp: dict_set_def)

lemma wf_push: "wf_aggregator ag \<Longrightarrow> wf_aggregator (push e ag)"
  using put_latest_items [of OUTPUT_MAX_SIZE "ag_output ag" e] dict_set_entries [of "ag_buffer ag" e]
  by (auto simp: wf_aggregator_def push_def OUTPUT_MAX_SIZE_def)

lemma wf_flush_window: "wf_aggregator ag \<Longrightarrow> wf_aggregator (flush_window ag)"
  using fold_put_latest [of OUTPUT_MAX_SIZE "ag_output ag" "dict_values (ag_buffer ag)"]
  by (auto simp: wf_aggregator_def flush_window_def OUTPUT_MAX_SIZE_def)

lemma wf_start_stop:
  "wf_aggregator ag \<Longrightarrow> wf_aggregator (start_aggregator ag)"
  "wf_aggregator ag \<Longrightarrow> wf_aggregator (stop_aggregator ag)"
  by (auto simp: wf_aggregator_def start_aggregator_def stop_aggregator_def)

lemma wf_next_event: "wf_aggregator ag \<Longrightarrow> next_event ag = Some (e, ag') \<Longrightarrow> wf_aggregator ag'"
  using wf_queue_get [of OUTPUT_MAX_SIZE "ag_output ag" e]
  by (auto simp: wf_aggregator_def next_event_def split: option.splits)

section \<open>What the buffer emits\<close>

lemma push_mode [simp]: "ag_mode (push e ag) = ag_mode ag"
  by (simp add: push_def)

lemma fold_push_mode [simp]: "ag_mode (fold push es ag) = ag_mode ag"
  by (induction es arbitrary: ag) auto

lemma wf_fold_push: "wf_aggregator ag \<Longrightarrow> wf_aggregator (fold push es ag)"
  by (induction es arbitrary: ag) (auto intro: wf_push)

lemma fold_push_raw:
  "ag_mode ag = RAW \<Longrightarrow>
   fold push es ag = ag\<lparr>ag_output := fold put_latest es (ag_output ag)\<rparr>"
  by (induction es arbitrary: ag) (auto simp: push_def)

lemma fold_push_agg:
  "ag_mode ag \<noteq> RAW \<Longrightarrow>
   fold push es ag = ag\<lparr>ag_buffer := fold (\<lambda>e. dict_set (ev_symbol e) e) es (ag_buffer ag)\<rparr>"
  by (induction es arbitrary: ag) (auto simp: push_def)

text \<open>
  RAW mode loses nothing but the oldest events beyond the queue's bound: whatever is
  pushed, in order, is what the output queue holds, cut to its newest 1000.
\<close>

theorem raw_mode_keeps_every_tick:
  assumes "wf_aggregator ag" "ag_mode ag = RAW"
  shows "q_items (ag_output (fold push es ag)) = keep_last 1000 (q_items (ag_output ag) @ es)"
proof -
  from assms(1) have "wf_queue OUTPUT_MAX_SIZE (ag_output ag)" by (simp add: wf_aggregator_def)
  from fold_put_latest [OF this, of es] assms(2) show ?thesis
    by (simp add: fold_push_raw OUTPUT_MAX_SIZE_def)
qed

text \<open>
  C17. AGG_100MS mode coalesces: the window that collects the pushes \<open>es\<close> and is then
  flushed emits the latest event of each symbol once, in the order in which the symbols
  first occurred, behind what the output queue already held, and leaves the buffer empty.
\<close>

theorem window_emits_latest_per_symbol:
  assumes "wf_aggregator ag" "ag_mode ag = AGG_100MS" "ag_buffer ag = []"
  shows "q_items (ag_output (flush_window (fold push es ag))) =
      keep_last 1000 (q_items (ag_output ag) @ latest_per_symbol es)
    \<and> ag_buffer (flush_window (fold push es ag)) = []"
proof -
  from assms(1) have w: "wf_queue OUTPUT_MAX_SIZE (ag_output ag)" by (simp add: wf_aggregator_def)
  have b: "ag_buffer (fold push es ag) = window_dict es"
    using assms(2,3) by (simp add: fold_push_agg fold_dict_set_window)
  have o: "ag_output (fold push es ag) = ag_output ag"
    using assms(2) by (simp add: fold_push_agg)
  show ?thesis
  proof (cases "es = []")
    case True
    with w assms(3) show ?thesis
      by (simp add: flush_window_def latest_per_symbol_def first_seen_def wf_queue_def
        OUTPUT_MAX_SIZE_def)
  next
    case False
    then have "window_dict es \<noteq> []"
      by (simp add: window_dict_def) (metis set_empty image_is_empty set_first_seen)
    with fold_put_latest [OF w, of "latest_per_symbol es"] show ?thesis
      by (simp add: flush_window_def b o window_dict_values OUTPUT_MAX_SIZE_def)
  qed
qed

theorem raw_mode_keeps_every_tick_witness:
  "q_items (ag_output (fold push [sample_event ''A'' 1, sample_event ''A'' 2]
      (new_aggregation_buffer RAW 100))) = [sample_event ''A'' 1, sample_event ''A'' 2]"
  using raw_mode_keeps_every_tick [of "new_aggregation_buffer RAW 100"
      "[sample_event ''A'' 1, sample_event ''A'' 2]"]
  by simp

theorem window_emits_latest_per_symbol_witness:
  "q_items (ag_output (flush_window (fold push
      [sample_event ''A'' 1, sample_event ''B'' 7, sample_event ''A'' 2]
      (new_aggregation_buffer AGG_100MS 100)))) = [sample_event ''A'' 2, sample_event ''B'' 7]"
  using window_emits_latest_per_symbol [of "new_aggregation_buffer AGG_100MS 100"
      "[sample_event ''A'' 1, sample_event ''B'' 7, sample_event ''A'' 2]"]
  by (simp add: latest_per_symbol_def first_seen_def)

end
