(* ===== verification/Session.thy ===== *)
theory Session
  imports Aggregator
begin

text \<open>
  \<open>src/gateway/session.py\<close>: one connected client. The session owns the bounded
  outbound queue with its slow-consumer policy, the per-symbol sequence boundary
  (\<open>last_seq\<close>), the per-symbol filters with the last delivered price, the writer loop
  that drains the queue to the WebSocket, and the rolling latency window. The clock, the
  outcome of a WebSocket send and the two encoders are arguments.
\<close>

type_synonym message = "(string, json) dict"

definition QUEUE_MAX_SIZE :: nat where
  "QUEUE_MAX_SIZE = 500"

definition SLOW_CLIENT_DROP_LIMIT :: nat where
  "SLOW_CLIENT_DROP_LIMIT = 100"

definition PERCENT_EPSILON :: pyfloat where
  "PERCENT_EPSILON = fl (1 / 10 ^ 9)"

datatype slow_consumer_policy = DROP_OLDEST | DISCONNECT

datatype encoding = JSON | MSGPACK

datatype sequence_decision = NEXT | GAP | STALE

record subscription_filter =
  min_change_pct :: "pyfloat option"
  max_spread :: "pyfloat option"

section \<open>LatencyTracker\<close>

record latency_tracker =
  lt_samples :: "pyfloat list"
  lt_max_samples :: nat

definition new_latency_tracker :: latency_tracker where
  "new_latency_tracker = \<lparr>lt_samples = [], lt_max_samples = 1000\<rparr>"

text \<open>
  \<open>record\<close>: the subtraction converts the message's \<open>event_ts\<close> to a float, which
  raises for an integer beyond the float range and for a value that is no number.
\<close>

definition latency_record :: "pyfloat \<Rightarrow> json \<Rightarrow> latency_tracker \<Rightarrow> latency_tracker result" where
  "latency_record time event_ts lt =
     bindE (json_float (\<lambda>_. Inl TypeError) event_ts) (\<lambda>ts.
       let samples = lt_samples lt @ [f_sub (f_mul time (Fin 1000)) ts]
       in Inr (lt\<lparr>lt_samples :=
            (if lt_max_samples lt < length samples then tl samples else samples)\<rparr>))"

definition percentile_index :: "nat \<Rightarrow> int \<Rightarrow> int result" where
  \<comment> \<open>\<open>min(int(n * p / 100), n - 1)\<close>\<close>
  "percentile_index n p =
     bindE (f_int_div (int n * p) 100) (\<lambda>x.
     bindE (f_int x) (\<lambda>i. Inr (min i (int n - 1))))"

definition percentile :: "latency_tracker \<Rightarrow> int \<Rightarrow> pyfloat result" where
  "percentile lt p =
     (if lt_samples lt = [] then Inr (Fin 0)
      else let sorted_samples = sort (lt_samples lt)
           in bindE (percentile_index (length sorted_samples) p) (\<lambda>idx.
              bindE (py_index sorted_samples idx) (\<lambda>x. Inr (f_round 2 x))))"

definition p50 :: "latency_tracker \<Rightarrow> pyfloat result" where
  "p50 lt = percentile lt 50"

definition p99 :: "latency_tracker \<Rightarrow> pyfloat result" where
  "p99 lt = percentile lt 99"

definition sample_count :: "latency_tracker \<Rightarrow> nat" where
  "sample_count lt = length (lt_samples lt)"

section \<open>ClientStats and ClientSession\<close>

record client_stats =
  st_sent :: nat
  st_dropped :: nat
  st_gaps_detected :: nat
  st_connected_at :: pyfloat
  st_latency :: latency_tracker

definition new_client_stats :: "pyfloat \<Rightarrow> client_stats" where
  "new_client_stats now =
     \<lparr>st_sent = 0, st_dropped = 0, st_gaps_detected = 0, st_connected_at = now,
      st_latency = new_latency_tracker\<rparr>"

definition uptime_sec :: "pyfloat \<Rightarrow> client_stats \<Rightarrow> pyfloat" where
  "uptime_sec now st = f_sub now (st_connected_at st)"

record client_session =
  cs_client_id :: string
  cs_policy :: slow_consumer_policy
  cs_encoding :: encoding
  cs_subscriptions :: "string set"
  cs_stats :: client_stats
  cs_last_seq :: "string \<rightharpoonup> int"
  cs_filters :: "string \<rightharpoonup> subscription_filter"
  cs_last_price :: "string \<rightharpoonup> pyfloat"
  cs_aggregator :: "aggregation_buffer option"
  cs_queue :: "message bqueue"
  cs_writer_task :: bool
  cs_disconnected :: bool
  cs_ws_closed :: bool

definition new_session ::
  "string \<Rightarrow> slow_consumer_policy \<Rightarrow> encoding \<Rightarrow> pyfloat \<Rightarrow> client_session" where
  "new_session cid policy enc now =
     \<lparr>cs_client_id = cid, cs_policy = policy, cs_encoding = enc, cs_subscriptions = {},
      cs_stats = new_client_stats now, cs_last_seq = Map.empty, cs_filters = Map.empty,
      cs_last_price = Map.empty, cs_aggregator = None,
      cs_queue = new_queue QUEUE_MAX_SIZE, cs_writer_task = False, cs_disconnected = False,
      cs_ws_closed = False\<rparr>"

definition bump_gaps :: "client_session \<Rightarrow> client_session" where
  "bump_gaps s = s\<lparr>cs_stats := (cs_stats s)\<lparr>st_gaps_detected := Suc (st_gaps_detected (cs_stats s))\<rparr>\<rparr>"

definition bump_dropped :: "client_session \<Rightarrow> client_session" where
  "bump_dropped s = s\<lparr>cs_stats := (cs_stats s)\<lparr>st_dropped := Suc (st_dropped (cs_stats s))\<rparr>\<rparr>"

definition bump_sent :: "client_session \<Rightarrow> client_session" where
  "bump_sent s = s\<lparr>cs_stats := (cs_stats s)\<lparr>st_sent := Suc (st_sent (cs_stats s))\<rparr>\<rparr>"

definition set_last_seq :: "string \<Rightarrow> int \<Rightarrow> client_session \<Rightarrow> client_session" where
  "set_last_seq sy n s = s\<lparr>cs_last_seq := (cs_last_seq s)(sy \<mapsto> n)\<rparr>"

definition set_last_price :: "string \<Rightarrow> pyfloat \<Rightarrow> client_session \<Rightarrow> client_session" where
  "set_last_price sy x s = s\<lparr>cs_last_price := (cs_last_price s)(sy \<mapsto> x)\<rparr>"

section \<open>Sequence classification\<close>

definition classify_sequence ::
  "string \<Rightarrow> int \<Rightarrow> bool \<Rightarrow> client_session \<Rightarrow> sequence_decision \<times> client_session" where
  "classify_sequence sy sq detect_gap s =
     (case cs_last_seq s sy of
        None \<Rightarrow> (NEXT, set_last_seq sy sq s)
      | Some lst \<Rightarrow>
          (if sq \<le> lst then (STALE, s)
           else if detect_gap \<and> sq \<noteq> lst + 1 then (GAP, bump_gaps s)
           else (NEXT, set_last_seq sy sq s)))"

section \<open>Filters\<close>

definition should_deliver :: "market_event \<Rightarrow> client_session \<Rightarrow> bool result" where
  "should_deliver e s =
     (case cs_filters s (ev_symbol e) of
        None \<Rightarrow> Inr True
      | Some flt \<Rightarrow>
          (if (case max_spread flt of
                 None \<Rightarrow> False
               | Some m \<Rightarrow> f_lt m (f_sub (ev_ask e) (ev_bid e)))
           then Inr False
           else (case min_change_pct flt of
                   None \<Rightarrow> Inr True
                 | Some pct \<Rightarrow>
                     (case cs_last_price s (ev_symbol e) of
                        None \<Rightarrow> Inr True
                      | Some lst \<Rightarrow>
                          (if f_eq lst (Fin 0) then Inr True
                           else bindE (f_div (f_sub (ev_bid e) lst) lst) (\<lambda>q.
                             Inr (\<not> f_lt (f_add (f_mul (f_abs q) (Fin 100)) PERCENT_EPSILON) pct)))))))"

definition mark_delivered :: "market_event \<Rightarrow> client_session \<Rightarrow> client_session" where
  "mark_delivered e s = set_last_price (ev_symbol e) (ev_bid e) s"

section \<open>Enqueue\<close>

text \<open>
  The inner \<open>put_nowait\<close> after \<open>get_nowait\<close> cannot find the queue full
  (\<open>enqueue_drop_oldest\<close> below), so the branch for its \<open>QueueFull\<close> is never taken.
\<close>

definition enqueue :: "message \<Rightarrow> client_session \<Rightarrow> bool \<times> client_session" where
  "enqueue m s =
     (case put_nowait m (cs_queue s) of
        Some q \<Rightarrow> (True, s\<lparr>cs_queue := q\<rparr>)
      | None \<Rightarrow>
          (let s1 = bump_dropped s
           in case cs_policy s of
                DROP_OLDEST \<Rightarrow>
                  (case get_nowait (cs_queue s1) of
                     None \<Rightarrow> (False, s1)
                   | Some (_, q1) \<Rightarrow>
                       (case put_nowait m q1 of
                          Some q2 \<Rightarrow> (True, s1\<lparr>cs_queue := q2\<rparr>)
                        | None \<Rightarrow> (False, s1\<lparr>cs_queue := q1\<rparr>)))
              | DISCONNECT \<Rightarrow>
                  (False, if SLOW_CLIENT_DROP_LIMIT \<le> st_dropped (cs_stats s1)
                          then s1\<lparr>cs_disconnected := True\<rparr> else s1)))"

section \<open>Writer loop\<close>

datatype 'b frame = TextFrame string | BytesFrame 'b

datatype send_outcome = SendOk | SendFails

definition encode_frame ::
  "(message \<Rightarrow> string) \<Rightarrow> (message \<Rightarrow> 'b) \<Rightarrow> encoding \<Rightarrow> message \<Rightarrow> 'b frame" where
  "encode_frame dumps packb enc m =
     (if enc = MSGPACK then BytesFrame (packb m) else TextFrame (dumps m))"

fun json_truthy :: "json \<Rightarrow> bool" where
  "json_truthy JNull = False"
| "json_truthy (JBool b) = b"
| "json_truthy (JInt n) = (n \<noteq> 0)"
| "json_truthy (JFloat x) = (x \<noteq> Fin 0)"
| "json_truthy (JStr s) = (s \<noteq> [])"
| "json_truthy (JList xs) = (xs \<noteq> [])"
| "json_truthy (JObj kvs) = (kvs \<noteq> [])"

definition record_latency :: "pyfloat \<Rightarrow> message \<Rightarrow> client_session \<Rightarrow> client_session" where
  "record_latency time m s =
     (case dict_get m ''event_ts'' of
        None \<Rightarrow> s
      | Some v \<Rightarrow>
          (if json_truthy v then
             (case latency_record time v (st_latency (cs_stats s)) of
                Inl _ \<Rightarrow> s\<lparr>cs_disconnected := True\<rparr>
              | Inr lt \<Rightarrow> s\<lparr>cs_stats := (cs_stats s)\<lparr>st_latency := lt\<rparr>\<rparr>)
           else s))"

text \<open>
  One turn of \<open>_writer_loop\<close>: the loop condition, the wait for a message (which times
  out on an empty queue), the send and the accounting. The message that was sent, if any,
  comes first; its frame is \<^term>\<open>encode_frame\<close> of it.
\<close>

definition writer_turn ::
  "send_outcome \<Rightarrow> pyfloat \<Rightarrow> client_session \<Rightarrow> message option \<times> client_session" where
  "writer_turn outcome time s =
     (if cs_disconnected s then (None, s)
      else case get_nowait (cs_queue s) of
        None \<Rightarrow> (None, s)
      | Some (m, q) \<Rightarrow>
          (let s1 = s\<lparr>cs_queue := q\<rparr>
           in case outcome of
                SendFails \<Rightarrow> (None, s1\<lparr>cs_disconnected := True\<rparr>)
              | SendOk \<Rightarrow> (Some m, record_latency time m (bump_sent s1))))"

definition start_writer :: "client_session \<Rightarrow> client_session" where
  "start_writer s = s\<lparr>cs_writer_task := True\<rparr>"

definition close_session :: "client_session \<Rightarrow> client_session" where
  "close_session s = s\<lparr>cs_disconnected := True, cs_writer_task := False, cs_ws_closed := True\<rparr>"

section \<open>Stats\<close>

fun mode_value :: "aggregation_mode \<Rightarrow> string" where
  "mode_value RAW = ''raw''"
| "mode_value AGG_100MS = ''agg_100ms''"

definition stats_dict ::
  "(string set \<Rightarrow> string list) \<Rightarrow> pyfloat \<Rightarrow> client_session \<Rightarrow> (string, json) dict result" where
  \<comment> \<open>the first argument lists a set in the interpreter's iteration order\<close>
  "stats_dict listing now s =
     bindE (p50 (st_latency (cs_stats s))) (\<lambda>a.
     bindE (p99 (st_latency (cs_stats s))) (\<lambda>b. Inr
       [(''sent'', JInt (int (st_sent (cs_stats s)))),
        (''dropped'', JInt (int (st_dropped (cs_stats s)))),
        (''gaps_detected'', JInt (int (st_gaps_detected (cs_stats s)))),
        (''uptime_sec'', JFloat (f_round 1 (uptime_sec now (cs_stats s)))),
        (''subscriptions'', JList (map JStr (listing (cs_subscriptions s)))),
        (''queue_size'', JInt (int (length (q_items (cs_queue s))))),
        (''aggregation_mode'', JStr (case cs_aggregator s of
            Some ag \<Rightarrow> mode_value (ag_mode ag) | None \<Rightarrow> ''unknown'')),
        (''latency_ms'', JObj
          [(''p50'', JFloat a), (''p99'', JFloat b),
           (''samples'', JInt (int (sample_count (st_latency (cs_stats s)))))])]))"

section \<open>Latency window and percentiles\<close>

definition wf_latency :: "latency_tracker \<Rightarrow> bool" where
  "wf_latency lt \<longleftrightarrow> lt_max_samples lt = 1000 \<and> length (lt_samples lt) \<le> 1000"

lemma wf_new_latency_tracker [simp]: "wf_latency new_latency_tracker"
  by (simp add: wf_latency_def new_latency_tracker_def)

lemma latency_record_window:
  assumes "wf_latency lt" "latency_record time ts lt = Inr lt'"
  shows "\<exists>x. lt_samples lt' = keep_last 1000 (lt_samples lt @ [x]) \<and> wf_latency lt'"
proof -
  from assms(2) obtain t where
    l: "lt' = lt\<lparr>lt_samples := (let samples = lt_samples lt @ [f_sub (f_mul time (Fin 1000)) t]
      in if lt_max_samples lt < length samples then tl samples else samples)\<rparr>"
    by (auto simp: latency_record_def bindE_eq_Inr Let_def)
  let ?x = "f_sub (f_mul time (Fin 1000)) t"
  have "tl (lt_samples lt @ [?x]) = keep_last 1000 (lt_samples lt @ [?x])"
    if "length (lt_samples lt) = 1000"
    using that keep_last_tl [of "lt_samples lt" 1000 ?x] by (cases "lt_samples lt") auto
  then have "lt_samples lt' = keep_last 1000 (lt_samples lt @ [?x])"
    using assms(1) by (auto simp: l wf_latency_def Let_def)
  moreover have "lt_max_samples lt' = lt_max_samples lt" by (simp add: l)
  ultimately show ?thesis using assms(1) by (auto simp: wf_latency_def)
qed

lemma percentile_index_ok:
  assumes "0 < n" "0 \<le> p" "p \<le> 100" "int n * p < 2 ^ 53"
  shows "percentile_index n p = Inr (min \<lfloor>gridv (of_int (int n * p) / 100)\<rfloor> (int n - 1)) \<and>
    0 \<le> \<lfloor>gridv (of_int (int n * p) / 100)\<rfloor>"
proof -
  define k where "k = int n * p"
  have k: "0 \<le> k" "k < 2 ^ 53" using assms by (simp_all add: k_def)
  then have "(0::rat) \<le> of_int k" by simp
  then have "(0::rat) \<le> of_int k / 100" "(of_int k :: rat) / 100 \<le> of_int k" by simp_all
  from fl_between [OF this k(2)] obtain v where
    v: "fl (of_int k / 100) = Fin v" "v = gridv (of_int k / 100)" "0 \<le> v" by blast
  then show ?thesis
    unfolding percentile_index_def f_int_div_def k_def [symmetric] by simp
qed

text \<open>
  A percentile below 100 of a non-empty window is one of its samples, rounded; the
  computation through floats never leaves the list.
\<close>

lemma percentile_sample:
  assumes "lt_samples lt \<noteq> []" "0 \<le> p" "p \<le> 100" "int (length (lt_samples lt)) * p < 2 ^ 53"
  shows "\<exists>i < length (lt_samples lt).
    percentile lt p = Inr (f_round 2 (sort (lt_samples lt) ! i)) \<and>
    int i = min \<lfloor>gridv (of_int (int (length (lt_samples lt)) * p) / 100)\<rfloor>
      (int (length (lt_samples lt)) - 1)"
proof -
  let ?n = "length (lt_samples lt)"
  define i where "i = min \<lfloor>gridv (of_int (int ?n * p) / 100)\<rfloor> (int ?n - 1)"
  have n: "0 < ?n" using assms(1) by simp
  from percentile_index_ok [OF n assms(2-4)] n have
    pi: "percentile_index ?n p = Inr i" and "0 \<le> i" by (auto simp: i_def)
  moreover have "i < int ?n" by (simp add: i_def)
  ultimately have "percentile lt p = Inr (f_round 2 (sort (lt_samples lt) ! nat i))"
    using assms(1) by (simp add: percentile_def py_index_in)
  with \<open>0 \<le> i\<close> \<open>i < int ?n\<close> show ?thesis
    unfolding i_def [symmetric] by (intro exI [of _ "nat i"]) simp
qed

lemma percentile_mono:
  assumes "lt_samples lt \<noteq> []" "0 \<le> p" "p \<le> q" "q \<le> 100"
    "int (length (lt_samples lt)) * q < 2 ^ 53"
  shows "\<exists>x y. percentile lt p = Inr x \<and> percentile lt q = Inr y \<and> x \<le> y"
proof -
  let ?n = "length (lt_samples lt)"
  have le: "int ?n * p \<le> int ?n * q" using assms(3) by (simp add: mult_left_mono)
  then have "int ?n * p < 2 ^ 53" using assms(5) by simp
  from percentile_sample [OF assms(1,2) _ this] assms(3,4) obtain i where
    i: "i < ?n" "percentile lt p = Inr (f_round 2 (sort (lt_samples lt) ! i))"
      "int i = min \<lfloor>gridv (of_int (int ?n * p) / 100)\<rfloor> (int ?n - 1)" by auto
  from percentile_sample [OF assms(1) _ assms(4,5)] assms(2,3) obtain j where
    j: "j < ?n" "percentile lt q = Inr (f_round 2 (sort (lt_samples lt) ! j))"
      "int j = min \<lfloor>gridv (of_int (int ?n * q) / 100)\<rfloor> (int ?n - 1)" by auto
  have "(of_int (int ?n * p) :: rat) \<le> of_int (int ?n * q)" using le by (simp only: of_int_le_iff)
  then have "\<lfloor>gridv (of_int (int ?n * p) / 100)\<rfloor> \<le> \<lfloor>gridv (of_int (int ?n * q) / 100)\<rfloor>"
    by (intro floor_mono gridv_mono divide_right_mono) auto
  with i(3) j(3) have "i \<le> j" by linarith
  with i j have "sort (lt_samples lt) ! i \<le> sort (lt_samples lt) ! j"
    by (intro sorted_nth_mono) auto
  with i j show ?thesis by (auto intro: f_round_mono_all)
qed

section \<open>Queue discipline\<close>

definition wf_session :: "client_session \<Rightarrow> bool" where
  "wf_session s \<longleftrightarrow>
     wf_queue QUEUE_MAX_SIZE (cs_queue s) \<and> wf_latency (st_latency (cs_stats s)) \<and>
     (case cs_aggregator s of None \<Rightarrow> True | Some ag \<Rightarrow> wf_aggregator ag)"

lemma wf_new_session [simp]: "wf_session (new_session cid pol enc now)"
  by (simp add: wf_session_def new_session_def new_client_stats_def)

lemma new_session_simps [simp]:
  "cs_policy (new_session cid pol enc now) = pol"
  "cs_queue (new_session cid pol enc now) = new_queue QUEUE_MAX_SIZE"
  "cs_disconnected (new_session cid pol enc now) = False"
  "cs_aggregator (new_session cid pol enc now) = None"
  "cs_last_seq (new_session cid pol enc now) = Map.empty"
  "cs_filters (new_session cid pol enc now) = Map.empty"
  "cs_last_price (new_session cid pol enc now) = Map.empty"
  "cs_subscriptions (new_session cid pol enc now) = {}"
  "st_dropped (cs_stats (new_session cid pol enc now)) = 0"
  "st_sent (cs_stats (new_session cid pol enc now)) = 0"
  by (simp_all add: new_session_def new_client_stats_def)

lemma enqueue_room:
  assumes "wf_session s" "length (q_items (cs_queue s)) < QUEUE_MAX_SIZE"
  shows "\<exists>q. enqueue m s = (True, s\<lparr>cs_queue := q\<rparr>) \<and>
    q_items q = q_items (cs_queue s) @ [m] \<and> wf_queue QUEUE_MAX_SIZE q"
  using assms bq.put_room [of "cs_queue s" m]
  by (auto simp: enqueue_def wf_session_def wf_queue_def)

lemma enqueue_full:
  assumes "wf_session s" "length (q_items (cs_queue s)) = QUEUE_MAX_SIZE"
  shows "put_nowait m (cs_queue s) = None"
  using assms by (intro bq.put_full) (auto simp: wf_session_def wf_queue_def QUEUE_MAX_SIZE_def)

lemma bump_frame [simp]:
  "cs_queue (bump_dropped s) = cs_queue s" "cs_policy (bump_dropped s) = cs_policy s"
  "cs_queue (bump_sent s) = cs_queue s" "cs_policy (bump_sent s) = cs_policy s"
  "cs_queue (bump_gaps s) = cs_queue s" "cs_policy (bump_gaps s) = cs_policy s"
  "cs_last_seq (bump_dropped s) = cs_last_seq s" "cs_last_seq (bump_sent s) = cs_last_seq s"
  "cs_last_seq (bump_gaps s) = cs_last_seq s"
  "cs_aggregator (bump_dropped s) = cs_aggregator s" "cs_aggregator (bump_sent s) = cs_aggregator s"
  "cs_aggregator (bump_gaps s) = cs_aggregator s"
  "cs_disconnected (bump_dropped s) = cs_disconnected s"
  "cs_disconnected (bump_sent s) = cs_disconnected s"
  "cs_disconnected (bump_gaps s) = cs_disconnected s"
  "st_dropped (cs_stats (bump_dropped s)) = Suc (st_dropped (cs_stats s))"
  "st_dropped (cs_stats (bump_sent s)) = st_dropped (cs_stats s)"
  "st_sent (cs_stats (bump_sent s)) = Suc (st_sent (cs_stats s))"
  "st_sent (cs_stats (bump_dropped s)) = st_sent (cs_stats s)"
  "st_latency (cs_stats (bump_sent s)) = st_latency (cs_stats s)"
  "st_latency (cs_stats (bump_dropped s)) = st_latency (cs_stats s)"
  "st_latency (cs_stats (bump_gaps s)) = st_latency (cs_stats s)"
  by (simp_all add: bump_dropped_def bump_sent_def bump_gaps_def)

lemma enqueue_full_drop_oldest:
  assumes "wf_session s" "cs_policy s = DROP_OLDEST"
    "length (q_items (cs_queue s)) = QUEUE_MAX_SIZE"
  shows "\<exists>q. enqueue m s = (True, (bump_dropped s)\<lparr>cs_queue := q\<rparr>) \<and>
    q_items q = tl (q_items (cs_queue s)) @ [m] \<and> wf_queue QUEUE_MAX_SIZE q"
proof -
  from assms have "0 < q_max (cs_queue s)" "length (q_items (cs_queue s)) = q_max (cs_queue s)"
    "q_max (cs_queue s) = QUEUE_MAX_SIZE"
    by (auto simp: wf_session_def wf_queue_def QUEUE_MAX_SIZE_def)
  with bq.drop_oldest [of "cs_queue s" m] enqueue_full [OF assms(1,3), of m] assms(2,3)
  show ?thesis by (auto simp: enqueue_def wf_queue_def QUEUE_MAX_SIZE_def)
qed

lemma enqueue_full_disconnect:
  assumes "wf_session s" "cs_policy s = DISCONNECT"
    "length (q_items (cs_queue s)) = QUEUE_MAX_SIZE"
  shows "enqueue m s = (False,
    if SLOW_CLIENT_DROP_LIMIT \<le> Suc (st_dropped (cs_stats s))
    then (bump_dropped s)\<lparr>cs_disconnected := True\<rparr> else bump_dropped s)"
  using enqueue_full [OF assms(1,3), of m] assms(2) by (simp add: enqueue_def)

lemmas enqueue_cases = enqueue_room enqueue_full_drop_oldest enqueue_full_disconnect

lemma enqueue_split:
  assumes "wf_session s"
  obtains (room) q where "length (q_items (cs_queue s)) < QUEUE_MAX_SIZE"
      "enqueue m s = (True, s\<lparr>cs_queue := q\<rparr>)"
      "q_items q = q_items (cs_queue s) @ [m]" "wf_queue QUEUE_MAX_SIZE q"
  | (oldest) q where "length (q_items (cs_queue s)) = QUEUE_MAX_SIZE" "cs_policy s = DROP_OLDEST"
      "enqueue m s = (True, (bump_dropped s)\<lparr>cs_queue := q\<rparr>)"
      "q_items q = tl (q_items (cs_queue s)) @ [m]" "wf_queue QUEUE_MAX_SIZE q"
  | (refused) d where "length (q_items (cs_queue s)) = QUEUE_MAX_SIZE" "cs_policy s = DISCONNECT"
      "enqueue m s = (False, (bump_dropped s)\<lparr>cs_disconnected := d\<rparr>)"
      "d = (cs_disconnected s \<or> SLOW_CLIENT_DROP_LIMIT \<le> Suc (st_dropped (cs_stats s)))"
proof -
  have "length (q_items (cs_queue s)) \<le> QUEUE_MAX_SIZE"
    using assms by (simp add: wf_session_def wf_queue_def)
  then consider "length (q_items (cs_queue s)) < QUEUE_MAX_SIZE"
    | "length (q_items (cs_queue s)) = QUEUE_MAX_SIZE" "cs_policy s = DROP_OLDEST"
    | "length (q_items (cs_queue s)) = QUEUE_MAX_SIZE" "cs_policy s = DISCONNECT"
    by (cases "cs_policy s") linarith+
  then show thesis
  proof cases
    case 1
    with enqueue_room [OF assms, of m] room show ?thesis by blast
  next
    case 2
    with enqueue_full_drop_oldest [OF assms, of m] oldest show ?thesis by blast
  next
    case 3
    have "(bump_dropped s)\<lparr>cs_disconnected := cs_disconnected s\<rparr> = bump_dropped s"
      by (simp add: bump_dropped_def)
    with 3 enqueue_full_disconnect [OF assms, of m] refused show ?thesis
      by (cases "SLOW_CLIENT_DROP_LIMIT \<le> Suc (st_dropped (cs_stats s))") auto
  qed
qed

lemma enqueue_frame:
  "cs_last_seq (snd (enqueue m s)) = cs_last_seq s"
  "cs_aggregator (snd (enqueue m s)) = cs_aggregator s"
  "cs_policy (snd (enqueue m s)) = cs_policy s"
  "cs_subscriptions (snd (enqueue m s)) = cs_subscriptions s"
  "cs_filters (snd (enqueue m s)) = cs_filters s"
  "cs_last_price (snd (enqueue m s)) = cs_last_price s"
  by (auto simp: enqueue_def bump_dropped_def Let_def
      split: option.split slow_consumer_policy.split)

lemma wf_enqueue: "wf_session s \<Longrightarrow> wf_session (snd (enqueue m s))"
  by (rule enqueue_split [of s m]) (auto simp: wf_session_def)

text \<open>A run of enqueues with no writer turn between them.\<close>

fun enqueue_all :: "message list \<Rightarrow> client_session \<Rightarrow> client_session" where
  "enqueue_all [] s = s"
| "enqueue_all (m # ms) s = enqueue_all ms (snd (enqueue m s))"

lemma enqueue_drop_oldest:
  assumes "wf_session s" "cs_policy s = DROP_OLDEST"
  shows "fst (enqueue m s) \<and>
    q_items (cs_queue (snd (enqueue m s))) = keep_last 500 (q_items (cs_queue s) @ [m]) \<and>
    st_dropped (cs_stats (snd (enqueue m s))) =
      st_dropped (cs_stats s) + (Suc (length (q_items (cs_queue s))) - 500) \<and>
    cs_disconnected (snd (enqueue m s)) = cs_disconnected s"
  using assms(1)
proof (cases rule: enqueue_split [of s m])
  case (oldest q)
  then show ?thesis using keep_last_tl [of "q_items (cs_queue s)" 500 m]
    by (simp add: QUEUE_MAX_SIZE_def)
qed (use assms(2) in \<open>auto simp: QUEUE_MAX_SIZE_def\<close>)

text \<open>
  C14. A burst on a DROP_OLDEST session: every enqueue succeeds, the queue is left holding
  exactly the newest 500 of the messages that were waiting and the burst, in order, the
  drop counter grows by exactly the number of messages that did not fit, and the session
  stays connected.
\<close>

theorem burst_drop_oldest:
  assumes "wf_session s" "cs_policy s = DROP_OLDEST"
  shows "q_items (cs_queue (enqueue_all ms s)) = keep_last 500 (q_items (cs_queue s) @ ms)
    \<and> st_dropped (cs_stats (enqueue_all ms s)) =
        st_dropped (cs_stats s) + (length (q_items (cs_queue s)) + length ms - 500)
    \<and> cs_disconnected (enqueue_all ms s) = cs_disconnected s"
  using assms
proof (induction ms arbitrary: s)
  case Nil
  then show ?case by (simp add: wf_session_def wf_queue_def QUEUE_MAX_SIZE_def)
next
  case (Cons m ms)
  let ?s = "snd (enqueue m s)"
  let ?q = "q_items (cs_queue s)"
  note e = enqueue_drop_oldest [OF Cons.prems, of m]
  have IH: "q_items (cs_queue (enqueue_all ms ?s)) = keep_last 500 (q_items (cs_queue ?s) @ ms)
    \<and> st_dropped (cs_stats (enqueue_all ms ?s)) =
        st_dropped (cs_stats ?s) + (length (q_items (cs_queue ?s)) + length ms - 500)
    \<and> cs_disconnected (enqueue_all ms ?s) = cs_disconnected ?s"
    using Cons.prems by (intro Cons.IH) (auto simp: wf_enqueue enqueue_frame)
  have "keep_last 500 (keep_last 500 (?q @ [m]) @ ms) = keep_last 500 (?q @ m # ms)"
    using keep_last_append [of 500 "?q @ [m]" ms] by simp
  moreover have "length ?q \<le> 500"
    using Cons.prems(1) by (simp add: wf_session_def wf_queue_def QUEUE_MAX_SIZE_def)
  ultimately show ?case using IH e by (simp add: min_def)
qed

text \<open>
  C15. A burst on a DISCONNECT session: the queue keeps the oldest 500 messages, every
  message beyond them is refused and counted, and the disconnect signal is raised exactly
  when a refusal brings the counter to the limit of 100.
\<close>

theorem burst_disconnect:
  assumes "wf_session s" "cs_policy s = DISCONNECT"
  shows "q_items (cs_queue (enqueue_all ms s)) = take 500 (q_items (cs_queue s) @ ms)
    \<and> st_dropped (cs_stats (enqueue_all ms s)) =
        st_dropped (cs_stats s) + (length (q_items (cs_queue s)) + length ms - 500)
    \<and> (cs_disconnected (enqueue_all ms s) \<longleftrightarrow>
        cs_disconnected s \<or>
        (500 < length (q_items (cs_queue s)) + length ms \<and>
         100 \<le> st_dropped (cs_stats (enqueue_all ms s))))"
  using assms
proof (induction ms arbitrary: s)
  case Nil
  then show ?case by (auto simp: wf_session_def wf_queue_def QUEUE_MAX_SIZE_def)
next
  case (Cons m ms)
  let ?s = "snd (enqueue m s)"
  have "wf_session ?s" "cs_policy ?s = DISCONNECT"
    using Cons.prems by (auto simp: wf_enqueue enqueue_frame)
  note IH = Cons.IH [OF this]
  from Cons.prems(1) show ?case
  proof (cases rule: enqueue_split [of s m])
    case (room q)
    with IH show ?thesis by (simp add: QUEUE_MAX_SIZE_def)
  next
    case (oldest q)
    with Cons.prems(2) show ?thesis by simp
  next
    case (refused d)
    with IH show ?thesis
      by (auto simp: QUEUE_MAX_SIZE_def SLOW_CLIENT_DROP_LIMIT_def)
  qed
qed

theorem burst_drop_oldest_witness:
  "q_items (cs_queue (enqueue_all [[(''n'', JInt 1)], [(''n'', JInt 2)]]
      (new_session ''c'' DROP_OLDEST JSON (Fin 0)))) = [[(''n'', JInt 1)], [(''n'', JInt 2)]]"
  using burst_drop_oldest [of "new_session ''c'' DROP_OLDEST JSON (Fin 0)"
      "[[(''n'', JInt 1)], [(''n'', JInt 2)]]"]
  by simp

theorem burst_disconnect_witness:
  "st_dropped (cs_stats (enqueue_all (replicate 600 [(''n'', JInt 1)])
      (new_session ''c'' DISCONNECT JSON (Fin 0)))) = 100 \<and>
   cs_disconnected (enqueue_all (replicate 600 [(''n'', JInt 1)])
      (new_session ''c'' DISCONNECT JSON (Fin 0)))"
  using burst_disconnect [of "new_session ''c'' DISCONNECT JSON (Fin 0)"
      "replicate 600 [(''n'', JInt 1)]"]
  by simp

section \<open>Runs of a session\<close>

text \<open>
  What the other tasks do to a session, as a sequence of steps: producers enqueue, the
  writer takes turns, each with the outcome of its send and the clock.
\<close>

datatype session_op = OpEnqueue message | OpWriter send_outcome pyfloat

fun run_ops :: "session_op list \<Rightarrow> client_session \<Rightarrow> message list \<times> client_session" where
  "run_ops [] s = ([], s)"
| "run_ops (OpEnqueue m # ops) s = run_ops ops (snd (enqueue m s))"
| "run_ops (OpWriter outcome time # ops) s =
     (let (f, s1) = writer_turn outcome time s; (fs, s2) = run_ops ops s1
      in (case f of None \<Rightarrow> fs | Some m \<Rightarrow> m # fs, s2))"

fun enqueued :: "session_op list \<Rightarrow> message list" where
  "enqueued [] = []"
| "enqueued (OpEnqueue m # ops) = m # enqueued ops"
| "enqueued (OpWriter _ _ # ops) = enqueued ops"

lemma record_latency_frame [simp]:
  "cs_queue (record_latency t m s) = cs_queue s"
  "cs_aggregator (record_latency t m s) = cs_aggregator s"
  "cs_policy (record_latency t m s) = cs_policy s"
  "cs_last_seq (record_latency t m s) = cs_last_seq s"
  "st_sent (cs_stats (record_latency t m s)) = st_sent (cs_stats s)"
  "st_dropped (cs_stats (record_latency t m s)) = st_dropped (cs_stats s)"
  by (simp_all add: record_latency_def split: option.split sum.split)

lemma record_latency_disconnected:
  "cs_disconnected s \<Longrightarrow> cs_disconnected (record_latency t m s)"
  by (simp add: record_latency_def split: option.split sum.split)

lemma wf_record_latency: "wf_session s \<Longrightarrow> wf_session (record_latency t m s)"
  using latency_record_window [of "st_latency (cs_stats s)" t]
  by (fastforce simp: wf_session_def record_latency_def split: option.split sum.split)

lemma writer_split:
  assumes "wf_session s"
  obtains (idle) "writer_turn outcome time s = (None, s)"
  | (fails) m q where "\<not> cs_disconnected s" "q_items (cs_queue s) = m # q_items q"
      "wf_queue QUEUE_MAX_SIZE q"
      "writer_turn outcome time s = (None, s\<lparr>cs_queue := q, cs_disconnected := True\<rparr>)"
  | (sends) m q where "\<not> cs_disconnected s" "q_items (cs_queue s) = m # q_items q"
      "wf_queue QUEUE_MAX_SIZE q"
      "writer_turn outcome time s =
         (Some m, record_latency time m (bump_sent (s\<lparr>cs_queue := q\<rparr>)))"
proof (cases "cs_disconnected s \<or> get_nowait (cs_queue s) = None")
  case True
  then show ?thesis by (intro idle) (auto simp: writer_turn_def)
next
  case False
  then obtain m q where g: "get_nowait (cs_queue s) = Some (m, q)" and d: "\<not> cs_disconnected s"
    by auto
  have "wf_queue QUEUE_MAX_SIZE q" "q_items (cs_queue s) = m # q_items q"
    using assms wf_queue_get [OF _ g] get_nowait_Some [OF g] by (auto simp: wf_session_def)
  with g d fails sends show ?thesis by (cases outcome) (auto simp: writer_turn_def)
qed

lemma wf_writer_turn:
  assumes "wf_session s"
  shows "wf_session (snd (writer_turn outcome time s))"
  using assms
proof (cases rule: writer_split [of s outcome time])
  case (sends m q)
  with assms have "wf_session (bump_sent (s\<lparr>cs_queue := q\<rparr>))" by (simp add: wf_session_def)
  with sends show ?thesis by (simp add: wf_record_latency)
qed (use assms in \<open>auto simp: wf_session_def\<close>)

lemma subseq_tl_append: "subseq (tl xs @ ys) (xs @ ys)"
  by (cases xs) auto

lemma subseq_skip: "subseq (xs @ ys) (xs @ m # ys)"
  by (rule list_emb_append_mono) auto

lemma subseq_tl_snoc: "subseq ((tl xs @ [m]) @ ys) (xs @ m # ys)"
  using subseq_tl_append [of xs "m # ys"] by simp

lemma writer_subseq:
  assumes "wf_session s"
  shows "subseq (fst (run_ops ops s) @ q_items (cs_queue (snd (run_ops ops s))))
    (q_items (cs_queue s) @ enqueued ops)"
  using assms
proof (induction ops arbitrary: s)
  case Nil
  then show ?case by simp
next
  case (Cons oper ops)
  show ?case
  proof (cases oper)
    case (OpEnqueue m)
    let ?s = "snd (enqueue m s)"
    have IH: "subseq (fst (run_ops ops ?s) @ q_items (cs_queue (snd (run_ops ops ?s))))
        (q_items (cs_queue ?s) @ enqueued ops)"
      using Cons by (simp add: wf_enqueue)
    have "subseq (q_items (cs_queue ?s) @ enqueued ops) (q_items (cs_queue s) @ m # enqueued ops)"
      using Cons.prems
      by (rule enqueue_split [of s m])
        (simp_all add: subseq_skip subseq_tl_snoc [simplified])
    with IH OpEnqueue show ?thesis by (auto intro: subseq_order.trans)
  next
    case (OpWriter outcome time)
    obtain f s1 where t: "writer_turn outcome time s = (f, s1)" by force
    obtain fs s2 where r: "run_ops ops s1 = (fs, s2)" by force
    have "wf_session s1" using wf_writer_turn [OF Cons.prems, of outcome time] t by simp
    from Cons.IH [OF this] r have
      IH: "subseq (fs @ q_items (cs_queue s2)) (q_items (cs_queue s1) @ enqueued ops)" by simp
    from Cons.prems show ?thesis
      by (cases rule: writer_split [of s outcome time]) (use IH t r OpWriter in auto)
  qed
qed

text \<open>How many messages failed sends have taken: the message of a failed send is gone.\<close>

fun failed_sends :: "session_op list \<Rightarrow> client_session \<Rightarrow> nat" where
  "failed_sends [] s = 0"
| "failed_sends (OpEnqueue m # ops) s = failed_sends ops (snd (enqueue m s))"
| "failed_sends (OpWriter outcome time # ops) s =
     (if outcome = SendFails \<and> \<not> cs_disconnected s \<and> q_items (cs_queue s) \<noteq> [] then 1 else 0)
     + failed_sends ops (snd (writer_turn outcome time s))"

lemma no_failed_sends:
  "list_all (\<lambda>x. \<forall>time. x \<noteq> OpWriter SendFails time) ops \<Longrightarrow> failed_sends ops s = 0"
proof (induction ops arbitrary: s)
  case (Cons x ops)
  then show ?case by (cases x) auto
qed simp

lemma ops_account:
  assumes "wf_session s"
  shows "length (q_items (cs_queue s)) + length (enqueued ops) + st_dropped (cs_stats s) =
      length (fst (run_ops ops s)) + length (q_items (cs_queue (snd (run_ops ops s))))
      + st_dropped (cs_stats (snd (run_ops ops s))) + failed_sends ops s
    \<and> st_sent (cs_stats (snd (run_ops ops s))) = st_sent (cs_stats s) + length (fst (run_ops ops s))
    \<and> failed_sends ops s \<le> (if cs_disconnected s then 0 else 1)
    \<and> (0 < failed_sends ops s \<longrightarrow> cs_disconnected (snd (run_ops ops s)))
    \<and> (cs_disconnected s \<longrightarrow> cs_disconnected (snd (run_ops ops s)) \<and> fst (run_ops ops s) = [])"
  using assms
proof (induction ops arbitrary: s)
  case Nil
  then show ?case by auto
next
  case (Cons oper ops)
  show ?case
  proof (cases oper)
    case (OpEnqueue m)
    note IH = Cons.IH [OF wf_enqueue [OF Cons.prems], of m]
    from Cons.prems show ?thesis
    proof (cases rule: enqueue_split [of s m])
      case (oldest q)
      then have "length (q_items q) = length (q_items (cs_queue s))"
        by (cases "q_items (cs_queue s)") (auto simp: QUEUE_MAX_SIZE_def)
      with oldest IH OpEnqueue show ?thesis by simp
    qed (use IH OpEnqueue in \<open>auto split: if_splits\<close>)
  next
    case (OpWriter outcome time)
    obtain f s1 where t: "writer_turn outcome time s = (f, s1)" by force
    obtain fs s2 where r: "run_ops ops s1 = (fs, s2)" by force
    have "wf_session s1" using wf_writer_turn [OF Cons.prems, of outcome time] t by simp
    note IH = Cons.IH [OF this, unfolded r, simplified]
    from Cons.prems show ?thesis
    proof (cases rule: writer_split [of s outcome time])
      case idle
      then have "cs_disconnected (snd (writer_turn SendFails time s)) = cs_disconnected s" if "outcome = SendFails"
        using that by simp
      then have "\<not> (outcome = SendFails \<and> \<not> cs_disconnected s \<and> q_items (cs_queue s) \<noteq> [])"
        by (auto simp: writer_turn_def get_nowait_def split: list.splits)
      with idle IH t r OpWriter show ?thesis by auto
    next
      case (fails m q)
      then have "outcome = SendFails" by (cases outcome) (auto simp: writer_turn_def get_nowait_def)
      with fails IH t r OpWriter show ?thesis by auto
    next
      case (sends m q)
      then have "outcome = SendOk" by (cases outcome) (auto simp: writer_turn_def get_nowait_def)
      with sends IH t r OpWriter show ?thesis by (auto split: if_splits)
    qed
  qed
qed

text \<open>
  C16. The writer sends what was enqueued, in order and each message once. Whatever the
  policy drops and whichever sends fail, the frames sent followed by what is still queued
  are a subsequence of the messages waiting at the start followed by those enqueued since.
  Where nothing was dropped and no send failed, they are exactly these messages. And a
  connected writer makes progress: its next turn, if the send succeeds, sends the head of
  the queue and leaves the rest.
\<close>

theorem writer_delivers_in_order:
  assumes "wf_session s" "run_ops ops s = (sent, s')"
  shows "subseq (sent @ q_items (cs_queue s')) (q_items (cs_queue s) @ enqueued ops) \<and>
    (st_dropped (cs_stats s') = st_dropped (cs_stats s) \<and> failed_sends ops s = 0 \<longrightarrow>
      sent @ q_items (cs_queue s') = q_items (cs_queue s) @ enqueued ops) \<and>
    (\<forall>m ms time. \<not> cs_disconnected s' \<and> q_items (cs_queue s') = m # ms \<longrightarrow>
      fst (writer_turn SendOk time s') = Some m \<and> q_items (cs_queue (snd (writer_turn SendOk time s'))) = ms)"
proof (intro conjI impI allI)
  show sub: "subseq (sent @ q_items (cs_queue s')) (q_items (cs_queue s) @ enqueued ops)"
    using writer_subseq [OF assms(1), of ops] assms(2) by simp
  assume "st_dropped (cs_stats s') = st_dropped (cs_stats s) \<and> failed_sends ops s = 0"
  with ops_account [OF assms(1), of ops] assms(2)
  have "length (sent @ q_items (cs_queue s')) = length (q_items (cs_queue s) @ enqueued ops)" by simp
  with sub show "sent @ q_items (cs_queue s') = q_items (cs_queue s) @ enqueued ops"
    by (rule subseq_same_length)
qed (simp_all add: writer_turn_def get_nowait_def)

text \<open>
  C13. No message goes unaccounted for: of the messages waiting at the start or enqueued
  since, each has been sent and counted as sent, dropped and counted as dropped, is still
  queued, or was taken by a failed send. The last happens to at most one message, only if a
  send did fail, and then the session is disconnected; a disconnected session sends nothing.
\<close>

theorem session_accounts_for_every_message:
  assumes "wf_session s"
  shows "length (q_items (cs_queue s)) + length (enqueued ops) + st_dropped (cs_stats s) =
      length (fst (run_ops ops s)) + length (q_items (cs_queue (snd (run_ops ops s))))
      + st_dropped (cs_stats (snd (run_ops ops s))) + failed_sends ops s
    \<and> st_sent (cs_stats (snd (run_ops ops s))) = st_sent (cs_stats s) + length (fst (run_ops ops s))
    \<and> failed_sends ops s \<le> 1
    \<and> (list_all (\<lambda>x. \<forall>time. x \<noteq> OpWriter SendFails time) ops \<longrightarrow> failed_sends ops s = 0)
    \<and> (0 < failed_sends ops s \<longrightarrow> cs_disconnected (snd (run_ops ops s)))
    \<and> (cs_disconnected s \<longrightarrow> cs_disconnected (snd (run_ops ops s)) \<and> fst (run_ops ops s) = [])"
  using ops_account [OF assms, of ops] no_failed_sends [of ops s] by (auto split: if_splits)

definition sample_ops :: "send_outcome \<Rightarrow> session_op list" where
  "sample_ops outcome =
     [OpEnqueue [(''n'', JInt 1)], OpWriter outcome (Fin 2), OpEnqueue [(''n'', JInt 2)]]"

lemmas sample_ops_simps = sample_ops_def enqueue_def put_nowait_def queue_full_def writer_turn_def
  get_nowait_def new_queue_def QUEUE_MAX_SIZE_def record_latency_def dict_get_Cons

theorem writer_delivers_in_order_witness:
  "\<exists>sent s'. run_ops (sample_ops SendOk) (new_session ''c'' DROP_OLDEST JSON (Fin 0)) = (sent, s') \<and>
     sent @ q_items (cs_queue s') = [[(''n'', JInt 1)], [(''n'', JInt 2)]]"
proof -
  let ?s = "new_session ''c'' DROP_OLDEST JSON (Fin 0)"
  obtain sent s' where r: "run_ops (sample_ops SendOk) ?s = (sent, s')" by force
  have "st_dropped (cs_stats (snd (run_ops (sample_ops SendOk) ?s))) = st_dropped (cs_stats ?s)"
    by (simp add: sample_ops_simps)
  moreover have "failed_sends (sample_ops SendOk) ?s = 0" by (rule no_failed_sends) (simp add: sample_ops_def)
  ultimately have "sent @ q_items (cs_queue s') = q_items (cs_queue ?s) @ enqueued (sample_ops SendOk)"
    using writer_delivers_in_order [OF _ r] r by simp
  with r show ?thesis by (simp add: sample_ops_def)
qed

theorem session_accounts_for_every_message_witness:
  "2 = length (fst (run_ops (sample_ops SendFails) (new_session ''c'' DROP_OLDEST JSON (Fin 0)))) + 1 + 0 + 1 \<and>
   2 = length (fst (run_ops (sample_ops SendOk) (new_session ''c'' DROP_OLDEST JSON (Fin 0)))) + 1 + 0 + 0"
  using session_accounts_for_every_message [of "new_session ''c'' DROP_OLDEST JSON (Fin 0)" "sample_ops SendFails"]
    session_accounts_for_every_message [of "new_session ''c'' DROP_OLDEST JSON (Fin 0)" "sample_ops SendOk"]
  by (simp add: sample_ops_simps)

section \<open>Sequence boundary over a stream\<close>

text \<open>
  The sequence numbers of one symbol as the dispatch loop sees them, with no snapshot
  recovery in between: the accepted ones and the session after the stream.
\<close>

fun accept_stream ::
  "bool \<Rightarrow> string \<Rightarrow> int list \<Rightarrow> client_session \<Rightarrow> int list \<times> client_session" where
  "accept_stream detect_gap sy [] s = ([], s)"
| "accept_stream detect_gap sy (n # ns) s =
     (let (d, s1) = classify_sequence sy n detect_gap s;
          (acc, s2) = accept_stream detect_gap sy ns s1
      in (if d = NEXT then n # acc else acc, s2))"

lemma bump_gaps_last_seq [simp]: "cs_last_seq (bump_gaps s) = cs_last_seq s"
  by (simp add: bump_gaps_def)

lemma set_last_seq_get [simp]: "cs_last_seq (set_last_seq sy n s) = (cs_last_seq s)(sy \<mapsto> n)"
  by (simp add: set_last_seq_def)


text \<open>
  In AGG_100MS mode forward jumps are accepted and nothing else: the accepted numbers
  are strictly increasing and above the boundary, and the boundary ends at the largest
  number seen, so no event at or below a delivered one is ever accepted.
\<close>

theorem agg_accepts_increasing:
  assumes "cs_last_seq s sy = Some n"
  shows "sorted_wrt (<) (n # fst (accept_stream False sy ns s))
    \<and> cs_last_seq (snd (accept_stream False sy ns s)) sy = Some (Max (set (n # ns)))"
  using assms
proof (induction ns arbitrary: s n)
  case Nil
  then show ?case by simp
next
  case (Cons m ns)
  show ?case
  proof (cases "m \<le> n")
    case True
    then have "classify_sequence sy m False s = (STALE, s)"
      using Cons.prems by (simp add: classify_sequence_def)
    moreover have "Max (set (n # m # ns)) = Max (set (n # ns))"
      using True by (cases ns) (simp_all add: max_def)
    ultimately show ?thesis using Cons by (simp add: case_prod_beta)
  next
    case False
    then have c: "classify_sequence sy m False s = (NEXT, set_last_seq sy m s)"
      using Cons.prems by (simp add: classify_sequence_def)
    have IH: "sorted_wrt (<) (m # fst (accept_stream False sy ns (set_last_seq sy m s)))
      \<and> cs_last_seq (snd (accept_stream False sy ns (set_last_seq sy m s))) sy = Some (Max (set (m # ns)))"
      by (rule Cons.IH) simp
    moreover have "Max (set (n # m # ns)) = Max (set (m # ns))"
      using False by (cases ns) (simp_all add: max_def)
    ultimately show ?thesis using c False by (auto simp: case_prod_beta)
  qed
qed

section \<open>Filters never raise and loosen monotonically\<close>

definition looser :: "subscription_filter \<Rightarrow> subscription_filter \<Rightarrow> bool" where
  "looser g f \<longleftrightarrow>
     (case max_spread g of None \<Rightarrow> True
      | Some m' \<Rightarrow> (case max_spread f of None \<Rightarrow> False | Some m \<Rightarrow> f_le m m')) \<and>
     (case min_change_pct g of None \<Rightarrow> True
      | Some p' \<Rightarrow> (case min_change_pct f of None \<Rightarrow> False | Some p \<Rightarrow> f_le p' p))"

lemma f_lt_le_trans: "f_lt x y \<Longrightarrow> f_le y z \<Longrightarrow> f_lt x z"
  by (cases x; cases y; cases z) (auto simp: f_le_def f_eq_def)

lemma f_le_lt_trans: "f_le x y \<Longrightarrow> f_lt y z \<Longrightarrow> f_lt x z"
  by (cases x; cases y; cases z) (auto simp: f_le_def f_eq_def)

lemma f_div_nonzero: "\<not> f_eq y (Fin 0) \<Longrightarrow> \<exists>q. f_div x y = Inr q"
  by (cases x; cases y) (auto simp: f_eq_def)

lemma bindE_div_nonzero:
  "\<not> f_eq y (Fin 0) \<Longrightarrow>
   bindE (f_div x y) (\<lambda>q. Inr (P q)) = Inr (\<forall>q. f_div x y = Inr q \<longrightarrow> P q)"
  using f_div_nonzero [of y x] by auto

lemma should_deliver_iff:
  assumes "cs_filters s (ev_symbol e) = Some f"
  shows "should_deliver e s = Inr True \<longleftrightarrow>
    (\<forall>m. max_spread f = Some m \<longrightarrow> \<not> f_lt m (f_sub (ev_ask e) (ev_bid e))) \<and>
    (\<forall>p l q. min_change_pct f = Some p \<longrightarrow> cs_last_price s (ev_symbol e) = Some l \<longrightarrow>
      \<not> f_eq l (Fin 0) \<longrightarrow> f_div (f_sub (ev_bid e) l) l = Inr q \<longrightarrow>
      \<not> f_lt (f_add (f_mul (f_abs q) (Fin 100)) PERCENT_EPSILON) p)"
  using assms
  by (cases "max_spread f"; cases "min_change_pct f"; cases "cs_last_price s (ev_symbol e)")
    (simp_all add: should_deliver_def bindE_div_nonzero)

text \<open>
  C40. The filter is total and monotone: for every event and every session the decision is
  made without an exception (the division is guarded), and an event that passes a filter
  passes every looser one (a larger spread, a smaller change, or either left out).
\<close>

theorem filter_total_and_monotone:
  "(\<exists>b. should_deliver e s = Inr b) \<and>
   (cs_filters s (ev_symbol e) = Some f \<longrightarrow> looser g f \<longrightarrow> should_deliver e s = Inr True \<longrightarrow>
    should_deliver e (s\<lparr>cs_filters := (cs_filters s)(ev_symbol e \<mapsto> g)\<rparr>) = Inr True)"
proof (intro conjI impI)
  show "\<exists>b. should_deliver e s = Inr b"
    by (cases "cs_filters s (ev_symbol e)"; cases "cs_last_price s (ev_symbol e)";
      auto simp: should_deliver_def bindE_div_nonzero ex_bool_eq split: option.split)
next
  let ?s = "s\<lparr>cs_filters := (cs_filters s)(ev_symbol e \<mapsto> g)\<rparr>"
  assume a: "cs_filters s (ev_symbol e) = Some f" "looser g f" "should_deliver e s = Inr True"
  note f = a(3) [unfolded should_deliver_iff [OF a(1)]]
  have g: "cs_filters ?s (ev_symbol e) = Some g" by simp
  show "should_deliver e ?s = Inr True"
    unfolding should_deliver_iff [OF g]
  proof (intro conjI allI impI)
    fix m' assume "max_spread g = Some m'"
    with a(2) obtain m where "max_spread f = Some m" "f_le m m'"
      by (auto simp: looser_def split: option.splits)
    with f f_le_lt_trans show "\<not> f_lt m' (f_sub (ev_ask e) (ev_bid e))" by blast
  next
    fix p' l q
    assume p': "min_change_pct g = Some p'" and l: "cs_last_price ?s (ev_symbol e) = Some l"
      "\<not> f_eq l (Fin 0)" "f_div (f_sub (ev_bid e) l) l = Inr q"
    from p' a(2) obtain p where "min_change_pct f = Some p" "f_le p' p"
      by (auto simp: looser_def split: option.splits)
    moreover from this l f have
      "\<not> f_lt (f_add (f_mul (f_abs q) (Fin 100)) PERCENT_EPSILON) p" by simp
    ultimately show "\<not> f_lt (f_add (f_mul (f_abs q) (Fin 100)) PERCENT_EPSILON) p'"
      using f_lt_le_trans by blast
  qed
qed

text \<open>
  For every window the tracker can hold, both reported percentiles exist (the index
  computed through floating point stays inside the window), each is one of the recorded
  samples rounded to two decimals, and p50 never exceeds p99.
\<close>

theorem percentiles_ordered:
  assumes "wf_latency lt" "lt_samples lt \<noteq> []"
  shows "\<exists>x y. p50 lt = Inr x \<and> p99 lt = Inr y \<and> x \<le> y \<and>
    x \<in> f_round 2 ` set (lt_samples lt) \<and> y \<in> f_round 2 ` set (lt_samples lt)"
proof -
  have n: "int (length (lt_samples lt)) * 50 < 2 ^ 53" "int (length (lt_samples lt)) * 99 < 2 ^ 53"
    using assms(1) by (auto simp: wf_latency_def)
  have m: "\<exists>x. percentile lt p = Inr x \<and> x \<in> f_round 2 ` set (lt_samples lt)"
    if "0 \<le> p" "p \<le> 100" "int (length (lt_samples lt)) * p < 2 ^ 53" for p
  proof -
    from percentile_sample [OF assms(2) that] obtain i where
      "i < length (lt_samples lt)" "percentile lt p = Inr (f_round 2 (sort (lt_samples lt) ! i))"
      by blast
    moreover from this have "sort (lt_samples lt) ! i \<in> set (lt_samples lt)"
      by (metis length_sort nth_mem set_sort)
    ultimately show ?thesis by simp
  qed
  from percentile_mono [OF assms(2) _ _ _ n(2), of 50] m [of 50] m [of 99] n
  show ?thesis by (auto simp: p50_def p99_def)
qed

section \<open>Witnesses\<close>


theorem agg_accepts_increasing_witness:
  "sorted_wrt (<) (4 # fst (accept_stream False ''A'' [3, 9, 7]
      (set_last_seq ''A'' 4 (new_session ''c'' DROP_OLDEST JSON (Fin 0)))))"
  using agg_accepts_increasing [of "set_last_seq ''A'' 4 (new_session ''c'' DROP_OLDEST JSON (Fin 0))"
    "''A''" 4 "[3, 9, 7]"] by auto

theorem filter_total_and_monotone_witness:
  "should_deliver (sample_event ''A'' 1)
     (new_session ''c'' DROP_OLDEST JSON (Fin 0)
       \<lparr>cs_filters := [''A'' \<mapsto> \<lparr>min_change_pct = None, max_spread = Some (Fin 2)\<rparr>]\<rparr>
       \<lparr>cs_filters := [''A'' \<mapsto> \<lparr>min_change_pct = None, max_spread = Some (Fin 3)\<rparr>]\<rparr>) = Inr True"
proof -
  let ?s = "new_session ''c'' DROP_OLDEST JSON (Fin 0)
    \<lparr>cs_filters := [''A'' \<mapsto> \<lparr>min_change_pct = None, max_spread = Some (Fin 2)\<rparr>]\<rparr>"
  have "fl 1 = Fin 1" using fl_of_int [of 1] by simp
  then have "should_deliver (sample_event ''A'' 1) ?s = Inr True"
    by (simp add: should_deliver_def)
  then show ?thesis
    using filter_total_and_monotone [of "sample_event ''A'' 1" ?s
      "\<lparr>min_change_pct = None, max_spread = Some (Fin 2)\<rparr>"
      "\<lparr>min_change_pct = None, max_spread = Some (Fin 3)\<rparr>"]
    by (simp add: looser_def)
qed

theorem percentiles_ordered_witness:
  "\<exists>x y. p50 \<lparr>lt_samples = [Fin 3, Fin 1, Fin 2], lt_max_samples = 1000\<rparr> = Inr x \<and>
    p99 \<lparr>lt_samples = [Fin 3, Fin 1, Fin 2], lt_max_samples = 1000\<rparr> = Inr y \<and> x \<le> y"
  using percentiles_ordered [of "\<lparr>lt_samples = [Fin 3, Fin 1, Fin 2], lt_max_samples = 1000\<rparr>"]
  by (auto simp: wf_latency_def)

end
