(* ===== verification/Snapshot_Store.thy ===== *)
theory Snapshot_Store
  imports Models
begin

text \<open>
  \<open>src/engine/snapshot_store.py\<close>: the Redis-backed store of each symbol's latest state
  and the publisher of its events. The model is what the store sends to Redis and how it
  reads the answer. The Redis server is a parameter: \<open>exec\<close> runs a MULTI/EXEC
  transaction on a server state and \<open>hgetall\<close> reads a hash; the theorems assume of them
  what Redis documents for HSET and EXPIRE. The decimal text of a float (\<open>str(x)\<close>,
  \<open>float(s)\<close>) and the JSON encoder are parameters too.
\<close>

definition SNAPSHOT_TTL :: nat where
  "SNAPSHOT_TTL = 86400"

definition EVENT_CHANNEL_PREFIX :: string where
  "EVENT_CHANNEL_PREFIX = ''events''"

definition strip_colons :: "string \<Rightarrow> string" where
  \<comment> \<open>\<open>s.strip(':')\<close>\<close>
  "strip_colons s = rev (dropWhile (\<lambda>c. c = CHR '':'') (rev (dropWhile (\<lambda>c. c = CHR '':'') s)))"

definition store_prefix :: "string option \<Rightarrow> string option \<Rightarrow> string" where
  \<comment> \<open>the constructor: the argument, else the environment variable, else none\<close>
  "store_prefix namespace env =
     (let ns = (case namespace of Some n \<Rightarrow> n
                | None \<Rightarrow> (case env of Some v \<Rightarrow> v | None \<Rightarrow> []))
      in if ns \<noteq> [] then strip_colons ns @ '':'' else [])"

definition snapshot_key :: "string \<Rightarrow> string \<Rightarrow> string" where
  "snapshot_key pfx sy = pfx @ ''snapshot:'' @ sy"

definition event_channel :: "string \<Rightarrow> string \<Rightarrow> string" where
  "event_channel pfx sy = pfx @ EVENT_CHANNEL_PREFIX @ '':'' @ sy"

datatype redis_cmd =
    HSet string "(string, string) dict"
  | Expire string nat

definition snapshot_fields ::
  "(pyfloat \<Rightarrow> string) \<Rightarrow> market_event \<Rightarrow> (string, string) dict" where
  "snapshot_fields fstr e =
     [(''bid'', fstr (ev_bid e)),
      (''ask'', fstr (ev_ask e)),
      (''bid_size'', str_of_int (ev_bid_size e)),
      (''ask_size'', str_of_int (ev_ask_size e)),
      (''seq'', str_of_int (ev_seq e)),
      (''ts'', str_of_int (ev_server_ts e))]"

definition update_commands ::
  "(pyfloat \<Rightarrow> string) \<Rightarrow> string \<Rightarrow> market_event \<Rightarrow> redis_cmd list" where
  \<comment> \<open>what one \<open>update\<close> sends, as one transaction\<close>
  "update_commands fstr pfx e =
     (let key = snapshot_key pfx (ev_symbol e)
      in [HSet key (snapshot_fields fstr e), Expire key SNAPSHOT_TTL])"

definition store_update ::
  "(redis_cmd list \<Rightarrow> 'r \<Rightarrow> 'r) \<Rightarrow> (pyfloat \<Rightarrow> string) \<Rightarrow> string \<Rightarrow> market_event \<Rightarrow> 'r \<Rightarrow> 'r" where
  "store_update exec fstr pfx e r = exec (update_commands fstr pfx e) r"

definition store_get ::
  "('r \<Rightarrow> string \<Rightarrow> (string, string) dict) \<Rightarrow> (string \<Rightarrow> pyfloat result) \<Rightarrow>
   string \<Rightarrow> string \<Rightarrow> 'r \<Rightarrow> snapshot_data option result" where
  "store_get hgetall fparse pfx sy r =
     (let data = hgetall r (snapshot_key pfx sy)
      in if data = [] then Inr None
         else bindE (from_redis fparse sy data) (\<lambda>s. Inr (Some s)))"

definition publish_command ::
  "(json \<Rightarrow> string) \<Rightarrow> string \<Rightarrow> market_event \<Rightarrow> string \<times> string" where
  \<comment> \<open>the channel and the payload \<open>publish_event\<close> hands to PUBLISH\<close>
  "publish_command dumps pfx e =
     (event_channel pfx (ev_symbol e), dumps (JObj (event_to_dict e)))"

section \<open>What Redis documents\<close>

text \<open>
  A committed HSET with EXPIRE sets exactly the given flds of its key and leaves every
  other field and key as it was.
\<close>

definition hset_contract ::
  "(redis_cmd list \<Rightarrow> 'r \<Rightarrow> 'r) \<Rightarrow> ('r \<Rightarrow> string \<Rightarrow> (string, string) dict) \<Rightarrow> bool" where
  "hset_contract exec hgetall \<longleftrightarrow>
     (\<forall>r key flds ttl k f. wf_dict flds \<longrightarrow>
        dict_get (hgetall (exec [HSet key flds, Expire key ttl] r) k) f =
          (if k = key \<and> dict_get flds f \<noteq> None then dict_get flds f
           else dict_get (hgetall r k) f))"

definition float_text_contract ::
  "(pyfloat \<Rightarrow> string) \<Rightarrow> (string \<Rightarrow> pyfloat result) \<Rightarrow> market_event \<Rightarrow> bool" where
  \<comment> \<open>\<open>float(str(x)) == x\<close> for the two prices of the event\<close>
  "float_text_contract fstr fparse e \<longleftrightarrow>
     fparse (fstr (ev_bid e)) = Inr (ev_bid e) \<and> fparse (fstr (ev_ask e)) = Inr (ev_ask e)"

definition printable_ints :: "market_event \<Rightarrow> bool" where
  \<comment> \<open>Python refuses to convert integers of more than 4300 digits\<close>
  "printable_ints e \<longleftrightarrow>
     \<bar>ev_bid_size e\<bar> < 10 ^ max_str_digits \<and> \<bar>ev_ask_size e\<bar> < 10 ^ max_str_digits \<and>
     \<bar>ev_seq e\<bar> < 10 ^ max_str_digits \<and> \<bar>ev_server_ts e\<bar> < 10 ^ max_str_digits"

section \<open>Keys\<close>

lemma snapshot_key_inj [simp]: "snapshot_key p s = snapshot_key p t \<longleftrightarrow> s = t"
  by (simp add: snapshot_key_def)

lemma event_channel_inj [simp]: "event_channel p s = event_channel p t \<longleftrightarrow> s = t"
  by (simp add: event_channel_def)

lemma wf_snapshot_fields [simp]: "wf_dict (snapshot_fields fstr e)"
  by (simp add: wf_dict_def snapshot_fields_def)

lemma fields_get [simp]:
  "dict_get (snapshot_fields fstr e) ''bid'' = Some (fstr (ev_bid e))"
  "dict_get (snapshot_fields fstr e) ''ask'' = Some (fstr (ev_ask e))"
  "dict_get (snapshot_fields fstr e) ''bid_size'' = Some (str_of_int (ev_bid_size e))"
  "dict_get (snapshot_fields fstr e) ''ask_size'' = Some (str_of_int (ev_ask_size e))"
  "dict_get (snapshot_fields fstr e) ''seq'' = Some (str_of_int (ev_seq e))"
  "dict_get (snapshot_fields fstr e) ''ts'' = Some (str_of_int (ev_server_ts e))"
  by (simp_all add: snapshot_fields_def dict_get_Cons)

lemma from_redis_fields:
  assumes "\<And>f v. dict_get (snapshot_fields fstr e) f = Some v \<Longrightarrow> dict_get data f = Some v"
    "float_text_contract fstr fparse e" "printable_ints e"
  shows "from_redis fparse (ev_symbol e) data = Inr (from_event e)"
  using assms(2,3)
  by (simp add: from_redis_def redis_field_def assms(1) [OF fields_get(1)] assms(1) [OF fields_get(2)]
    assms(1) [OF fields_get(3)] assms(1) [OF fields_get(4)] assms(1) [OF fields_get(5)]
    assms(1) [OF fields_get(6)] float_text_contract_def printable_ints_def int_of_str_of_int
    from_event_def)

lemma hset_contractD:
  "hset_contract exec hgetall \<Longrightarrow>
   dict_get (hgetall (store_update exec fstr pfx e r) k) f =
     (if k = snapshot_key pfx (ev_symbol e) \<and> dict_get (snapshot_fields fstr e) f \<noteq> None
      then dict_get (snapshot_fields fstr e) f else dict_get (hgetall r k) f)"
  by (simp add: hset_contract_def store_update_def update_commands_def Let_def)

section \<open>Reading back\<close>

text \<open>
  C26. What \<open>update\<close> wrote is what \<open>get\<close> returns: after an update for the event, the
  snapshot read back for its symbol is \<open>SnapshotData.from_event\<close> of it, whatever the
  hash held before, older or newer.
\<close>

theorem snapshot_reads_back:
  assumes "hset_contract exec hgetall" "float_text_contract fstr fparse e" "printable_ints e"
  shows "store_get hgetall fparse pfx (ev_symbol e) (store_update exec fstr pfx e r)
    = Inr (Some (from_event e))"
proof -
  let ?data = "hgetall (store_update exec fstr pfx e r) (snapshot_key pfx (ev_symbol e))"
  have f: "dict_get ?data f = Some v" if "dict_get (snapshot_fields fstr e) f = Some v" for f v
    using hset_contractD [OF assms(1)] that by simp
  have "?data \<noteq> []" using f [OF fields_get(1)] by auto
  moreover have "from_redis fparse (ev_symbol e) ?data = Inr (from_event e)"
    using f assms(2,3) by (rule from_redis_fields)
  ultimately show ?thesis by (simp add: store_get_def)
qed

text \<open>
  Symbols are isolated: an update for one symbol changes no field of the hash that
  \<open>get\<close> reads for another, so neither the presence nor any field of its snapshot.
\<close>

theorem update_isolates_symbols:
  assumes "hset_contract exec hgetall" "sy \<noteq> ev_symbol e"
  shows "dict_get (hgetall (store_update exec fstr pfx e r) (snapshot_key pfx sy))
      = dict_get (hgetall r (snapshot_key pfx sy)) \<and>
    (store_get hgetall fparse pfx sy (store_update exec fstr pfx e r) = Inr None
      \<longleftrightarrow> store_get hgetall fparse pfx sy r = Inr None)"
proof -
  let ?k = "snapshot_key pfx sy"
  have g: "dict_get (hgetall (store_update exec fstr pfx e r) ?k) = dict_get (hgetall r ?k)"
    using assms(2) by (simp add: hset_contractD [OF assms(1)] fun_eq_iff)
  have n: "store_get hgetall fparse pfx sy r' = Inr None \<longleftrightarrow> hgetall r' ?k = []" for r'
    by (auto simp: store_get_def Let_def bindE_eq_Inr split: if_splits)
  have "hgetall (store_update exec fstr pfx e r) ?k = [] \<longleftrightarrow> hgetall r ?k = []"
    using g by (simp add: dict_empty_iff)
  with g n show ?thesis by simp
qed

section \<open>Witnesses\<close>

text \<open>A concrete server: a map from keys to hashes, in which nothing expires.\<close>

fun map_server_cmd :: "redis_cmd \<Rightarrow> (string \<Rightarrow> (string, string) dict) \<Rightarrow> string \<Rightarrow> (string, string) dict" where
  "map_server_cmd (HSet k flds) r = r(k := fold (\<lambda>(f, v). dict_set f v) flds (r k))"
| "map_server_cmd (Expire k ttl) r = r"

definition map_server ::
  "redis_cmd list \<Rightarrow> (string \<Rightarrow> (string, string) dict) \<Rightarrow> string \<Rightarrow> (string, string) dict" where
  "map_server cmds r = fold map_server_cmd cmds r"

lemma fold_dict_set_get:
  "wf_dict flds \<Longrightarrow> dict_get (fold (\<lambda>(f, v). dict_set f v) flds d) f =
     (if dict_get flds f \<noteq> None then dict_get flds f else dict_get d f)"
proof (induction flds arbitrary: d)
  case (Cons p flds)
  obtain f' v where p: "p = (f', v)" by (cases p)
  with Cons.prems have "wf_dict flds" "dict_get flds f' = None"
    by (auto simp: wf_dict_def dict_get_None_iff dict_keys_def)
  with Cons.IH p show ?case by (auto simp: dict_get_Cons dict_get_set)
qed simp

lemma map_server_contract: "hset_contract map_server (\<lambda>r. r)"
  by (simp add: hset_contract_def map_server_def fold_dict_set_get)

definition sample_fstr :: "pyfloat \<Rightarrow> string" where
  "sample_fstr x = (if x = Fin 10 then ''10.0'' else ''11.0'')"

definition sample_fparse :: "string \<Rightarrow> pyfloat result" where
  "sample_fparse s = (if s = ''10.0'' then Inr (Fin 10) else if s = ''11.0'' then Inr (Fin 11)
     else Inl ValueError)"

lemma sample_event_contracts:
  "float_text_contract sample_fstr sample_fparse (sample_event s 5)"
  "printable_ints (sample_event s 5)"
proof -
  show "float_text_contract sample_fstr sample_fparse (sample_event s 5)"
    by (simp add: float_text_contract_def sample_fstr_def sample_fparse_def)
  show "printable_ints (sample_event s 5)"
    unfolding printable_ints_def by (intro conjI small_int_printable) (simp_all add: sample_event_def)
qed

theorem snapshot_reads_back_witness:
  "store_get (\<lambda>r. r) sample_fparse [] ''A''
     (store_update map_server sample_fstr [] (sample_event ''A'' 5) (\<lambda>_. []))
   = Inr (Some (from_event (sample_event ''A'' 5)))"
  using snapshot_reads_back [OF map_server_contract sample_event_contracts, of "[]" "''A''"]
  by simp

theorem update_isolates_symbols_witness:
  "store_get (\<lambda>r. r) sample_fparse [] ''B''
     (store_update map_server sample_fstr [] (sample_event ''A'' 5) (\<lambda>_. [])) = Inr None"
  using update_isolates_symbols [OF map_server_contract, of "''B''" "sample_event ''A'' 5"
      sample_fstr "[]" "\<lambda>_. []" sample_fparse]
  by (simp add: store_get_def)

end
