(* ===== verification/Kafka_Bridge.thy ===== *)
theory Kafka_Bridge
  imports Models Bounded_Queue
begin

text \<open>
  \<open>KafkaConsumerBridge\<close> of \<open>src/engine/engine.py\<close>: the thread that polls Kafka, hands
  events to the asyncio side through a bounded queue, and commits offsets only as far as
  they have been acknowledged. Acknowledgements arrive in any order; the bridge keeps them
  per partition and commits, per drain, one offset for each partition: the end of the
  contiguous run of acknowledged offsets that starts where the last commit ended.

  The event is opaque to the bridge, so the records are polymorphic in it. What Kafka and
  the asyncio loop do (the polled message, whether a commit raises, how a handoff goes) is
  an argument of each operation.
\<close>

type_synonym partition_key = "string \<times> int"

record 'e consumed_event =
  ce_event :: 'e
  ce_topic :: string
  ce_partition :: int
  ce_offset :: int

definition ce_key :: "'e consumed_event \<Rightarrow> partition_key" where
  "ce_key c = (ce_topic c, ce_partition c)"

record 'e bridge =
  br_queue :: "'e consumed_event bqueue"
  br_acknowledgements :: "'e consumed_event list"
  br_pending :: "(partition_key, (int, 'e consumed_event) dict) dict"
  br_next_commit :: "(partition_key, int) dict"
  br_loop :: bool
  br_thread :: bool
  br_stop :: bool

definition new_bridge :: "'e bridge" where
  "new_bridge =
     \<lparr>br_queue = new_queue 10000, br_acknowledgements = [], br_pending = [],
      br_next_commit = [], br_loop = False, br_thread = False, br_stop = False\<rparr>"

definition start_bridge :: "'e bridge \<Rightarrow> 'e bridge" where
  "start_bridge b = b\<lparr>br_loop := True, br_stop := False, br_thread := True\<rparr>"

definition stop_bridge :: "'e bridge \<Rightarrow> 'e bridge" where
  "stop_bridge b = b\<lparr>br_stop := True\<rparr>"

definition acknowledge :: "'e consumed_event \<Rightarrow> 'e bridge \<Rightarrow> 'e bridge" where
  "acknowledge c b = b\<lparr>br_acknowledgements := br_acknowledgements b @ [c]\<rparr>"

definition track_consumed :: "'e consumed_event \<Rightarrow> 'e bridge \<Rightarrow> 'e bridge" where
  "track_consumed c b =
     b\<lparr>br_next_commit := dict_setdefault (ce_key c) (ce_offset c) (br_next_commit b)\<rparr>"

section \<open>Parsing\<close>

definition parse_event ::
  "(string \<Rightarrow> pyfloat result) \<Rightarrow> pyfloat \<Rightarrow> json result \<Rightarrow> market_event parse_outcome" where
  \<comment> \<open>\<open>_parse_event\<close>: the arguments are the clock and the result of \<open>json.loads\<close>\<close>
  "parse_event fparse time loaded =
     parse_market_event fparse (\<lambda>_. opt_of (now_ms time)) loaded"

section \<open>Handoff\<close>

text \<open>
  \<open>_handoff\<close> submits \<open>queue.put(consumed)\<close> to the loop and waits on its future in
  slices of 0.1 s, looking at the stop flag between two slices. The thread, the loop, the
  engine that takes items and a caller of \<open>stop\<close> interleave, so the operation is a small
  machine: \<open>ho_waiting\<close> says that the thread is inside \<open>future.result\<close>,
  \<open>ho_done\<close> that the put has taken effect. The first component of a step is the value
  \<open>_handoff\<close> returns, once it returns. A put that is still waiting when the thread cancels
  it at shutdown is dropped; that it might take effect in the moment before the
  cancellation reaches the loop is left out.
\<close>

record 'e handoff =
  ho_item :: "'e consumed_event"
  ho_waiting :: bool
  ho_done :: bool

datatype handoff_event = LoopPuts | ThreadRuns | FutureFails

definition start_handoff :: "'e consumed_event \<Rightarrow> 'e bridge \<Rightarrow> 'e handoff option" where
  "start_handoff c b =
     (if \<not> br_loop b then None
      else Some \<lparr>ho_item = c, ho_waiting = False, ho_done = False\<rparr>)"

fun handoff_step ::
  "handoff_event \<Rightarrow> 'e handoff \<Rightarrow> 'e bridge \<Rightarrow> bool option \<times> 'e handoff \<times> 'e bridge" where
  "handoff_step LoopPuts h b =
     (if ho_done h then (None, h, b)
      else case put_nowait (ho_item h) (br_queue b) of
             None \<Rightarrow> (None, h, b)
           | Some q \<Rightarrow> (None, h\<lparr>ho_done := True\<rparr>, b\<lparr>br_queue := q\<rparr>))"
| "handoff_step ThreadRuns h b =
     (if ho_waiting h then
        if ho_done h then (Some True, h, b) else (None, h\<lparr>ho_waiting := False\<rparr>, b)
      else if br_stop b then (Some False, h, b)
      else (None, h\<lparr>ho_waiting := True\<rparr>, b))"
| "handoff_step FutureFails h b =
     (if ho_waiting h \<and> \<not> ho_done h then (Some False, h, b) else (None, h, b))"

text \<open>
  The whole operation along a schedule of what happens meanwhile. \<^const>\<open>None\<close> as the
  returned value means that the thread is still waiting at the end of the schedule; the
  list is what the engine took from the queue.
\<close>

datatype handoff_turn = Own handoff_event | EngineTakes | StopCalled

definition next_consumed :: "'e bridge \<Rightarrow> ('e consumed_event \<times> 'e bridge) option" where
  \<comment> \<open>one turn of \<open>events()\<close>\<close>
  "next_consumed b =
     (case get_nowait (br_queue b) of
        None \<Rightarrow> None
      | Some (c, q) \<Rightarrow> Some (c, b\<lparr>br_queue := q\<rparr>))"

fun handoff_run ::
  "handoff_turn list \<Rightarrow> 'e handoff \<Rightarrow> 'e bridge \<Rightarrow>
   bool option \<times> 'e consumed_event list \<times> 'e handoff \<times> 'e bridge" where
  "handoff_run [] h b = (None, [], h, b)"
| "handoff_run (Own ev # ts) h b =
     (case handoff_step ev h b of
        (Some r, h', b') \<Rightarrow> (Some r, [], h', b')
      | (None, h', b') \<Rightarrow> handoff_run ts h' b')"
| "handoff_run (EngineTakes # ts) h b =
     (case next_consumed b of
        None \<Rightarrow> handoff_run ts h b
      | Some (c, b') \<Rightarrow>
          (case handoff_run ts h b' of (r, taken, h', b'') \<Rightarrow> (r, c # taken, h', b'')))"
| "handoff_run (StopCalled # ts) h b = handoff_run ts h (stop_bridge b)"

definition handoff ::
  "handoff_turn list \<Rightarrow> 'e consumed_event \<Rightarrow> 'e bridge \<Rightarrow>
   bool option \<times> 'e consumed_event list \<times> 'e bridge" where
  "handoff ts c b =
     (case start_handoff c b of
        None \<Rightarrow> (Some False, [], b)
      | Some h \<Rightarrow> (case handoff_run ts h b of (r, taken, h', b') \<Rightarrow> (r, taken, b')))"

section \<open>Draining acknowledgements\<close>

definition record_ack ::
  "'e consumed_event \<Rightarrow> (partition_key, (int, 'e consumed_event) dict) dict \<Rightarrow>
   (partition_key, (int, 'e consumed_event) dict) dict" where
  "record_ack c p =
     (let m = (case dict_get p (ce_key c) of None \<Rightarrow> [] | Some m \<Rightarrow> m)
      in dict_set (ce_key c) (dict_set (ce_offset c) c m) p)"

text \<open>\<open>while cursor in pending: cursor += 1\<close>\<close>

function scan_cursor :: "(int, 'v) dict \<Rightarrow> int \<Rightarrow> int" where
  "scan_cursor pending cursor =
     (if dict_get pending cursor \<noteq> None then scan_cursor pending (cursor + 1) else cursor)"
  by pat_completeness auto
termination
proof (relation "measure (\<lambda>(p, c). length (filter (\<lambda>k. c \<le> k) (dict_keys p)))")
  show "((pending, cursor + 1), (pending, cursor))
      \<in> measure (\<lambda>(p, c). length (filter (\<lambda>k. c \<le> k) (dict_keys p)))"
    if "dict_get pending cursor \<noteq> None" for pending :: "(int, 'v) dict" and cursor
  proof -
    have m: "cursor \<in> set (dict_keys pending)" using that by (simp add: dict_get_None_iff)
    have "filter (\<lambda>k. cursor + 1 \<le> k) (dict_keys pending)
        = filter (\<lambda>k. cursor + 1 \<le> k) (filter (\<lambda>k. cursor \<le> k) (dict_keys pending))"
      by (auto intro: filter_cong)
    moreover have "length (filter (\<lambda>k. cursor + 1 \<le> k) (filter (\<lambda>k. cursor \<le> k) (dict_keys pending)))
        < length (filter (\<lambda>k. cursor \<le> k) (dict_keys pending))"
      by (rule length_filter_less [of cursor]) (use m in auto)
    ultimately show ?thesis by simp
  qed
qed simp

declare scan_cursor.simps [simp del]

fun commit_advances ::
  "(partition_key, int) dict \<Rightarrow> (partition_key, (int, 'e consumed_event) dict) dict \<Rightarrow>
   (partition_key \<times> int \<times> int) list" where
  "commit_advances nxt [] = []"
| "commit_advances nxt ((key, pending) # rest) =
     (case dict_get nxt key of
        None \<Rightarrow> commit_advances nxt rest
      | Some start \<Rightarrow>
          (let cursor = scan_cursor pending start
           in if start < cursor then (key, start, cursor) # commit_advances nxt rest
              else commit_advances nxt rest))"

definition pop_range :: "int \<Rightarrow> int \<Rightarrow> (int, 'v) dict \<Rightarrow> (int, 'v) dict" where
  "pop_range start cursor p = fold dict_pop [start..cursor - 1] p"

definition apply_advance :: "partition_key \<times> int \<times> int \<Rightarrow> 'e bridge \<Rightarrow> 'e bridge" where
  "apply_advance a b =
     (let (key, start, cursor) = a;
          pending = (case dict_get (br_pending b) key of None \<Rightarrow> [] | Some m \<Rightarrow> m)
      in b\<lparr>br_pending := dict_set key (pop_range start cursor pending) (br_pending b),
           br_next_commit := dict_set key cursor (br_next_commit b)\<rparr>)"

definition take_acknowledgements :: "'e bridge \<Rightarrow> 'e bridge" where
  "take_acknowledgements b =
     b\<lparr>br_pending := fold record_ack (br_acknowledgements b) (br_pending b),
       br_acknowledgements := []\<rparr>"

definition commit_offsets :: "(partition_key \<times> int \<times> int) list \<Rightarrow> (partition_key \<times> int) list" where
  "commit_offsets advances = map (\<lambda>(key, start, cursor). (key, cursor)) advances"

text \<open>
  One \<open>_drain_acknowledgements\<close>: the offsets handed to \<open>consumer.commit\<close> (none where
  it is not called) and the bridge afterwards. The argument says whether the commit
  returned; a commit that raised leaves the bridge to try again.
\<close>

definition drain_acknowledgements ::
  "bool \<Rightarrow> 'e bridge \<Rightarrow> (partition_key \<times> int) list \<times> 'e bridge" where
  "drain_acknowledgements commit_returns b =
     (let b1 = take_acknowledgements b;
          advances = commit_advances (br_next_commit b1) (br_pending b1)
      in if advances = [] then ([], b1)
         else (commit_offsets advances,
               if commit_returns then fold apply_advance advances b1 else b1))"

section \<open>The consumer thread\<close>

datatype 'raw poll_result =
    PollNone
  | PollError
  | PollMessage 'raw string int int

datatype 'e loop_turn = KeepPolling | HandOff "'e consumed_event" | LeaveLoop

text \<open>
  One turn of \<open>_consume_loop\<close> up to the handoff. A message that does not parse is
  logged and skipped: it is neither tracked nor handed off.
\<close>

definition consume_turn ::
  "('raw \<Rightarrow> 'e option) \<Rightarrow> bool \<Rightarrow> 'raw poll_result \<Rightarrow> 'e bridge \<Rightarrow>
   'e loop_turn \<times> (partition_key \<times> int) list \<times> 'e bridge" where
  "consume_turn parse commit_returns poll b =
     (if br_stop b then (LeaveLoop, [], b)
      else let (commits, b1) = drain_acknowledgements commit_returns b
      in case poll of
           PollNone \<Rightarrow> (KeepPolling, commits, b1)
         | PollError \<Rightarrow> (KeepPolling, commits, b1)
         | PollMessage raw topic part offset \<Rightarrow>
             (case parse raw of
                None \<Rightarrow> (KeepPolling, commits, b1)
              | Some e \<Rightarrow>
                  (let c = \<lparr>ce_event = e, ce_topic = topic, ce_partition = part, ce_offset = offset\<rparr>
                   in (HandOff c, commits, track_consumed c b1))))"

section \<open>Facts on the handoff\<close>

lemma next_consumed_Some:
  "next_consumed b = Some (c, b') \<Longrightarrow>
     q_items (br_queue b) = c # q_items (br_queue b') \<and> b' = b\<lparr>br_queue := br_queue b'\<rparr> \<and>
     q_max (br_queue b') = q_max (br_queue b)"
  by (auto simp: next_consumed_def dest!: get_nowait_Some split: option.splits)

text \<open>
  What the put has added to the queue between two points of the handoff.
\<close>

definition put_between :: "'e handoff \<Rightarrow> 'e handoff \<Rightarrow> 'e consumed_event list" where
  "put_between h h' = (if \<not> ho_done h \<and> ho_done h' then [ho_item h] else [])"

definition handoff_grows :: "'e handoff \<Rightarrow> 'e handoff \<Rightarrow> bool" where
  "handoff_grows h h' \<longleftrightarrow> ho_item h' = ho_item h \<and> (ho_done h \<longrightarrow> ho_done h')"

lemma put_between_trans:
  "handoff_grows h h1 \<Longrightarrow> handoff_grows h1 h2 \<Longrightarrow>
     put_between h h1 @ put_between h1 h2 = put_between h h2 \<and> handoff_grows h h2"
  by (auto simp: put_between_def handoff_grows_def)

lemma put_between_refl [simp]: "put_between h h = []" "handoff_grows h h"
  by (simp_all add: put_between_def handoff_grows_def)

lemma handoff_step_queue:
  assumes "handoff_step ev h b = (r, h', b')" "wf_queue n (br_queue b)" "0 < n"
  shows "q_items (br_queue b') = q_items (br_queue b) @ put_between h h'
      \<and> wf_queue n (br_queue b') \<and> handoff_grows h h'
      \<and> (r = Some True \<longrightarrow> ho_done h') \<and> b' = b\<lparr>br_queue := br_queue b'\<rparr>"
proof (cases ev)
  case LoopPuts
  show ?thesis
  proof (cases "put_nowait (ho_item h) (br_queue b)")
    case None
    with LoopPuts assms show ?thesis by (auto split: if_splits)
  next
    case (Some q)
    then have "q_items q = q_items (br_queue b) @ [ho_item h] \<and> wf_queue n q"
      using bq.put_within [of "ho_item h" "br_queue b" q] assms(2,3) by (auto simp: wf_queue_def)
    with LoopPuts Some assms show ?thesis
      by (auto simp: put_between_def handoff_grows_def split: if_splits)
  qed
qed (use assms in \<open>auto simp: put_between_def handoff_grows_def split: if_splits\<close>)

lemma handoff_run_queue:
  "handoff_run ts h b = (r, taken, h', b') \<Longrightarrow> wf_queue n (br_queue b) \<Longrightarrow> 0 < n \<Longrightarrow>
    taken @ q_items (br_queue b') = q_items (br_queue b) @ put_between h h'
    \<and> wf_queue n (br_queue b') \<and> handoff_grows h h' \<and> (r = Some True \<longrightarrow> ho_done h')"
proof (induction ts h b arbitrary: r taken h' b' rule: handoff_run.induct)
  case (1 h b)
  then show ?case by simp
next
  case (2 ev ts h b)
  obtain r1 h1 b1 where s: "handoff_step ev h b = (r1, h1, b1)" by (cases "handoff_step ev h b")
  note q = handoff_step_queue [OF s "2.prems"(2,3)]
  show ?case
  proof (cases r1)
    case (Some v)
    with s "2.prems"(1) have "r = Some v" "taken = []" "h' = h1" "b' = b1" by auto
    with q Some show ?thesis by simp
  next
    case None
    with s "2.prems"(1) have "handoff_run ts h1 b1 = (r, taken, h', b')" by simp
    from "2.IH" [OF s [symmetric] None refl this] q "2.prems"(3)
    have i: "taken @ q_items (br_queue b') = q_items (br_queue b1) @ put_between h1 h'"
      "wf_queue n (br_queue b')" "handoff_grows h1 h'" "r = Some True \<longrightarrow> ho_done h'" by auto
    with q put_between_trans [of h h1 h'] show ?thesis by simp
  qed
next
  case (3 ts h b)
  show ?case
  proof (cases "next_consumed b")
    case None
    with 3 show ?thesis by simp
  next
    case (Some cb)
    then obtain c b1 where n: "next_consumed b = Some (c, b1)" by (cases cb) auto
    from "3.prems"(1) n obtain taken1 where
      t: "handoff_run ts h b1 = (r, taken1, h', b')" "taken = c # taken1"
      by (auto split: prod.splits)
    have "wf_queue n (br_queue b1)" using next_consumed_Some [OF n] "3.prems"(2)
      by (auto simp: wf_queue_def)
    with "3.IH"(2) [OF n refl t(1)] next_consumed_Some [OF n] t(2) "3.prems"(3)
    show ?thesis by simp
  qed
next
  case (4 ts h b)
  then show ?case by (simp add: stop_bridge_def)
qed

text \<open>
  C30. The handoff applies backpressure and neither drops nor reorders: whatever happens
  while it waits, the bounded queue never exceeds its 10,000 slots, what the engine took
  meanwhile followed by what is queued is the old queue with at most the item behind it,
  and a handoff that reports success has put the item exactly once.
\<close>

theorem handoff_keeps_order:
  assumes "handoff ts c b = (r, taken, b')" "wf_queue 10000 (br_queue b)"
  shows "wf_queue 10000 (br_queue b') \<and>
    (taken @ q_items (br_queue b') = q_items (br_queue b) \<and> r \<noteq> Some True \<or>
     taken @ q_items (br_queue b') = q_items (br_queue b) @ [c])"
proof (cases "start_handoff c b")
  case None
  with assms show ?thesis by (auto simp: handoff_def)
next
  case (Some h)
  then have h: "ho_item h = c" "\<not> ho_done h" by (auto simp: start_handoff_def split: if_splits)
  from assms(1) Some obtain h' where "handoff_run ts h b = (r, taken, h', b')"
    by (auto simp: handoff_def split: prod.splits)
  from handoff_run_queue [OF this assms(2)] h show ?thesis
    by (auto simp: put_between_def split: if_splits)
qed

section \<open>Facts on the drain\<close>

lemma scan_cursor_ge: "start \<le> scan_cursor p start"
proof (induction p start rule: scan_cursor.induct)
  case (1 p c)
  then show ?case by (subst scan_cursor.simps) auto
qed

lemma scan_cursor_run: "start \<le> i \<Longrightarrow> i < scan_cursor p start \<Longrightarrow> dict_get p i \<noteq> None"
proof (induction p start rule: scan_cursor.induct)
  case (1 p c)
  show ?case
  proof (cases "dict_get p c = None")
    case True
    with 1(3) have "i < c" by (subst (asm) scan_cursor.simps) simp
    with 1(2) show ?thesis by simp
  next
    case False
    with 1(3) have "i < scan_cursor p (c + 1)" by (subst (asm) scan_cursor.simps) simp
    with 1 False show ?thesis by (cases "i = c") auto
  qed
qed

lemma scan_cursor_stop: "dict_get p (scan_cursor p start) = None"
proof (induction p start rule: scan_cursor.induct)
  case (1 p c)
  show ?case
  proof (cases "dict_get p c = None")
    case True
    then show ?thesis by (subst scan_cursor.simps) simp
  next
    case False
    with 1 show ?thesis by (subst scan_cursor.simps) simp
  qed
qed

lemma commit_advances_mem:
  "(key, start, cursor) \<in> set (commit_advances nxt p) \<longleftrightarrow>
     (\<exists>m. (key, m) \<in> set p \<and> dict_get nxt key = Some start \<and> cursor = scan_cursor m start \<and> start < cursor)"
proof (induction nxt p rule: commit_advances.induct)
  case (2 nxt key' pending rest)
  show ?case
    by (cases "dict_get nxt key'") (use 2 in \<open>auto simp: Let_def\<close>)
qed simp

lemma commit_advances_keys: "subseq (map fst (commit_advances nxt p)) (dict_keys p)"
proof (induction nxt p rule: commit_advances.induct)
  case (2 nxt key' pending rest)
  show ?case
    by (cases "dict_get nxt key'") (use 2 in \<open>auto simp: Let_def dict_keys_def\<close>)
qed simp

definition pending_get ::
  "(partition_key, (int, 'e consumed_event) dict) dict \<Rightarrow> partition_key \<Rightarrow> int \<Rightarrow> 'e consumed_event option" where
  \<comment> \<open>an acknowledgement the bridge holds, looked up\<close>
  "pending_get p key = (case dict_get p key of None \<Rightarrow> (\<lambda>_. None) | Some m \<Rightarrow> dict_get m)"

definition wf_bridge :: "'e bridge \<Rightarrow> bool" where
  "wf_bridge b \<longleftrightarrow>
     wf_queue 10000 (br_queue b) \<and> wf_dict (br_pending b) \<and> wf_dict (br_next_commit b)"

definition acked :: "'e bridge \<Rightarrow> partition_key \<Rightarrow> int set" where
  \<comment> \<open>the offsets acknowledged and not yet committed: held, or still in the thread-safe queue\<close>
  "acked b key =
     {i. pending_get (br_pending b) key i \<noteq> None} \<union>
     {i. \<exists>c \<in> set (br_acknowledgements b). ce_key c = key \<and> ce_offset c = i}"

definition first_gap :: "int set \<Rightarrow> int \<Rightarrow> int \<Rightarrow> bool" where
  "first_gap A s n \<longleftrightarrow> s \<le> n \<and> {s..<n} \<subseteq> A \<and> n \<notin> A"

lemma first_gap_unique: "first_gap A s n \<Longrightarrow> first_gap A s m \<Longrightarrow> m = n"
  unfolding first_gap_def by (metis atLeastLessThan_iff linorder_neqE subsetD)

lemma first_gap_past: "first_gap A s m \<Longrightarrow> {s..<n} \<subseteq> A \<Longrightarrow> n \<le> max s m"
  unfolding first_gap_def by (cases "m < n") auto

lemma scan_cursor_first_gap: "first_gap {i. dict_get p i \<noteq> None} s (scan_cursor p s)"
  using scan_cursor_ge [of s p] scan_cursor_run [of s _ p] scan_cursor_stop [of p s]
  by (auto simp: first_gap_def)

lemma pending_get_record_ack:
  "pending_get (record_ack c p) key i =
     (if key = ce_key c \<and> i = ce_offset c then Some c else pending_get p key i)"
  by (auto simp: pending_get_def record_ack_def Let_def dict_get_set split: option.splits)

lemma pending_get_fold:
  "pending_get (fold record_ack cs p) key i \<noteq> None \<longleftrightarrow>
     pending_get p key i \<noteq> None \<or> (\<exists>c \<in> set cs. ce_key c = key \<and> ce_offset c = i)"
proof (induction cs arbitrary: p)
  case (Cons c cs)
  have e: "(\<exists>c' \<in> set (c # cs). ce_key c' = key \<and> ce_offset c' = i) \<longleftrightarrow>
    (key = ce_key c \<and> i = ce_offset c) \<or> (\<exists>c' \<in> set cs. ce_key c' = key \<and> ce_offset c' = i)" by auto
  show ?case
    unfolding e using Cons.IH [of "record_ack c p"]
    by (simp only: fold_simps comp_apply pending_get_record_ack [of c p key i] split: if_splits) auto
qed simp

lemma wf_record_ack [simp]: "wf_dict p \<Longrightarrow> wf_dict (record_ack c p)"
  by (simp add: record_ack_def Let_def)

lemma wf_fold_record_ack: "wf_dict p \<Longrightarrow> wf_dict (fold record_ack cs p)"
  by (induction cs arbitrary: p) auto

lemma wf_take_acknowledgements: "wf_bridge b \<Longrightarrow> wf_bridge (take_acknowledgements b)"
  by (simp add: wf_bridge_def take_acknowledgements_def wf_fold_record_ack)

lemma acked_take: "acked (take_acknowledgements b) key = acked b key"
  unfolding acked_def take_acknowledgements_def using pending_get_fold [of "br_acknowledgements b"]
  by auto

lemma take_next [simp]: "br_next_commit (take_acknowledgements b) = br_next_commit b"
  "br_acknowledgements (take_acknowledgements b) = []"
  "br_queue (take_acknowledgements b) = br_queue b"
  by (simp_all add: take_acknowledgements_def)

lemma acked_no_acks: "br_acknowledgements b = [] \<Longrightarrow> acked b key = {i. pending_get (br_pending b) key i \<noteq> None}"
  by (simp add: acked_def)

text \<open>The advances of a bridge whose acknowledgements have been taken, abstractly.\<close>

lemma commit_advances_spec:
  assumes "wf_bridge b" "br_acknowledgements b = []"
  shows "(key, s, n) \<in> set (commit_advances (br_next_commit b) (br_pending b)) \<longleftrightarrow>
    dict_get (br_next_commit b) key = Some s \<and> s < n \<and> first_gap (acked b key) s n"
proof (cases "dict_get (br_pending b) key")
  case None
  then have "acked b key = {}" using assms(2) by (simp add: acked_def pending_get_def)
  moreover have "\<And>m. (key, m) \<notin> set (br_pending b)"
    using None assms(1) by (auto simp: wf_bridge_def dict_get_in_set)
  ultimately show ?thesis by (auto simp: commit_advances_mem first_gap_def)
next
  case (Some m)
  then have a: "acked b key = {i. dict_get m i \<noteq> None}"
    using assms(2) by (simp add: acked_def pending_get_def)
  have m: "(key, m') \<in> set (br_pending b) \<longleftrightarrow> m' = m" for m'
    using Some assms(1) by (auto simp: wf_bridge_def dict_get_in_set)
  have g: "first_gap (acked b key) s n \<longleftrightarrow> n = scan_cursor m s"
    using scan_cursor_first_gap [of m s] first_gap_unique unfolding a by blast
  show ?thesis unfolding commit_advances_mem m g by auto
qed

lemma distinct_advances:
  "wf_dict p \<Longrightarrow> distinct (map fst (commit_advances nxt p))"
  using subseq_distinct [OF commit_advances_keys [of nxt p]]
  by (simp add: wf_dict_def dict_keys_def)

lemma fold_dict_pop_get:
  "dict_get (fold dict_pop ks p) i = (if i \<in> set ks then None else dict_get p i)"
  by (induction ks arbitrary: p) (auto simp: dict_get_pop)

lemma pop_range_get:
  "dict_get (pop_range s n p) i = (if s \<le> i \<and> i < n then None else dict_get p i)"
  by (simp add: pop_range_def fold_dict_pop_get)

lemma apply_advance_effect:
  "br_next_commit (apply_advance (key, s, n) b) = dict_set key n (br_next_commit b)"
  "br_acknowledgements (apply_advance a b) = br_acknowledgements b"
  "br_queue (apply_advance a b) = br_queue b"
  "pending_get (br_pending (apply_advance (key, s, n) b)) key' i =
     (if key' = key \<and> s \<le> i \<and> i < n then None else pending_get (br_pending b) key' i)"
  by (auto simp: apply_advance_def Let_def split_def pending_get_def dict_get_set pop_range_get
      split: option.splits)

lemma wf_apply_advance: "wf_bridge b \<Longrightarrow> wf_bridge (apply_advance a b)"
  by (simp add: wf_bridge_def apply_advance_def Let_def split_def)

lemma fold_apply_advance:
  "distinct (map fst as) \<Longrightarrow>
     br_acknowledgements (fold apply_advance as b) = br_acknowledgements b \<and>
     br_queue (fold apply_advance as b) = br_queue b \<and>
     (wf_bridge b \<longrightarrow> wf_bridge (fold apply_advance as b)) \<and>
     dict_get (br_next_commit (fold apply_advance as b)) key =
       (case dict_get as key of None \<Rightarrow> dict_get (br_next_commit b) key | Some (s, n) \<Rightarrow> Some n) \<and>
     pending_get (br_pending (fold apply_advance as b)) key i =
       (case dict_get as key of
          None \<Rightarrow> pending_get (br_pending b) key i
        | Some (s, n) \<Rightarrow> if s \<le> i \<and> i < n then None else pending_get (br_pending b) key i)"
proof (induction as arbitrary: b)
  case (Cons a as)
  obtain k s n where a: "a = (k, s, n)" by (cases a) auto
  from Cons.prems a have "dict_get as k = None"
    by (auto simp: dict_get_None_iff dict_keys_def)
  with Cons.IH [of "apply_advance a b"] Cons.prems a show ?case
    by (auto simp: apply_advance_effect wf_apply_advance dict_get_Cons dict_get_set split: option.splits)
qed simp

lemma drain_facts:
  assumes "wf_bridge b" "drain_acknowledgements ok b = (commits, b')"
  shows "distinct (map fst commits)" and "wf_bridge b'" and "br_acknowledgements b' = []"
    and "(key, n) \<in> set commits \<longleftrightarrow>
      (\<exists>s. dict_get (br_next_commit b) key = Some s \<and> s < n \<and> first_gap (acked b key) s n)"
    and "ok \<Longrightarrow> (key, n) \<in> set commits \<Longrightarrow> dict_get (br_next_commit b') key = Some n"
    and "ok \<Longrightarrow> (key, n) \<in> set commits \<Longrightarrow>
       acked b' key = acked b key - {the (dict_get (br_next_commit b) key)..<n}"
    and "\<not> (ok \<and> key \<in> fst ` set commits) \<Longrightarrow>
       dict_get (br_next_commit b') key = dict_get (br_next_commit b) key"
    and "\<not> (ok \<and> key \<in> fst ` set commits) \<Longrightarrow> acked b' key = acked b key"
proof -
  let ?b1 = "take_acknowledgements b"
  let ?as = "commit_advances (br_next_commit ?b1) (br_pending ?b1)"
  have w: "wf_bridge ?b1" using assms(1) by (rule wf_take_acknowledgements)
  then have d: "distinct (map fst ?as)" by (intro distinct_advances) (simp add: wf_bridge_def)
  have c: "commits = commit_offsets ?as"
    using assms(2) by (auto simp: drain_acknowledgements_def Let_def commit_offsets_def split: if_splits)
  have b': "b' = (if ok then fold apply_advance ?as ?b1 else ?b1)"
    using assms(2) by (auto simp: drain_acknowledgements_def Let_def split: if_splits)
  have spec: "(key, s, n) \<in> set ?as \<longleftrightarrow>
      dict_get (br_next_commit b) key = Some s \<and> s < n \<and> first_gap (acked b key) s n" for s n
    using commit_advances_spec [OF w, of key s n] by (simp add: acked_take)
  have mem: "(key, n) \<in> set commits \<longleftrightarrow> (\<exists>s. (key, s, n) \<in> set ?as)" for n
    unfolding c commit_offsets_def by force
  have dc: "distinct (map fst commits)"
    using d by (simp add: c commit_offsets_def comp_def split_def)
  have keys: "key \<in> fst ` set commits \<longleftrightarrow> dict_get ?as key \<noteq> None"
    unfolding c commit_offsets_def dict_get_None_iff dict_keys_def by force
  note f = fold_apply_advance [OF d, of ?b1]
  have acks: "br_acknowledgements b' = []" and w': "wf_bridge b'"
    using f w by (auto simp: b')
  have get: "dict_get ?as key = Some (s, n) \<longleftrightarrow> (key, s, n) \<in> set ?as" for s n
    using d dict_get_in_set [of ?as key "(s, n)"] by (simp add: wf_dict_def)
  have same: "dict_get (br_next_commit b') key = dict_get (br_next_commit b) key \<and>
      acked b' key = acked b key" if "\<not> (ok \<and> key \<in> fst ` set commits)"
  proof (cases ok)
    case True
    with that keys have "dict_get ?as key = None" by blast
    with f True show ?thesis by (simp add: b' acked_no_acks flip: acked_take [of b])
  next
    case False
    then show ?thesis by (simp add: b' acked_take)
  qed
  have adv: "dict_get (br_next_commit b') key = Some n \<and>
       acked b' key = acked b key - {the (dict_get (br_next_commit b) key)..<n}"
    if "ok" "(key, n) \<in> set commits"
  proof -
    from that mem obtain s where s: "(key, s, n) \<in> set ?as" by auto
    then have "dict_get ?as key = Some (s, n)" by (rule iffD2 [OF get])
    with f have "dict_get (br_next_commit b') key = Some n"
      "\<And>i. pending_get (br_pending b') key i = (if s \<le> i \<and> i < n then None
        else pending_get (br_pending ?b1) key i)"
      using that(1) by (auto simp: b')
    moreover from this acks have "acked b' key = acked ?b1 key - {s..<n}"
      by (auto simp: acked_no_acks)
    ultimately show ?thesis using s spec by (simp add: acked_take)
  qed
  show "distinct (map fst commits)" "wf_bridge b'" "br_acknowledgements b' = []"
    by (rule dc, rule w', rule acks)
  show "(key, n) \<in> set commits \<longleftrightarrow>
      (\<exists>s. dict_get (br_next_commit b) key = Some s \<and> s < n \<and> first_gap (acked b key) s n)"
    using mem spec by auto
  show "ok \<Longrightarrow> (key, n) \<in> set commits \<Longrightarrow> dict_get (br_next_commit b') key = Some n"
    "ok \<Longrightarrow> (key, n) \<in> set commits \<Longrightarrow>
       acked b' key = acked b key - {the (dict_get (br_next_commit b) key)..<n}"
    "\<not> (ok \<and> key \<in> fst ` set commits) \<Longrightarrow>
       dict_get (br_next_commit b') key = dict_get (br_next_commit b) key"
    "\<not> (ok \<and> key \<in> fst ` set commits) \<Longrightarrow> acked b' key = acked b key"
    using adv same by auto
qed

text \<open>
  C6. What one drain commits, exactly. It commits at most one offset per partition, and
  commits \<open>n\<close> for a partition just when \<open>n\<close> ends a non-empty run of
  acknowledged offsets that starts at the last commit: every offset in between is
  acknowledged, \<open>n\<close> itself is not. A commit that raised loses nothing; one that
  returned moves the partition to \<open>n\<close> and forgets exactly the run.
\<close>

theorem drain_commits_first_gap:
  assumes "wf_bridge b" "drain_acknowledgements ok b = (commits, b')"
  shows "distinct (map fst commits) \<and>
    ((key, n) \<in> set commits \<longleftrightarrow>
      (\<exists>s. dict_get (br_next_commit b) key = Some s \<and> s < n \<and> first_gap (acked b key) s n)) \<and>
    (ok \<and> (key, n) \<in> set commits \<longrightarrow>
       dict_get (br_next_commit b') key = Some n \<and>
       acked b' key = acked b key - {the (dict_get (br_next_commit b) key)..<n}) \<and>
    (\<not> ok \<or> key \<notin> fst ` set commits \<longrightarrow>
       dict_get (br_next_commit b') key = dict_get (br_next_commit b) key \<and>
       acked b' key = acked b key)"
  using drain_facts [OF assms] by blast

text \<open>An acknowledged run is committed by the next drain whose commit returns.\<close>

lemma drain_progress:
  assumes "wf_bridge b" "dict_get (br_next_commit b) key = Some s" "{s..<n} \<subseteq> acked b key"
    "drain_acknowledgements True b = (commits, b')"
  shows "\<exists>m. dict_get (br_next_commit b') key = Some m \<and> n \<le> m"
proof -
  let ?b1 = "take_acknowledgements b"
  let ?p = "case dict_get (br_pending ?b1) key of None \<Rightarrow> [] | Some m \<Rightarrow> m"
  let ?m = "scan_cursor ?p s"
  have "acked ?b1 key = {i. dict_get ?p i \<noteq> None}"
    by (simp add: acked_def pending_get_def split: option.split)
  then have a: "acked b key = {i. dict_get ?p i \<noteq> None}" by (simp add: acked_take)
  have g: "first_gap (acked b key) s ?m" unfolding a by (rule scan_cursor_first_gap)
  have n: "n \<le> max s ?m" by (rule first_gap_past [OF g assms(3)])
  show ?thesis
  proof (cases "s < ?m")
    case True
    with assms(2) g have "(key, ?m) \<in> set commits" by (simp add: drain_facts(4) [OF assms(1,4)])
    with drain_facts(5) [OF assms(1,4)] n True show ?thesis by auto
  next
    case False
    then have "\<And>k. \<not> (s < k \<and> first_gap (acked b key) s k)" using first_gap_unique [OF g] by auto
    then have "key \<notin> fst ` set commits"
      using drain_facts(4) [OF assms(1,4), of key] assms(2) by auto
    with drain_facts(7) [OF assms(1,4), of key] assms(2) n False
    show ?thesis by auto
  qed
qed

section \<open>Witnesses\<close>

definition sample_consumed :: "int \<Rightarrow> nat consumed_event" where
  "sample_consumed i = \<lparr>ce_event = 0, ce_topic = ''t'', ce_partition = 0, ce_offset = i\<rparr>"

definition acked_bridge :: "nat bridge" where
  \<comment> \<open>offsets 5, 6 and 8 are acknowledged, 7 is not; the partition starts at 5\<close>
  "acked_bridge =
     (fold acknowledge [sample_consumed 6, sample_consumed 8, sample_consumed 5]
       (track_consumed (sample_consumed 5) (start_bridge new_bridge)))"

lemma sample_consumed_simps [simp]:
  "ce_key (sample_consumed i) = (''t'', 0)" "ce_offset (sample_consumed i) = i"
  by (simp_all add: sample_consumed_def ce_key_def)

lemma wf_start_bridge [simp]: "wf_bridge (start_bridge new_bridge)"
  by (simp add: wf_bridge_def start_bridge_def new_bridge_def)

lemma acked_bridge_simps [simp]:
  "br_next_commit acked_bridge = [((''t'', 0), 5)]"
  "br_acknowledgements acked_bridge = [sample_consumed 6, sample_consumed 8, sample_consumed 5]"
  "br_pending acked_bridge = []"
  "wf_bridge acked_bridge"
  by (simp_all add: acked_bridge_def acknowledge_def track_consumed_def start_bridge_def new_bridge_def
      dict_setdefault_def dict_set_def wf_bridge_def wf_dict_def)

theorem handoff_keeps_order_witness:
  "handoff [Own ThreadRuns, Own ThreadRuns, Own ThreadRuns, Own LoopPuts, EngineTakes, Own ThreadRuns]
      (sample_consumed 5) (start_bridge new_bridge)
    = (Some True, [sample_consumed 5], start_bridge new_bridge)
   \<and> wf_queue 10000 (br_queue (start_bridge new_bridge :: nat bridge))"
proof -
  have e: "handoff [Own ThreadRuns, Own ThreadRuns, Own ThreadRuns, Own LoopPuts, EngineTakes, Own ThreadRuns]
      (sample_consumed 5) (start_bridge new_bridge)
    = (Some True, [sample_consumed 5], start_bridge new_bridge)"
    by (simp add: handoff_def start_handoff_def start_bridge_def new_bridge_def put_nowait_def
        queue_full_def new_queue_def next_consumed_def get_nowait_def)
  show ?thesis
    using e handoff_keeps_order [OF e] wf_start_bridge unfolding wf_bridge_def by blast
qed

theorem drain_commits_first_gap_witness:
  "((''t'', 0), 7) \<in> set (fst (drain_acknowledgements True acked_bridge))"
proof -
  obtain commits b' where d: "drain_acknowledgements True acked_bridge = (commits, b')"
    by (cases "drain_acknowledgements True acked_bridge")
  have a: "acked acked_bridge (''t'', 0) = {6, 8, 5}"
    by (auto simp: acked_def pending_get_def)
  have "{5..<7} = {5, 6 :: int}" by auto
  then have "first_gap (acked acked_bridge (''t'', 0)) 5 7" by (simp add: a first_gap_def)
  with drain_commits_first_gap [OF acked_bridge_simps(4) d, of "(''t'', 0)" 7] d
  show ?thesis by (simp add: dict_get_Cons)
qed

end
