(* ===== verification/Backoff.thy ===== *)
theory Backoff
  imports Py_Float
begin

text \<open>
  The retry delay every retrying loop of the platform uses: it starts at a constant,
  doubles after each failure and is cut off at a cap
  (\<open>backoff = min(backoff * 2, cap)\<close>). The engine's Redis retry, the tick writer's two
  retry loops, the gateway's Pub/Sub reconnect and its subscription attempts instantiate
  \<open>capped_backoff\<close> with their own constants; the lemmas on the whole sequence of delays
  are proved here once.
\<close>

definition next_backoff :: "pyfloat \<Rightarrow> pyfloat \<Rightarrow> pyfloat" where
  "next_backoff cap b = f_min (f_mul b (Fin 2)) cap"

definition min_delay :: pyfloat where
  \<comment> \<open>a delay far below every constant of the platform, above the subnormal range\<close>
  "min_delay = Fin (pow2 (- 1000))"

locale capped_backoff =
  fixes nxt :: "pyfloat \<Rightarrow> pyfloat" and start :: pyfloat and cap :: pyfloat
  assumes start_low: "min_delay \<le> start"
    and start_cap: "start \<le> cap"
    and nxt_grows: "min_delay \<le> b \<Longrightarrow> b \<le> cap \<Longrightarrow> b \<le> nxt b"
    and nxt_cap: "b \<le> cap \<Longrightarrow> nxt b \<le> cap"
begin

lemma delay_bounds: "min_delay \<le> (nxt ^^ n) start \<and> (nxt ^^ n) start \<le> cap"
proof (induction n)
  case 0
  then show ?case by (simp add: start_low start_cap)
next
  case (Suc n)
  then show ?case using nxt_grows [of "(nxt ^^ n) start"] nxt_cap [of "(nxt ^^ n) start"]
    by (auto intro: order_trans)
qed

lemma delay_Suc: "(nxt ^^ n) start \<le> (nxt ^^ Suc n) start"
  using delay_bounds [of n] nxt_grows by simp

lemma delay_mono: "m \<le> n \<Longrightarrow> (nxt ^^ m) start \<le> (nxt ^^ n) start"
  by (rule lift_Suc_mono_le [of "\<lambda>n. (nxt ^^ n) start"]) (rule delay_Suc)

lemma delays_capped: "\<forall>d \<in> set (map (\<lambda>k. (nxt ^^ k) start) [0..<n]). d \<le> cap"
  using delay_bounds by simp

end

lemma double_ge:
  assumes "pow2 (- 1000) \<le> x"
  shows "x \<le> gridv (x * 2)"
proof -
  have x: "0 < x" using assms pow2_pos [of "- 1000"] by linarith
  let ?e = "ilog2 (x * 2)"
  have b: "pow2 ?e \<le> x * 2" "x * 2 < pow2 (?e + 1)" using ilog2_bounds [of "x * 2"] x by auto
  have "pow2 (?e + 1) = 2 * pow2 ?e" by (simp add: pow2_add pow2_def [of 1])
  with b have xe: "x < pow2 ?e" by linarith
  have "pow2 (- 1000) < pow2 ?e" using assms xe by linarith
  then have "- 1000 < ?e" by (rule pow2_less_imp_less)
  then have q: "qexp (x * 2) \<le> ?e" using x by (simp add: qexp_def)
  have "pow2 ?e \<le> gridv (x * 2)"
    using grid_ge [of _ "qexp (x * 2)" "x * 2"] b(1) x pow2_multiple [OF q]
    by (simp add: gridv_def)
  with xe show ?thesis by linarith
qed

lemma next_backoff_capped:
  assumes "cap = Fin c"
  shows "b \<le> cap \<Longrightarrow> next_backoff cap b \<le> cap"
    and "min_delay \<le> b \<Longrightarrow> b \<le> cap \<Longrightarrow> b \<le> next_backoff cap b"
proof -
  assume "b \<le> cap"
  then have "f_mul b (Fin 2) \<noteq> NaN" using assms by (cases b) (auto simp: f_sgn_inf_def)
  then show "next_backoff cap b \<le> cap"
    using assms f_min_le [of "f_mul b (Fin 2)" cap] by (simp add: next_backoff_def)
next
  assume a: "min_delay \<le> b" "b \<le> cap"
  then obtain x where b: "b = Fin x" "pow2 (- 1000) \<le> x"
    using assms by (cases b) (auto simp: min_delay_def)
  have "Fin x \<le> fl (x * 2)"
  proof -
    have "x \<le> gridv (x * 2)" "- pow2 1024 < gridv (x * 2)"
      using double_ge [OF b(2)] pow2_pos [of 1024] b(2) pow2_pos [of "- 1000"] by linarith+
    then show ?thesis by (auto simp: fl_def Let_def)
  qed
  with a b show "b \<le> next_backoff cap b" by (simp add: next_backoff_def f_min_def)
qed

lemma min_delay_le: "1 / 2 ^ 20 \<le> x \<Longrightarrow> min_delay \<le> Fin x"
proof -
  have "pow2 (- 1000) \<le> pow2 (- 20)" by (rule pow2_mono) simp
  then show "1 / 2 ^ 20 \<le> x \<Longrightarrow> ?thesis" by (simp add: min_delay_def pow2_def [of "- 20"])
qed

text \<open>The constants of the code, as the floats Python reads them to be.\<close>

definition f_0_1 :: pyfloat where "f_0_1 = fl (1 / 10)"

definition f_0_05 :: pyfloat where "f_0_05 = fl (1 / 20)"

definition f_0_5 :: pyfloat where "f_0_5 = Fin (1 / 2)"

definition f_5_0 :: pyfloat where "f_5_0 = Fin 5"

lemma f_0_1_bounds: "min_delay \<le> f_0_1 \<and> f_0_1 \<le> f_5_0 \<and> Fin (1/16) \<le> f_0_1 \<and> f_0_1 \<le> Fin (1/8)"
proof -
  have "fl (1/16) = Fin (1/16)" "fl (1/8) = Fin (1/8)"
    using fl_pow2 [of "- 4"] fl_pow2 [of "- 3"] by (simp_all add: pow2_def)
  with fl_mono [of "1/16" "1/10"] fl_mono [of "1/10" "1/8"]
  have "Fin (1/16) \<le> f_0_1" "f_0_1 \<le> Fin (1/8)" by (simp_all add: f_0_1_def)
  moreover have "min_delay \<le> Fin (1/16)" by (rule min_delay_le) simp
  moreover have "Fin (1/8) \<le> f_5_0" by (simp add: f_5_0_def)
  ultimately show ?thesis by (auto intro: order_trans)
qed

lemma f_0_05_bounds: "min_delay \<le> f_0_05 \<and> f_0_05 \<le> f_0_5"
proof -
  have "fl (1/16) = Fin (1/16)" "fl (1/32) = Fin (1/32)"
    using fl_pow2 [of "- 4"] fl_pow2 [of "- 5"] by (simp_all add: pow2_def)
  with fl_mono [of "1/32" "1/20"] fl_mono [of "1/20" "1/16"]
  have "Fin (1/32) \<le> f_0_05" "f_0_05 \<le> Fin (1/16)" by (simp_all add: f_0_05_def)
  moreover have "min_delay \<le> Fin (1/32)" by (rule min_delay_le) simp
  moreover have "Fin (1/16) \<le> f_0_5" by (simp add: f_0_5_def)
  ultimately show ?thesis by (auto intro: order_trans)
qed

interpretation seconds_backoff: capped_backoff "next_backoff f_5_0" f_0_1 f_5_0
  using f_0_1_bounds by unfold_locales (auto simp: f_5_0_def intro: next_backoff_capped)

interpretation subscribe_backoff: capped_backoff "next_backoff f_0_5" f_0_05 f_0_5
  using f_0_05_bounds by unfold_locales (auto simp: f_0_5_def intro: next_backoff_capped)

end
