(* ===== verification/Distribution_Engine.thy ===== *)
theory Distribution_Engine
  imports Kafka_Bridge Backoff
begin

text \<open>
  \<open>DistributionEngine\<close> of \<open>src/engine/engine.py\<close>: it takes events from the Kafka
  bridge one at a time, writes each to the snapshot store and publishes it, retries both
  while Redis fails, and acknowledges the event only then. The last section puts the engine
  and the consumer thread side by side as a step relation and proves what their
  interleavings preserve: an offset is committed only when every event before it has been
  processed.

  What Redis answers and how the wait between two attempts ends are arguments; the
  sequence of calls made to the store, each with how it ended, is part of each result.
\<close>

declare split_paired_All [simp del] split_paired_Ex [simp del]

definition KAFKA_TOPIC :: string where "KAFKA_TOPIC = ''market-events''"

definition REDIS_RETRY_INITIAL_SECONDS :: pyfloat where "REDIS_RETRY_INITIAL_SECONDS = f_0_1"

definition REDIS_RETRY_MAX_SECONDS :: pyfloat where "REDIS_RETRY_MAX_SECONDS = f_5_0"

record 'e engine =
  en_bridge :: "'e bridge"
  en_processed :: nat
  en_retries :: nat
  en_shutdown :: bool
  en_initial :: pyfloat
  en_max :: pyfloat

definition new_engine :: "pyfloat \<Rightarrow> pyfloat \<Rightarrow> 'e engine" where
  "new_engine initial mx =
     \<lparr>en_bridge = new_bridge, en_processed = 0, en_retries = 0, en_shutdown = False,
      en_initial = initial, en_max = mx\<rparr>"

definition engine_shutdown :: "'e engine \<Rightarrow> 'e engine" where
  "engine_shutdown eng = eng\<lparr>en_shutdown := True, en_bridge := stop_bridge (en_bridge eng)\<rparr>"

section \<open>Processing one event\<close>

datatype store_reply = StoreOk | StoreFails | StoreCancelled

text \<open>A call to the store together with how it ended.\<close>

datatype 'e store_call = UpdateSnapshot 'e store_reply | PublishEvent 'e store_reply

fun store_result :: "store_reply \<Rightarrow> unit result" where
  "store_result StoreOk = Inr ()"
| "store_result StoreFails = Inl (OtherError ''redis'')"
| "store_result StoreCancelled = Inl CancelledError"

definition process_event ::
  "store_reply \<Rightarrow> store_reply \<Rightarrow> 'e \<Rightarrow> 'e engine \<Rightarrow> unit result \<times> 'e store_call list \<times> 'e engine" where
  "process_event on_update on_publish e eng =
     (case store_result on_update of
        Inl exc \<Rightarrow> (Inl exc, [UpdateSnapshot e on_update], eng)
      | Inr _ \<Rightarrow>
          (case store_result on_publish of
             Inl exc \<Rightarrow> (Inl exc, [UpdateSnapshot e on_update, PublishEvent e on_publish], eng)
           | Inr _ \<Rightarrow> (Inr (), [UpdateSnapshot e on_update, PublishEvent e on_publish],
               eng\<lparr>en_processed := en_processed eng + 1\<rparr>)))"

text \<open>
  How \<open>wait_for(self._shutdown.wait(), timeout=backoff)\<close> ends: the time runs out,
  another task has set the flag, or the task itself is cancelled.
\<close>

datatype wait_outcome = WaitElapses | ShutdownSet | WaitCancelled

record attempt =
  at_update :: store_reply
  at_publish :: store_reply
  at_wait :: wait_outcome

text \<open>
  The retry loop along a list of attempts. Results: what it returns (\<^const>\<open>None\<close> while
  it is still retrying at the end of the list), the calls it made, the delays it waited.
\<close>

fun process_loop ::
  "attempt list \<Rightarrow> pyfloat \<Rightarrow> 'e consumed_event \<Rightarrow> 'e engine \<Rightarrow>
   bool result option \<times> 'e store_call list \<times> pyfloat list \<times> 'e engine" where
  "process_loop [] backoff c eng =
     ((if en_shutdown eng then Some (Inr False) else None), [], [], eng)"
| "process_loop (a # as) backoff c eng =
     (if en_shutdown eng then (Some (Inr False), [], [], eng)
      else case process_event (at_update a) (at_publish a) (ce_event c) eng of
        (Inr _, calls, eng1) \<Rightarrow>
          (Some (Inr True), calls, [], eng1\<lparr>en_bridge := acknowledge c (en_bridge eng1)\<rparr>)
      | (Inl exc, calls, eng1) \<Rightarrow>
          if exc = CancelledError then (Some (Inl exc), calls, [], eng1)
          else let eng2 = eng1\<lparr>en_retries := en_retries eng1 + 1\<rparr>
          in case at_wait a of
               WaitCancelled \<Rightarrow> (Some (Inl CancelledError), calls, [backoff], eng2)
             | ShutdownSet \<Rightarrow>
                 (case process_loop as backoff c (eng2\<lparr>en_shutdown := True\<rparr>) of
                    (r, calls', ds, eng') \<Rightarrow> (r, calls @ calls', backoff # ds, eng'))
             | WaitElapses \<Rightarrow>
                 (case process_loop as (next_backoff (en_max eng2) backoff) c eng2 of
                    (r, calls', ds, eng') \<Rightarrow> (r, calls @ calls', backoff # ds, eng')))"

definition process_consumed_event ::
  "attempt list \<Rightarrow> 'e consumed_event \<Rightarrow> 'e engine \<Rightarrow>
   bool result option \<times> 'e store_call list \<times> pyfloat list \<times> 'e engine" where
  "process_consumed_event as c eng = process_loop as (en_initial eng) c eng"

section \<open>The loop of the engine\<close>

datatype run_outcome = AwaitsEvent | StillRetrying | RunEnds | RunRaises py_exn

definition run_finally :: "'e engine \<Rightarrow> 'e engine" where
  "run_finally eng = eng\<lparr>en_bridge := stop_bridge (en_bridge eng)\<rparr>"

text \<open>\<open>run\<close> after the start, one list of attempts for each event it takes.\<close>

fun run_engine ::
  "attempt list list \<Rightarrow> 'e engine \<Rightarrow> run_outcome \<times> 'e store_call list \<times> 'e engine" where
  "run_engine ass eng =
     (case next_consumed (en_bridge eng) of
        None \<Rightarrow> (AwaitsEvent, [], eng)
      | Some (c, b) \<Rightarrow>
          (case ass of
             [] \<Rightarrow> (StillRetrying, [], eng\<lparr>en_bridge := b\<rparr>)
           | as # rest \<Rightarrow>
               (case process_consumed_event as c (eng\<lparr>en_bridge := b\<rparr>) of
                  (None, calls, ds, eng1) \<Rightarrow> (StillRetrying, calls, eng1)
                | (Some (Inl exc), calls, ds, eng1) \<Rightarrow> (RunRaises exc, calls, run_finally eng1)
                | (Some (Inr go_on), calls, ds, eng1) \<Rightarrow>
                    if go_on then
                      (case run_engine rest eng1 of (r, calls', eng') \<Rightarrow> (r, calls @ calls', eng'))
                    else (RunEnds, calls, run_finally eng1))))"

declare run_engine.simps [simp del]

section \<open>Facts\<close>

lemma process_event_cases:
  obtains (ok) "u = StoreOk" "p = StoreOk"
      "process_event u p e eng = (Inr (), [UpdateSnapshot e StoreOk, PublishEvent e StoreOk],
         eng\<lparr>en_processed := en_processed eng + 1\<rparr>)"
  | (raises) exc calls where "u \<noteq> StoreOk \<or> p \<noteq> StoreOk" "process_event u p e eng = (Inl exc, calls, eng)"
      "set calls \<subseteq> range (UpdateSnapshot e) \<union> range (PublishEvent e)"
      "exc = CancelledError \<longleftrightarrow> u = StoreCancelled \<or> u = StoreOk \<and> p = StoreCancelled"
  by (cases u; cases p) (auto simp: process_event_def)

lemma process_consumed_post:
  assumes "process_consumed_event as c eng = (r, calls, ds, eng')"
  shows "en_bridge eng' = (if r = Some (Inr True) then acknowledge c (en_bridge eng) else en_bridge eng)
    \<and> en_processed eng' = (if r = Some (Inr True) then en_processed eng + 1 else en_processed eng)
    \<and> (r = Some (Inr True) \<longrightarrow> (\<exists>before. calls = before @ [UpdateSnapshot (ce_event c) StoreOk, PublishEvent (ce_event c) StoreOk]))
    \<and> set calls \<subseteq> range (UpdateSnapshot (ce_event c)) \<union> range (PublishEvent (ce_event c))"
proof -
  have "process_loop as d c eng = (r, calls, ds, eng') \<Longrightarrow> ?thesis" for d
  proof (induction as arbitrary: d eng r calls ds eng')
    case (Cons a as)
    show ?case
    proof (cases "en_shutdown eng")
      case False
      show ?thesis
      proof (cases rule: process_event_cases [of "at_update a" "at_publish a" "ce_event c" eng])
        case ok
        with False Cons.prems show ?thesis by auto
      next
        case (raises exc calls1)
        show ?thesis
        proof (cases "exc = CancelledError \<or> at_wait a = WaitCancelled")
          case True
          with False raises Cons.prems show ?thesis by (auto split: if_splits)
        next
          case run: False
          define eng2 where "eng2 = (if at_wait a = ShutdownSet then
            eng\<lparr>en_retries := en_retries eng + 1, en_shutdown := True\<rparr>
            else eng\<lparr>en_retries := en_retries eng + 1\<rparr>)"
          have same: "en_bridge eng2 = en_bridge eng" "en_processed eng2 = en_processed eng"
            by (simp_all add: eng2_def)
          have "exc \<noteq> CancelledError" using run by simp
          then obtain d2 calls2 ds2 where
            "process_loop as d2 c eng2 = (r, calls2, ds2, eng')" "calls = calls1 @ calls2"
            using False raises(2) run Cons.prems
            by (cases "at_wait a") (simp_all add: eng2_def Let_def split: prod.splits)
          with Cons.IH [of d2 eng2] raises(3) same show ?thesis by auto
        qed
      qed
    qed (use Cons in auto)
  qed auto
  from this [OF assms [unfolded process_consumed_event_def]] show ?thesis .
qed

text \<open>
  C7. An event is acknowledged once, and only after both its snapshot update and its
  publication have returned: in processing that returns \<open>True\<close> the last two calls are
  these, both answered without an exception, and it put the event, and nothing else, on
  the bridge's acknowledgement queue; processing that returns \<open>False\<close>, raises or is still
  retrying acknowledges nothing. Nothing but calls for this event reaches the store, and
  the rest of the bridge is untouched.
\<close>

theorem acknowledged_only_after_publish:
  assumes "process_consumed_event as c eng = (r, calls, ds, eng')"
  shows "en_bridge eng' = (if r = Some (Inr True) then acknowledge c (en_bridge eng) else en_bridge eng)
    \<and> en_processed eng' = (if r = Some (Inr True) then en_processed eng + 1 else en_processed eng)
    \<and> (r = Some (Inr True) \<longrightarrow>
         (\<exists>before. calls = before @ [UpdateSnapshot (ce_event c) StoreOk, PublishEvent (ce_event c) StoreOk]))
    \<and> set calls \<subseteq> range (UpdateSnapshot (ce_event c)) \<union> range (PublishEvent (ce_event c))"
  using assms by (rule process_consumed_post)

definition fails_once :: "attempt \<Rightarrow> bool" where
  "fails_once a \<longleftrightarrow> at_wait a = WaitElapses \<and>
     (at_update a = StoreFails \<or> at_update a = StoreOk \<and> at_publish a = StoreFails)"

definition succeeds :: "attempt \<Rightarrow> bool" where
  "succeeds a \<longleftrightarrow> at_update a = StoreOk \<and> at_publish a = StoreOk"

lemma process_loop_recovers:
  "list_all fails_once fs \<Longrightarrow> succeeds ok \<Longrightarrow> \<not> en_shutdown eng \<Longrightarrow>
    \<exists>calls eng'. process_loop (fs @ ok # rest) d c eng =
      (Some (Inr True), calls, map (\<lambda>k. (next_backoff (en_max eng) ^^ k) d) [0..<length fs], eng') \<and>
      en_retries eng' = en_retries eng + length fs"
proof (induction fs arbitrary: d eng)
  case Nil
  then show ?case by (auto simp: succeeds_def process_event_def)
next
  case (Cons a fs)
  let ?eng = "eng\<lparr>en_retries := en_retries eng + 1\<rparr>"
  obtain calls eng' where IH: "process_loop (fs @ ok # rest) (next_backoff (en_max eng) d) c ?eng =
      (Some (Inr True), calls,
        map (\<lambda>k. (next_backoff (en_max eng) ^^ k) (next_backoff (en_max eng) d)) [0..<length fs], eng')"
    "en_retries eng' = en_retries eng + Suc (length fs)"
    using Cons.IH [of ?eng "next_backoff (en_max eng) d"] Cons.prems by auto
  have m: "map (\<lambda>k. (next_backoff (en_max eng) ^^ k) d) [0..<Suc (length fs)] =
      d # map (\<lambda>k. (next_backoff (en_max eng) ^^ k) (next_backoff (en_max eng) d)) [0..<length fs]"
    by (simp add: map_upt_Suc funpow_swap1 del: upt_Suc)
  from Cons.prems(1) have "fails_once a" by simp
  then obtain calls1 where p: "process_event (at_update a) (at_publish a) (ce_event c) eng
      = (Inl (OtherError ''redis''), calls1, eng)" "at_wait a = WaitElapses"
    by (auto simp: fails_once_def process_event_def)
  show ?case using p IH Cons.prems(3) by (simp add: Let_def m del: upt_Suc)
qed

text \<open>
  C27. Redis recovering ends the retries: if the update or the publication fails \<open>n\<close>
  times and then both succeed, processing returns \<open>True\<close> after exactly \<open>n\<close> retries;
  the delays waited double from the initial one up to the cap, and with the constants of
  the module they never decrease and never exceed five seconds.
\<close>

theorem recovery_ends_the_retries:
  assumes "list_all fails_once fs" "succeeds ok" "\<not> en_shutdown eng"
    "en_initial eng = REDIS_RETRY_INITIAL_SECONDS" "en_max eng = REDIS_RETRY_MAX_SECONDS"
  shows "\<exists>calls ds eng'. process_consumed_event (fs @ ok # rest) c eng = (Some (Inr True), calls, ds, eng') \<and>
    en_retries eng' = en_retries eng + length fs \<and> length ds = length fs \<and>
    sorted_wrt (\<le>) ds \<and> (\<forall>d \<in> set ds. REDIS_RETRY_INITIAL_SECONDS \<le> d \<and> d \<le> REDIS_RETRY_MAX_SECONDS)"
proof -
  let ?d = "\<lambda>k. (next_backoff f_5_0 ^^ k) f_0_1"
  have "sorted_wrt (\<le>) (map ?d [0..<length fs])"
    by (auto simp: sorted_wrt_iff_nth_less intro: seconds_backoff.delay_mono)
  moreover have "\<forall>d \<in> set (map ?d [0..<length fs]). f_0_1 \<le> d \<and> d \<le> f_5_0"
    using seconds_backoff.delay_bounds seconds_backoff.delay_mono [of 0] by auto
  ultimately show ?thesis
    using process_loop_recovers [OF assms(1-3), of rest f_0_1 c] assms(4,5)
    by (auto simp: process_consumed_event_def REDIS_RETRY_INITIAL_SECONDS_def REDIS_RETRY_MAX_SECONDS_def)
qed

section \<open>Engine and consumer thread side by side\<close>

text \<open>
  The thread is polling, inside a handoff, on its way out, or gone; the engine task is
  idle or holds one event. \<open>pl_first\<close> (the first offset tracked for a partition),
  \<open>pl_done\<close> (the events whose processing returned \<open>True\<close>) and \<open>pl_commits\<close>
  (every offset ever handed to \<open>consumer.commit\<close>) record history the code does not keep.

  \<open>msgs\<close> is the content of the topic, \<open>parse\<close> the parser. Nothing is assumed of
  the order in which Kafka delivers messages, of repeated delivery, or of which commits
  raise.
\<close>

datatype 'e thread_phase = Polling | Handing "'e handoff" | Leaving | ThreadGone

record 'e pipeline =
  pl_engine :: "'e engine"
  pl_thread :: "'e thread_phase"
  pl_hand :: "'e consumed_event option"
  pl_first :: "(partition_key, int) dict"
  pl_done :: "'e consumed_event list"
  pl_commits :: "(partition_key \<times> int) list"

definition start_pipeline :: "pyfloat \<Rightarrow> pyfloat \<Rightarrow> 'e pipeline" where
  "start_pipeline initial mx =
     (let eng = new_engine initial mx
      in \<lparr>pl_engine = eng\<lparr>en_bridge := start_bridge (en_bridge eng)\<rparr>, pl_thread = Polling,
          pl_hand = None, pl_first = [], pl_done = [], pl_commits = []\<rparr>)"

fun after_turn :: "'e loop_turn \<Rightarrow> 'e bridge \<Rightarrow> 'e thread_phase" where
  "after_turn KeepPolling b = Polling"
| "after_turn LeaveLoop b = Leaving"
| "after_turn (HandOff c) b =
     (case start_handoff c b of None \<Rightarrow> Leaving | Some h \<Rightarrow> Handing h)"

fun after_handoff :: "bool option \<Rightarrow> 'e handoff \<Rightarrow> 'e thread_phase" where
  "after_handoff None h = Handing h"
| "after_handoff (Some True) h = Polling"
| "after_handoff (Some False) h = Leaving"

fun track_first :: "'e loop_turn \<Rightarrow> (partition_key, int) dict \<Rightarrow> (partition_key, int) dict" where
  "track_first (HandOff c) f = dict_setdefault (ce_key c) (ce_offset c) f"
| "track_first t f = f"

fun poll_from :: "(partition_key \<Rightarrow> int \<Rightarrow> 'raw option) \<Rightarrow> 'raw poll_result \<Rightarrow> bool" where
  "poll_from msgs (PollMessage raw t p i) = (msgs (t, p) i = Some raw)"
| "poll_from msgs _ = True"

abbreviation pl_bridge :: "'e pipeline \<Rightarrow> 'e bridge" where
  "pl_bridge s \<equiv> en_bridge (pl_engine s)"

definition set_bridge :: "'e bridge \<Rightarrow> 'e pipeline \<Rightarrow> 'e pipeline" where
  "set_bridge b s = s\<lparr>pl_engine := (pl_engine s)\<lparr>en_bridge := b\<rparr>\<rparr>"

inductive pipeline_step ::
  "(partition_key \<Rightarrow> int \<Rightarrow> 'raw option) \<Rightarrow> ('raw \<Rightarrow> 'e option) \<Rightarrow>
   'e pipeline \<Rightarrow> 'e pipeline \<Rightarrow> bool"
  for msgs parse where
  thread_turn: "pl_thread s = Polling \<Longrightarrow> poll_from msgs poll \<Longrightarrow>
     consume_turn parse ok poll (pl_bridge s) = (turn, commits, b) \<Longrightarrow>
     pipeline_step msgs parse s
       ((set_bridge b s)\<lparr>pl_thread := after_turn turn b, pl_first := track_first turn (pl_first s),
         pl_commits := pl_commits s @ commits\<rparr>)"
| thread_handoff: "pl_thread s = Handing h \<Longrightarrow>
     handoff_step ev h (pl_bridge s) = (r, h', b) \<Longrightarrow>
     pipeline_step msgs parse s ((set_bridge b s)\<lparr>pl_thread := after_handoff r h'\<rparr>)"
| thread_leaves: "pl_thread s = Leaving \<Longrightarrow>
     drain_acknowledgements ok (pl_bridge s) = (commits, b) \<Longrightarrow>
     pipeline_step msgs parse s
       ((set_bridge b s)\<lparr>pl_thread := ThreadGone, pl_commits := pl_commits s @ commits\<rparr>)"
| engine_takes: "pl_hand s = None \<Longrightarrow> next_consumed (pl_bridge s) = Some (c, b) \<Longrightarrow>
     pipeline_step msgs parse s ((set_bridge b s)\<lparr>pl_hand := Some c\<rparr>)"
| engine_processes: "pl_hand s = Some c \<Longrightarrow>
     process_consumed_event as c (pl_engine s) = (Some (Inr True), calls, ds, eng) \<Longrightarrow>
     pipeline_step msgs parse s
       (s\<lparr>pl_engine := eng, pl_hand := None, pl_done := pl_done s @ [c]\<rparr>)"
| engine_gives_up: "pl_hand s = Some c \<Longrightarrow>
     process_consumed_event as c (pl_engine s) = (Some r, calls, ds, eng) \<Longrightarrow> r \<noteq> Inr True \<Longrightarrow>
     pipeline_step msgs parse s (s\<lparr>pl_engine := run_finally eng, pl_hand := None\<rparr>)"
| shutdown: "pipeline_step msgs parse s (s\<lparr>pl_engine := engine_shutdown (pl_engine s)\<rparr>)"

inductive_cases pipeline_stepE: "pipeline_step msgs parse s t"

definition offsets_of :: "'e consumed_event list \<Rightarrow> partition_key \<Rightarrow> int set" where
  "offsets_of cs key = {i. \<exists>c \<in> set cs. ce_key c = key \<and> ce_offset c = i}"

abbreviation done_offsets :: "'e pipeline \<Rightarrow> partition_key \<Rightarrow> int set" where
  "done_offsets s \<equiv> offsets_of (pl_done s)"

definition covered :: "(partition_key, int) dict \<Rightarrow> (partition_key \<Rightarrow> int set) \<Rightarrow> partition_key \<Rightarrow> int \<Rightarrow> bool" where
  \<comment> \<open>everything from the partition's first tracked offset up to \<open>n\<close> is processed\<close>
  "covered F D key n \<longleftrightarrow> (\<exists>f. dict_get F key = Some f \<and> f \<le> n \<and> {f..<n} \<subseteq> D key)"

definition bridge_ok ::
  "(partition_key, int) dict \<Rightarrow> (partition_key \<Rightarrow> int set) \<Rightarrow> 'e bridge \<Rightarrow> bool" where
  "bridge_ok F D b \<longleftrightarrow>
     wf_bridge b \<and> (\<forall>key. acked b key \<subseteq> D key) \<and>
     (\<forall>key n. dict_get (br_next_commit b) key = Some n \<longrightarrow> covered F D key n) \<and>
     (\<forall>key. dict_get (br_next_commit b) key = None \<longrightarrow> dict_get F key = None)"

definition in_flight :: "'e pipeline \<Rightarrow> 'e consumed_event set" where
  "in_flight s =
     set (q_items (br_queue (pl_bridge s))) \<union> set_option (pl_hand s) \<union>
     (case pl_thread s of Handing h \<Rightarrow> {ho_item h} | _ \<Rightarrow> {}) \<union> set (pl_done s)"

definition genuine ::
  "(partition_key \<Rightarrow> int \<Rightarrow> 'raw option) \<Rightarrow> ('raw \<Rightarrow> 'e option) \<Rightarrow> 'e consumed_event \<Rightarrow> bool" where
  "genuine msgs parse c \<longleftrightarrow>
     (\<exists>raw. msgs (ce_key c) (ce_offset c) = Some raw \<and> parse raw = Some (ce_event c))"

definition commits_inv :: "'e pipeline \<Rightarrow> bool" where
  "commits_inv s \<longleftrightarrow>
     bridge_ok (pl_first s) (done_offsets s) (pl_bridge s) \<and>
     (\<forall>(key, n) \<in> set (pl_commits s). covered (pl_first s) (done_offsets s) key n)"

definition genuine_inv ::
  "(partition_key \<Rightarrow> int \<Rightarrow> 'raw option) \<Rightarrow> ('raw \<Rightarrow> 'e option) \<Rightarrow> 'e pipeline \<Rightarrow> bool" where
  "genuine_inv msgs parse s \<longleftrightarrow>
     wf_queue 10000 (br_queue (pl_bridge s)) \<and> (\<forall>c \<in> in_flight s. genuine msgs parse c)"

section \<open>What the operations of the bridge preserve\<close>

lemma covered_mono:
  "covered F D key n \<Longrightarrow> (\<And>k v. dict_get F k = Some v \<Longrightarrow> dict_get F' k = Some v) \<Longrightarrow>
     (\<And>k. D k \<subseteq> D' k) \<Longrightarrow> covered F' D' key n"
  unfolding covered_def by blast

lemma covered_extend:
  "covered F D key s \<Longrightarrow> s \<le> n \<Longrightarrow> {s..<n} \<subseteq> D key \<Longrightarrow> covered F D key n"
proof -
  assume a: "covered F D key s" "s \<le> n" "{s..<n} \<subseteq> D key"
  then obtain f where f: "dict_get F key = Some f" "f \<le> s" "{f..<s} \<subseteq> D key"
    by (auto simp: covered_def)
  have "{f..<n} = {f..<s} \<union> {s..<n}" using f(2) a(2) by auto
  with f a show ?thesis by (auto simp: covered_def)
qed

lemma bridge_okD:
  "bridge_ok F D b \<Longrightarrow> wf_bridge b"
  "bridge_ok F D b \<Longrightarrow> i \<in> acked b key \<Longrightarrow> i \<in> D key"
  "bridge_ok F D b \<Longrightarrow> dict_get (br_next_commit b) key = Some n \<Longrightarrow> covered F D key n"
  "bridge_ok F D b \<Longrightarrow> dict_get (br_next_commit b) key = None \<Longrightarrow> dict_get F key = None"
  unfolding bridge_ok_def by blast+

lemma bridge_ok_new [simp]: "bridge_ok [] D (start_bridge new_bridge)"
  by (simp add: bridge_ok_def)
    (simp add: acked_def pending_get_def start_bridge_def new_bridge_def)

lemma bridge_ok_same:
  "bridge_ok F D b \<Longrightarrow> br_pending b' = br_pending b \<Longrightarrow> br_next_commit b' = br_next_commit b \<Longrightarrow>
     br_acknowledgements b' = br_acknowledgements b \<Longrightarrow> wf_queue 10000 (br_queue b') \<Longrightarrow> bridge_ok F D b'"
  by (simp add: bridge_ok_def wf_bridge_def acked_def)

lemma drain_ok:
  assumes "bridge_ok F D b" "drain_acknowledgements ok b = (commits, b')"
  shows "bridge_ok F D b' \<and> (\<forall>(key, n) \<in> set commits. covered F D key n)"
proof -
  have w: "wf_bridge b" using assms(1) by (simp add: bridge_ok_def)
  note dr = drain_facts [OF w assms(2)]
  have c: "covered F D key n" if kn: "(key, n) \<in> set commits" for key n
  proof -
    from kn dr(4) obtain s where s: "dict_get (br_next_commit b) key = Some s" "s < n"
      "first_gap (acked b key) s n" by blast
    from assms(1) s(1) have "covered F D key s" by (rule bridge_okD)
    moreover have "{s..<n} \<subseteq> D key"
      using s(3) bridge_okD(2) [OF assms(1), of _ key] unfolding first_gap_def by blast
    ultimately show ?thesis by (rule covered_extend [OF _ less_imp_le [OF s(2)]])
  qed
  have a: "acked b' key \<subseteq> acked b key \<and>
     (dict_get (br_next_commit b') key = dict_get (br_next_commit b) key \<or>
      (\<exists>n. (key, n) \<in> set commits \<and> dict_get (br_next_commit b') key = Some n \<and>
           dict_get (br_next_commit b) key \<noteq> None))" for key
  proof (cases "ok \<and> key \<in> fst ` set commits")
    case True
    then obtain n where "(key, n) \<in> set commits" by auto
    moreover from this dr(4) have "dict_get (br_next_commit b) key \<noteq> None" by auto
    ultimately show ?thesis using True dr(5,6) by auto
  next
    case False
    with dr(7,8) [of key] show ?thesis by auto
  qed
  have "dict_get (br_next_commit b') key = Some n \<Longrightarrow> covered F D key n" for key n
    using a [of key] c [of key n] bridge_okD(3) [OF assms(1), of key n] by auto
  moreover have "dict_get (br_next_commit b') key = None \<Longrightarrow> dict_get F key = None" for key
    using a [of key] bridge_okD(4) [OF assms(1), of key] by auto
  moreover have "acked b' key \<subseteq> D key" for key
    using a [of key] bridge_okD(2) [OF assms(1), of _ key] by auto
  ultimately show ?thesis using dr(2) c unfolding bridge_ok_def by blast
qed

lemma track_ok:
  assumes "bridge_ok F D b"
  shows "bridge_ok (dict_setdefault (ce_key c) (ce_offset c) F) D (track_consumed c b)"
    and "covered F D key n \<Longrightarrow> covered (dict_setdefault (ce_key c) (ce_offset c) F) D key n"
proof -
  let ?F = "dict_setdefault (ce_key c) (ce_offset c) F"
  let ?b = "track_consumed c b"
  have F: "dict_get F k = Some v \<Longrightarrow> dict_get ?F k = Some v" for k v
    by (auto simp: dict_get_setdefault split: option.split)
  show cov: "covered F D key n \<Longrightarrow> covered ?F D key n" for key n
    by (erule covered_mono) (auto intro: F)
  have n: "dict_get (br_next_commit ?b) = (if dict_get (br_next_commit b) (ce_key c) = None
      then (dict_get (br_next_commit b))(ce_key c \<mapsto> ce_offset c) else dict_get (br_next_commit b))"
    by (auto simp: track_consumed_def dict_get_setdefault split: option.split)
  have "covered ?F D key m" if "dict_get (br_next_commit ?b) key = Some m" for key m
  proof (cases "dict_get (br_next_commit b) key = Some m")
    case True
    with assms cov show ?thesis by (auto simp: bridge_ok_def)
  next
    case False
    with that n have k: "key = ce_key c" "m = ce_offset c" "dict_get (br_next_commit b) (ce_key c) = None"
      by (auto split: if_splits)
    with assms have "dict_get F (ce_key c) = None" by (auto simp: bridge_ok_def)
    with k show ?thesis by (auto simp: covered_def dict_get_setdefault)
  qed
  moreover have "dict_get ?F key = None" if "dict_get (br_next_commit ?b) key = None" for key
    using that assms unfolding n bridge_ok_def
    by (auto simp: dict_get_setdefault split: if_splits option.split)
  moreover have "acked ?b key \<subseteq> D key" for key
    using assms by (simp add: bridge_ok_def acked_def track_consumed_def)
  ultimately show "bridge_ok ?F D ?b"
    using assms cov by (simp add: bridge_ok_def wf_bridge_def track_consumed_def)
qed

lemma acknowledge_ok:
  assumes "bridge_ok F D b" "\<And>k. D k \<subseteq> D' k" "ce_offset c \<in> D' (ce_key c)"
  shows "bridge_ok F D' (acknowledge c b)"
proof -
  have "covered F D' key n" if "covered F D key n" for key n
    using that by (rule covered_mono) (use assms(2) in auto)
  moreover have "acked (acknowledge c b) key \<subseteq> D' key" for key
    using assms(2) [of key] assms(3) bridge_okD(2) [OF assms(1), of _ key]
    by (auto simp: acked_def acknowledge_def)
  ultimately show ?thesis
    using assms(1) by (auto simp: bridge_ok_def wf_bridge_def acknowledge_def)
qed

lemma drain_queue:
  "drain_acknowledgements ok b = (commits, b') \<Longrightarrow> br_queue b' = br_queue b"
proof -
  have f: "br_queue (fold apply_advance as b0) = br_queue b0" for as and b0 :: "'e bridge"
    by (induction as arbitrary: b0) (simp_all add: apply_advance_effect)
  assume "drain_acknowledgements ok b = (commits, b')"
  then show ?thesis by (auto simp: drain_acknowledgements_def Let_def f split: if_splits)
qed

lemma consume_turn_cases:
  assumes "consume_turn parse ok poll b = (turn, commits, b')"
  obtains (stop) "turn = LeaveLoop" "commits = []" "b' = b"
  | (poll) "turn = KeepPolling" "drain_acknowledgements ok b = (commits, b')"
  | (consume) c b1 raw where "turn = HandOff c" "drain_acknowledgements ok b = (commits, b1)"
      "b' = track_consumed c b1" "poll = PollMessage raw (ce_topic c) (ce_partition c) (ce_offset c)"
      "parse raw = Some (ce_event c)"
proof (cases "br_stop b")
  case True
  with assms stop show ?thesis by (simp add: consume_turn_def)
next
  case False
  obtain cs b1 where d: "drain_acknowledgements ok b = (cs, b1)" by (cases "drain_acknowledgements ok b")
  show ?thesis
  proof (cases poll)
    case (PollMessage raw t p i)
    show ?thesis
    proof (cases "parse raw")
      case None
      with PollMessage assms False d that(2) show ?thesis by (simp add: consume_turn_def)
    next
      case (Some e)
      let ?c = "\<lparr>ce_event = e, ce_topic = t, ce_partition = p, ce_offset = i\<rparr>"
      from that(3) [of ?c b1 raw] PollMessage Some assms False d show ?thesis
        by (simp add: consume_turn_def Let_def)
    qed
  qed (use assms False d that in \<open>auto simp: consume_turn_def\<close>)
qed

lemma consume_turn_ok:
  assumes "bridge_ok F D b" "consume_turn parse ok poll b = (turn, commits, b')"
  shows "bridge_ok (track_first turn F) D b'
    \<and> (\<forall>(key, n) \<in> set commits. covered (track_first turn F) D key n)
    \<and> (\<forall>key n. covered F D key n \<longrightarrow> covered (track_first turn F) D key n)"
  using assms(2)
proof (cases rule: consume_turn_cases)
  case (consume c b1 raw)
  from drain_ok [OF assms(1) consume(2)] have b1: "bridge_ok F D b1" by simp
  note t = track_ok [OF b1]
  show ?thesis using consume t(1) t(2) drain_ok [OF assms(1) consume(2)] by auto
qed (use assms drain_ok [OF assms(1)] in \<open>auto\<close>)

lemma consume_turn_queue:
  assumes "consume_turn parse ok poll b = (turn, commits, b')"
  shows "br_queue b' = br_queue b"
  using assms by (cases rule: consume_turn_cases) (auto simp: drain_queue track_consumed_def)

lemma set_bridge_simps [simp]:
  "pl_bridge (set_bridge b s) = b" "pl_thread (set_bridge b s) = pl_thread s"
  "pl_hand (set_bridge b s) = pl_hand s" "pl_first (set_bridge b s) = pl_first s"
  "pl_done (set_bridge b s) = pl_done s" "pl_commits (set_bridge b s) = pl_commits s"
  by (simp_all add: set_bridge_def)

lemma commits_inv_step:
  assumes "commits_inv s" "pipeline_step msgs parse s t"
  shows "commits_inv t"
  using assms(2)
proof cases
  case (thread_turn poll ok turn commits b)
  have ok: "bridge_ok (pl_first s) (done_offsets s) (pl_bridge s)"
    using assms(1) by (simp add: commits_inv_def)
  from consume_turn_ok [OF ok thread_turn(4)] assms(1) show ?thesis
    unfolding commits_inv_def thread_turn(1) by (auto simp: Ball_def)
next
  case (thread_handoff h ev r h' b)
  have ok: "bridge_ok (pl_first s) (done_offsets s) (pl_bridge s)"
    using assms(1) by (simp add: commits_inv_def)
  then have "wf_queue 10000 (br_queue (pl_bridge s))" by (simp add: bridge_ok_def wf_bridge_def)
  from handoff_step_queue [OF thread_handoff(3) this] have
    "b = (pl_bridge s)\<lparr>br_queue := br_queue b\<rparr>" "wf_queue 10000 (br_queue b)" by auto
  then have "bridge_ok (pl_first s) (done_offsets s) b"
    by (intro bridge_ok_same [OF ok]) (auto dest: arg_cong [of _ _ br_pending]
        arg_cong [of _ _ br_next_commit] arg_cong [of _ _ br_acknowledgements])
  with assms(1) show ?thesis
    unfolding thread_handoff(1) by (simp add: commits_inv_def)
next
  case (thread_leaves ok commits b)
  have "bridge_ok (pl_first s) (done_offsets s) (pl_bridge s)"
    using assms(1) by (simp add: commits_inv_def)
  from drain_ok [OF this thread_leaves(3)] assms(1) show ?thesis
    unfolding thread_leaves(1) by (auto simp: commits_inv_def)
next
  case (engine_takes c b)
  have ok: "bridge_ok (pl_first s) (done_offsets s) (pl_bridge s)"
    using assms(1) by (simp add: commits_inv_def)
  note n = next_consumed_Some [OF engine_takes(3)]
  have "wf_queue 10000 (br_queue b)"
    using n bridge_okD(1) [OF ok] by (auto simp: wf_bridge_def wf_queue_def)
  with n have "bridge_ok (pl_first s) (done_offsets s) b"
    by (intro bridge_ok_same [OF ok]) (auto dest: arg_cong [of _ _ br_pending]
        arg_cong [of _ _ br_next_commit] arg_cong [of _ _ br_acknowledgements])
  with assms(1) show ?thesis
    unfolding engine_takes(1) by (simp add: commits_inv_def)
next
  case (engine_processes c as calls ds eng)
  have sub: "done_offsets s k \<subseteq> done_offsets t k" for k
    unfolding engine_processes(1) by (auto simp: offsets_of_def)
  have b: "en_bridge eng = acknowledge c (pl_bridge s)"
    using process_consumed_post [OF engine_processes(3)] by simp
  have "bridge_ok (pl_first s) (done_offsets t) (acknowledge c (pl_bridge s))"
    using assms(1) sub unfolding commits_inv_def
    by (intro acknowledge_ok [of _ "done_offsets s"])
      (auto simp: engine_processes(1) offsets_of_def)
  moreover have "covered (pl_first s) (done_offsets t) key n" if "(key, n) \<in> set (pl_commits s)" for key n
  proof -
    have "covered (pl_first s) (done_offsets s) key n" using assms(1) that by (auto simp: commits_inv_def)
    then show ?thesis by (rule covered_mono) (use sub in auto)
  qed
  ultimately show ?thesis
    unfolding commits_inv_def using b by (auto simp: engine_processes(1))
next
  case (engine_gives_up c as r calls ds eng)
  have "en_bridge eng = pl_bridge s"
    using process_consumed_post [OF engine_gives_up(3)] engine_gives_up(4) by simp
  with assms(1) show ?thesis
    unfolding engine_gives_up(1)
    by (auto simp: commits_inv_def run_finally_def stop_bridge_def offsets_of_def bridge_ok_def
        wf_bridge_def acked_def)
next
  case shutdown
  with assms(1) show ?thesis
    by (auto simp: commits_inv_def engine_shutdown_def stop_bridge_def offsets_of_def bridge_ok_def
        wf_bridge_def acked_def)
qed

lemma genuine_inv_step:
  assumes "genuine_inv msgs parse s" "pipeline_step msgs parse s t"
  shows "genuine_inv msgs parse t"
  using assms(2)
proof cases
  case (thread_turn poll ok turn commits b)
  have q: "br_queue b = br_queue (pl_bridge s)" by (rule consume_turn_queue [OF thread_turn(4)])
  have g: "genuine msgs parse c" if "turn = HandOff c" for c
    using thread_turn(4)
  proof (cases rule: consume_turn_cases)
    case (consume c' b1 raw)
    with that thread_turn(3) show ?thesis by (auto simp: genuine_def ce_key_def)
  qed (use that in auto)
  have h: "(case after_turn turn b of Handing h \<Rightarrow> {ho_item h} | _ \<Rightarrow> {})
      \<subseteq> {c. turn = HandOff c}"
    by (cases turn) (auto simp: start_handoff_def)
  with assms(1) q g show ?thesis
    unfolding genuine_inv_def in_flight_def thread_turn(1) by auto
next
  case (thread_handoff h ev r h' b)
  have w: "wf_queue 10000 (br_queue (pl_bridge s))" using assms(1) by (simp add: genuine_inv_def)
  note q = handoff_step_queue [OF thread_handoff(3) w]
  have "set (put_between h h') \<subseteq> {ho_item h}" by (auto simp: put_between_def)
  moreover have "(case after_handoff r h' of Handing h \<Rightarrow> {ho_item h} | _ \<Rightarrow> {}) \<subseteq> {ho_item h}"
    using q by (cases "(r, h')" rule: after_handoff.cases) (auto simp: handoff_grows_def)
  ultimately show ?thesis
    using assms(1) q thread_handoff(2) unfolding genuine_inv_def in_flight_def thread_handoff(1) by auto
next
  case (thread_leaves ok commits b)
  with assms(1) drain_queue [OF thread_leaves(3)] show ?thesis
    by (auto simp: genuine_inv_def in_flight_def)
next
  case (engine_takes c b)
  note n = next_consumed_Some [OF engine_takes(3)]
  then have "wf_queue 10000 (br_queue b)" using assms(1) by (auto simp: genuine_inv_def wf_queue_def)
  with n assms(1) show ?thesis
    unfolding genuine_inv_def in_flight_def engine_takes(1) by (auto simp: engine_takes(2))
next
  case (engine_processes c as calls ds eng)
  have "en_bridge eng = acknowledge c (pl_bridge s)"
    using process_consumed_post [OF engine_processes(3)] by simp
  with assms(1) engine_processes(2) show ?thesis
    unfolding genuine_inv_def in_flight_def engine_processes(1) by (auto simp: acknowledge_def)
next
  case (engine_gives_up c as r calls ds eng)
  have "en_bridge eng = pl_bridge s"
    using process_consumed_post [OF engine_gives_up(3)] engine_gives_up(4) by simp
  with assms(1) engine_gives_up(2) show ?thesis
    unfolding genuine_inv_def in_flight_def engine_gives_up(1)
    by (auto simp: run_finally_def stop_bridge_def)
next
  case shutdown
  with assms(1) show ?thesis
    by (auto simp: genuine_inv_def in_flight_def engine_shutdown_def stop_bridge_def)
qed

lemma commits_inv_start: "commits_inv (start_pipeline initial mx)"
  by (simp add: commits_inv_def start_pipeline_def Let_def new_engine_def)

lemma genuine_inv_start: "genuine_inv msgs parse (start_pipeline initial mx)"
  by (simp add: genuine_inv_def start_pipeline_def Let_def new_engine_def in_flight_def
      start_bridge_def new_bridge_def)

interpretation pl: step_invariant "\<lambda>s. s = start_pipeline initial mx" "pipeline_step msgs parse"
  "\<lambda>s. commits_inv s \<and> genuine_inv msgs parse s"
  by unfold_locales (auto intro: commits_inv_step genuine_inv_step commits_inv_start genuine_inv_start)

lemma covered_commit:
  assumes "(pipeline_step msgs parse)\<^sup>*\<^sup>* (start_pipeline initial mx) s"
    "(key, n) \<in> set (pl_commits s)"
  shows "covered (pl_first s) (done_offsets s) key n"
  using pl.reachable_inv [OF refl assms(1)] assms(2) by (auto simp: commits_inv_def)

section \<open>Offsets are committed behind the processing\<close>

text \<open>
  C1. At-least-once: in every reachable state of engine and consumer thread, whatever the
  interleaving, the order of acknowledgements and the failures of Redis and of commits, an
  offset handed to \<open>consumer.commit\<close> lies behind the processing. Every offset of the
  partition from the first one the bridge tracked up to the committed one belongs to an
  event whose snapshot update and publication have both returned, so a restart from the
  committed offset skips nothing.
\<close>

theorem commits_stay_behind_processing:
  assumes "(pipeline_step msgs parse)\<^sup>*\<^sup>* (start_pipeline initial mx) s"
    "(key, n) \<in> set (pl_commits s)"
  shows "\<exists>f. dict_get (pl_first s) key = Some f \<and> f \<le> n \<and>
    (\<forall>i \<in> {f..<n}. \<exists>c \<in> set (pl_done s). ce_key c = key \<and> ce_offset c = i)"
  using covered_commit [OF assms] by (auto simp: covered_def offsets_of_def)

text \<open>
  C35. A message that does not parse stops the commits of its partition for good, provided
  that an event of the partition has been tracked at an offset not beyond it: if the
  message at offset \<open>m\<close> is rejected by the parser and the first offset tracked for its
  partition is at most \<open>m\<close>, then no reachable state commits an offset beyond \<open>m\<close>, however
  many later events are processed and acknowledged, because a skipped message is never
  acknowledged. (One that comes before the first tracked offset, as the first message after
  a restart may, is left behind by the cursor, which starts at that offset.)
\<close>

theorem malformed_message_stops_commits:
  assumes "(pipeline_step msgs parse)\<^sup>*\<^sup>* (start_pipeline initial mx) s"
    "(key, n) \<in> set (pl_commits s)" "dict_get (pl_first s) key = Some f" "f \<le> m"
    "msgs key m = Some raw" "parse raw = None"
  shows "n \<le> m"
proof (rule ccontr)
  assume "\<not> n \<le> m"
  with assms(3,4) covered_commit [OF assms(1,2)] obtain c where
    c: "c \<in> set (pl_done s)" "ce_key c = key" "ce_offset c = m"
    by (force simp: covered_def offsets_of_def)
  then have "genuine msgs parse c"
    using pl.reachable_inv [OF refl assms(1)] by (auto simp: genuine_inv_def in_flight_def)
  with c assms(5,6) show False by (auto simp: genuine_def)
qed

section \<open>Witnesses\<close>

definition good_attempt :: attempt where
  "good_attempt = \<lparr>at_update = StoreOk, at_publish = StoreOk, at_wait = WaitElapses\<rparr>"

definition bad_attempt :: attempt where
  "bad_attempt = \<lparr>at_update = StoreOk, at_publish = StoreFails, at_wait = WaitElapses\<rparr>"

definition sample_engine :: "nat engine" where
  "sample_engine = new_engine REDIS_RETRY_INITIAL_SECONDS REDIS_RETRY_MAX_SECONDS"

theorem acknowledged_only_after_publish_witness:
  "\<exists>calls ds eng'. process_consumed_event [bad_attempt, good_attempt] (sample_consumed 5) sample_engine
      = (Some (Inr True), calls, ds, eng')
    \<and> br_acknowledgements (en_bridge eng') = [sample_consumed 5]"
proof -
  have e: "process_consumed_event [bad_attempt, good_attempt] (sample_consumed 5) sample_engine
      = (Some (Inr True), [UpdateSnapshot 0 StoreOk, PublishEvent 0 StoreFails, UpdateSnapshot 0 StoreOk, PublishEvent 0 StoreOk],
         [REDIS_RETRY_INITIAL_SECONDS],
         sample_engine\<lparr>en_retries := 1, en_processed := 1,
           en_bridge := acknowledge (sample_consumed 5) new_bridge\<rparr>)"
    by (simp add: process_consumed_event_def process_event_def bad_attempt_def good_attempt_def
        sample_engine_def new_engine_def Let_def sample_consumed_def)
  from acknowledged_only_after_publish [OF e] e show ?thesis
    by (auto simp: acknowledge_def sample_engine_def new_engine_def new_bridge_def)
qed

theorem recovery_ends_the_retries_witness:
  "\<exists>calls ds eng'. process_consumed_event ([bad_attempt, bad_attempt] @ good_attempt # [])
      (sample_consumed 5) sample_engine = (Some (Inr True), calls, ds, eng')
    \<and> en_retries eng' = en_retries sample_engine + 2"
proof -
  have "list_all fails_once [bad_attempt, bad_attempt]" "succeeds good_attempt"
    "\<not> en_shutdown sample_engine" "en_initial sample_engine = REDIS_RETRY_INITIAL_SECONDS"
    "en_max sample_engine = REDIS_RETRY_MAX_SECONDS"
    by (simp_all add: fails_once_def bad_attempt_def succeeds_def good_attempt_def
        sample_engine_def new_engine_def)
  from recovery_ends_the_retries [OF this, of "[]" "sample_consumed 5"] show ?thesis by auto
qed

text \<open>
  A partition whose offset 6 does not parse. The event at offset 5 is handed over,
  processed, acknowledged and committed.
\<close>

definition sample_msgs :: "partition_key \<Rightarrow> int \<Rightarrow> bool option" where
  "sample_msgs key i = (if key = (''t'', 0) \<and> 5 \<le> i then Some (i \<noteq> 6) else None)"

definition sample_parse :: "bool \<Rightarrow> nat option" where
  "sample_parse raw = (if raw then Some 0 else None)"

abbreviation sample_step :: "nat pipeline \<Rightarrow> nat pipeline \<Rightarrow> bool" where
  "sample_step \<equiv> pipeline_step sample_msgs sample_parse"

definition sample_bridge :: "nat consumed_event list \<Rightarrow> nat bridge" where
  "sample_bridge cs = (track_consumed (sample_consumed 5) (start_bridge new_bridge))
     \<lparr>br_queue := \<lparr>q_items = cs, q_max = 10000\<rparr>\<rparr>"

definition sample_handing :: "bool \<Rightarrow> bool \<Rightarrow> nat thread_phase" where
  "sample_handing waiting dn =
     Handing \<lparr>ho_item = sample_consumed 5, ho_waiting = waiting, ho_done = dn\<rparr>"

definition sample_state ::
  "nat \<Rightarrow> nat bridge \<Rightarrow> nat thread_phase \<Rightarrow> nat consumed_event option \<Rightarrow>
   nat consumed_event list \<Rightarrow> nat pipeline" where
  "sample_state n b ph hand dn =
     \<lparr>pl_engine = (new_engine (Fin 1) (Fin 5))\<lparr>en_processed := n, en_bridge := b\<rparr>,
      pl_thread = ph, pl_hand = hand, pl_first = [((''t'', 0), 5)], pl_done = dn, pl_commits = []\<rparr>"

lemmas sample_defs = sample_bridge_def sample_handing_def sample_state_def set_bridge_def
  start_pipeline_def Let_def new_engine_def start_bridge_def new_bridge_def
  new_queue_def track_consumed_def dict_setdefault_def dict_set_def

lemma sample_poll:
  "sample_step (start_pipeline (Fin 1) (Fin 5))
     (sample_state 0 (sample_bridge []) (sample_handing False False) None [])"
proof -
  have c: "\<lparr>ce_event = 0, ce_topic = ''t'', ce_partition = 0, ce_offset = 5\<rparr> = sample_consumed 5"
    by (simp add: sample_consumed_def)
  show ?thesis
    using pipeline_step.thread_turn [of "start_pipeline (Fin 1) (Fin 5)" sample_msgs
        "PollMessage True ''t'' 0 5" sample_parse True "HandOff (sample_consumed 5)" "[]" "sample_bridge []"]
    by (simp add: c consume_turn_def drain_acknowledgements_def take_acknowledgements_def
        sample_msgs_def sample_parse_def start_handoff_def sample_defs)
qed

lemma sample_handoff:
  assumes "handoff_step ev h (sample_bridge cs) = (r, h', sample_bridge cs')"
  shows "sample_step (sample_state 0 (sample_bridge cs) (Handing h) None [])
    (sample_state 0 (sample_bridge cs') (after_handoff r h') None [])"
  using pipeline_step.thread_handoff [of "sample_state 0 (sample_bridge cs) (Handing h) None []"
      h ev r h' "sample_bridge cs'" sample_msgs sample_parse] assms
  by (simp add: sample_state_def set_bridge_def)

lemma sample_handed:
  "sample_step\<^sup>*\<^sup>* (sample_state 0 (sample_bridge []) (sample_handing False False) None [])
     (sample_state 0 (sample_bridge [sample_consumed 5]) Polling None [])"
proof -
  let ?h = "\<lambda>w d. \<lparr>ho_item = sample_consumed 5, ho_waiting = w, ho_done = d\<rparr>"
  let ?q = "[sample_consumed 5]"
  have "handoff_step ThreadRuns (?h False False) (sample_bridge []) = (None, ?h True False, sample_bridge [])"
    "handoff_step LoopPuts (?h True False) (sample_bridge []) = (None, ?h True True, sample_bridge ?q)"
    "handoff_step ThreadRuns (?h True True) (sample_bridge ?q) = (Some True, ?h True True, sample_bridge ?q)"
    by (simp_all add: sample_defs put_nowait_def queue_full_def)
  from this [THEN sample_handoff] show ?thesis
    by (simp add: sample_handing_def)
qed

lemma sample_processed:
  "sample_step\<^sup>*\<^sup>* (sample_state 0 (sample_bridge [sample_consumed 5]) Polling None [])
     (sample_state 1 (acknowledge (sample_consumed 5) (sample_bridge [])) Polling None [sample_consumed 5])"
proof -
  let ?c = "sample_consumed 5"
  have "sample_step (sample_state 0 (sample_bridge [?c]) Polling None [])
      (sample_state 0 (sample_bridge []) Polling (Some ?c) [])"
    using pipeline_step.engine_takes [of "sample_state 0 (sample_bridge [?c]) Polling None []" ?c
        "sample_bridge []" sample_msgs sample_parse]
    by (simp add: sample_defs next_consumed_def get_nowait_def)
  moreover have "sample_step (sample_state 0 (sample_bridge []) Polling (Some ?c) [])
      (sample_state 1 (acknowledge ?c (sample_bridge [])) Polling None [?c])"
    using pipeline_step.engine_processes [of "sample_state 0 (sample_bridge []) Polling (Some ?c) []" ?c
        "[good_attempt]" "[UpdateSnapshot 0 StoreOk, PublishEvent 0 StoreOk]" "[]" _ sample_msgs sample_parse]
    by (simp add: sample_defs process_consumed_event_def process_event_def good_attempt_def
        sample_consumed_def [THEN arg_cong, of ce_event])
  ultimately show ?thesis by (blast intro: converse_rtranclp_into_rtranclp)
qed

lemma sample_commit:
  "\<exists>s. sample_step (sample_state 1 (acknowledge (sample_consumed 5) (sample_bridge [])) Polling None dn) s
     \<and> pl_first s = [((''t'', 0), 5)] \<and> ((''t'', 0), 6) \<in> set (pl_commits s)"
proof -
  let ?b = "acknowledge (sample_consumed 5) (sample_bridge [])"
  obtain commits b where d: "drain_acknowledgements True ?b = (commits, b)"
    by (cases "drain_acknowledgements True ?b")
  have "wf_bridge ?b" "acked ?b (''t'', 0) = {5}" "dict_get (br_next_commit ?b) (''t'', 0) = Some 5"
    by (auto simp: wf_bridge_def acked_def acknowledge_def pending_get_def sample_defs wf_dict_def
        wf_queue_def dict_get_Cons)
  moreover have "{5..<6} \<subseteq> {5 :: int}" by auto
  ultimately have "((''t'', 0), 6) \<in> set commits"
    by (simp add: drain_facts(4) [OF _ d] first_gap_def)
  with d show ?thesis
    using pipeline_step.thread_turn [of "sample_state 1 ?b Polling None dn" sample_msgs PollNone
        sample_parse True KeepPolling commits b]
    by (auto simp: consume_turn_def sample_defs acknowledge_def)
qed

lemma sample_run:
  "\<exists>s. sample_step\<^sup>*\<^sup>* (start_pipeline (Fin 1) (Fin 5)) s \<and>
     pl_first s = [((''t'', 0), 5)] \<and> ((''t'', 0), 6) \<in> set (pl_commits s)"
proof -
  from sample_commit obtain s where
    "sample_step (sample_state 1 (acknowledge (sample_consumed 5) (sample_bridge [])) Polling None
      [sample_consumed 5]) s" "pl_first s = [((''t'', 0), 5)]" "((''t'', 0), 6) \<in> set (pl_commits s)"
    by blast
  with sample_poll sample_handed sample_processed show ?thesis
    by (meson converse_rtranclp_into_rtranclp rtranclp.rtrancl_into_rtrancl rtranclp_trans)
qed

theorem commits_stay_behind_processing_witness:
  "\<exists>s. sample_step\<^sup>*\<^sup>* (start_pipeline (Fin 1) (Fin 5)) s \<and>
     (\<exists>c \<in> set (pl_done s). ce_key c = (''t'', 0) \<and> ce_offset c = 5)"
proof -
  from sample_run obtain s where s: "sample_step\<^sup>*\<^sup>* (start_pipeline (Fin 1) (Fin 5)) s"
    "pl_first s = [((''t'', 0), 5)]" "((''t'', 0), 6) \<in> set (pl_commits s)" by blast
  from commits_stay_behind_processing [OF s(1,3)] s show ?thesis by (auto simp: dict_get_Cons)
qed

theorem malformed_message_stops_commits_witness:
  "\<exists>s. sample_step\<^sup>*\<^sup>* (start_pipeline (Fin 1) (Fin 5)) s \<and>
     ((''t'', 0), 6) \<in> set (pl_commits s) \<and> (6 :: int) \<le> 6"
proof -
  from sample_run obtain s where s: "sample_step\<^sup>*\<^sup>* (start_pipeline (Fin 1) (Fin 5)) s"
    "pl_first s = [((''t'', 0), 5)]" "((''t'', 0), 6) \<in> set (pl_commits s)" by blast
  have "dict_get (pl_first s) (''t'', 0) = Some 5" by (simp add: s(2) dict_get_Cons)
  moreover have "sample_msgs (''t'', 0) 6 = Some False" "sample_parse False = None"
    by (simp_all add: sample_msgs_def sample_parse_def)
  ultimately show ?thesis
    using malformed_message_stops_commits [OF s(1,3), of 5 6 False] s by auto
qed

end
