(* ===== verification/Tick_Writer.thy ===== *)
theory Tick_Writer
  imports History_Store Backoff Kafka_Bridge
begin

text \<open>
  \<open>src/storage/tick_writer.py\<close>: the consumer that stores every tick. It collects events
  into a batch, writes the batch when it is full or old enough, retries the write until it
  succeeds or the writer is stopped, and commits Kafka offsets only after the write.

  The store is an argument of the writer, as it is of the class: \<open>insert\<close> writes a list
  of events to a store state, its first argument saying how the environment answers. What
  the writer relies on is the interface \<open>tick_sink\<close>, which the history store
  implements. Polls, clock readings, failing commits and calls of \<open>stop\<close> are inputs of
  each turn of the loop.
\<close>

definition BATCH_MAX_SIZE :: int where "BATCH_MAX_SIZE = 500"

definition BATCH_MAX_LATENCY_MS :: int where "BATCH_MAX_LATENCY_MS = 100"

definition MAX_BACKOFF_SECONDS :: pyfloat where "MAX_BACKOFF_SECONDS = f_5_0"

type_synonym kafka_position = "string \<times> int \<times> int"

record 'e consumed_tick =
  ct_event :: 'e
  ct_topic :: string
  ct_partition :: int
  ct_offset :: int

definition ct_key :: "'e consumed_tick \<Rightarrow> partition_key" where
  "ct_key c = (ct_topic c, ct_partition c)"

definition ct_position :: "'e consumed_tick \<Rightarrow> kafka_position" where
  \<comment> \<open>the message a consumed tick carries, as far as \<open>commit(message=...)\<close> reads it\<close>
  "ct_position c = (ct_topic c, ct_partition c, ct_offset c)"

record 's tick_writer =
  tw_store :: 's
  tw_batch_max :: int
  tw_latency_ms :: int
  tw_inserted :: int
  tw_stop :: bool

definition new_tick_writer :: "'s \<Rightarrow> int \<Rightarrow> int \<Rightarrow> 's tick_writer" where
  "new_tick_writer s batch_max latency =
     \<lparr>tw_store = s, tw_batch_max = batch_max, tw_latency_ms = latency, tw_inserted = 0,
      tw_stop = False\<rparr>"

definition stop_writer :: "'s tick_writer \<Rightarrow> 's tick_writer" where
  "stop_writer w = w\<lparr>tw_stop := True\<rparr>"

definition parse_tick ::
  "(string \<Rightarrow> pyfloat result) \<Rightarrow> json result \<Rightarrow> market_event parse_outcome" where
  "parse_tick fparse loaded =
     parse_market_event fparse (\<lambda>d. json_field d ''server_ts'' json_int) loaded"

section \<open>Batch timing\<close>

definition batch_expired :: "pyfloat \<Rightarrow> pyfloat \<Rightarrow> 's tick_writer \<Rightarrow> bool" where
  "batch_expired now started w =
     f_le (Fin (of_int (tw_latency_ms w))) (f_mul (f_sub now started) (Fin 1000))"

definition should_flush :: "pyfloat \<Rightarrow> pyfloat \<Rightarrow> 'e consumed_tick list \<Rightarrow> 's tick_writer \<Rightarrow> bool" where
  "should_flush now started batch w =
     (tw_batch_max w \<le> int (length batch) \<or> batch_expired now started w)"

definition poll_timeout ::
  "pyfloat \<Rightarrow> pyfloat \<Rightarrow> 'e consumed_tick list \<Rightarrow> 's tick_writer \<Rightarrow> pyfloat result" where
  "poll_timeout now started batch w =
     (if batch = [] then Inr f_0_05
      else bindE (f_of_int (tw_latency_ms w)) (\<lambda>l.
           bindE (f_div l (Fin 1000)) (\<lambda>latency.
             let elapsed = f_sub now started;
                 remaining = f_max (f_sub latency elapsed) (Fin 0)
             in Inr (f_min f_0_05 remaining))))"

section \<open>Committing and flushing a batch\<close>

fun last_by_partition ::
  "(partition_key, 'e consumed_tick) dict \<Rightarrow> 'e consumed_tick list \<Rightarrow>
   (partition_key, 'e consumed_tick) dict" where
  "last_by_partition d [] = d"
| "last_by_partition d (c # cs) =
     last_by_partition
       (case dict_get d (ct_key c) of
          None \<Rightarrow> dict_set (ct_key c) c d
        | Some previous \<Rightarrow>
            if ct_offset previous < ct_offset c then dict_set (ct_key c) c d else d) cs"

definition commit_batch :: "'e consumed_tick list \<Rightarrow> kafka_position list" where
  \<comment> \<open>the messages \<open>_commit_batch\<close> commits, in its order\<close>
  "commit_batch batch = map ct_position (dict_values (last_by_partition [] batch))"

definition kafka_exception :: py_exn where "kafka_exception = OtherError ''KafkaException''"

definition run_commits :: "nat option \<Rightarrow> kafka_position list \<Rightarrow> unit result \<times> kafka_position list" where
  \<comment> \<open>commits one after the other; the argument is the one that raises, if any\<close>
  "run_commits raising ps =
     (case raising of
        Some k \<Rightarrow> if k < length ps then (Inl kafka_exception, take k ps) else (Inr (), ps)
      | None \<Rightarrow> (Inr (), ps))"

record 'a flush_attempt =
  fa_env :: 'a
  fa_stopped :: bool

text \<open>
  \<open>_flush\<close> along a list of attempts; \<open>fa_stopped\<close> says that \<open>stop\<close> was called
  during the attempt or the sleep after it. Results: the value returned or raised
  (\<^const>\<open>None\<close> while it is still retrying), the messages committed, the delays slept.
\<close>

fun flush_loop ::
  "('a \<Rightarrow> 'e list \<Rightarrow> 's \<Rightarrow> int result \<times> 's) \<Rightarrow> 'a flush_attempt list \<Rightarrow> nat option \<Rightarrow> pyfloat \<Rightarrow>
   'e consumed_tick list \<Rightarrow> 's tick_writer \<Rightarrow>
   bool result option \<times> kafka_position list \<times> pyfloat list \<times> 's tick_writer" where
  "flush_loop ins [] raising backoff batch w =
     ((if tw_stop w then Some (Inr False) else None), [], [], w)"
| "flush_loop ins (a # as) raising backoff batch w =
     (if tw_stop w then (Some (Inr False), [], [], w)
      else case ins (fa_env a) (map ct_event batch) (tw_store w) of
        (Inl exc, s) \<Rightarrow>
          if exc = CancelledError then (Some (Inl exc), [], [], w\<lparr>tw_store := s\<rparr>)
          else (case flush_loop ins as raising (next_backoff MAX_BACKOFF_SECONDS backoff) batch
                  (w\<lparr>tw_store := s, tw_stop := fa_stopped a\<rparr>) of
                  (r, cs, ds, w') \<Rightarrow> (r, cs, backoff # ds, w'))
      | (Inr inserted, s) \<Rightarrow>
          let w1 = w\<lparr>tw_store := s, tw_inserted := tw_inserted w + inserted\<rparr>
          in case run_commits raising (commit_batch batch) of
               (Inl exc, cs) \<Rightarrow> (Some (Inl exc), cs, [], w1)
             | (Inr _, cs) \<Rightarrow> (Some (Inr True), cs, [], w1))"

definition flush ::
  "('a \<Rightarrow> 'e list \<Rightarrow> 's \<Rightarrow> int result \<times> 's) \<Rightarrow> 'a flush_attempt list \<Rightarrow> nat option \<Rightarrow>
   'e consumed_tick list \<Rightarrow> 's tick_writer \<Rightarrow>
   bool result option \<times> kafka_position list \<times> pyfloat list \<times> 's tick_writer" where
  "flush ins as raising batch w = flush_loop ins as raising f_0_1 batch w"

fun ensure_schema_loop ::
  "('a \<Rightarrow> 's \<Rightarrow> unit result \<times> 's) \<Rightarrow> 'a flush_attempt list \<Rightarrow> pyfloat \<Rightarrow> 's tick_writer \<Rightarrow>
   unit result option \<times> pyfloat list \<times> 's tick_writer" where
  "ensure_schema_loop schema [] backoff w = ((if tw_stop w then Some (Inr ()) else None), [], w)"
| "ensure_schema_loop schema (a # as) backoff w =
     (if tw_stop w then (Some (Inr ()), [], w)
      else case schema (fa_env a) (tw_store w) of
        (Inr _, s) \<Rightarrow> (Some (Inr ()), [], w\<lparr>tw_store := s\<rparr>)
      | (Inl exc, s) \<Rightarrow>
          if exc = CancelledError then (Some (Inl exc), [], w\<lparr>tw_store := s\<rparr>)
          else (case ensure_schema_loop schema as (next_backoff MAX_BACKOFF_SECONDS backoff)
                  (w\<lparr>tw_store := s, tw_stop := fa_stopped a\<rparr>) of
                  (r, ds, w') \<Rightarrow> (r, backoff # ds, w')))"

definition ensure_schema_with_retry ::
  "('a \<Rightarrow> 's \<Rightarrow> unit result \<times> 's) \<Rightarrow> 'a flush_attempt list \<Rightarrow> 's tick_writer \<Rightarrow>
   unit result option \<times> pyfloat list \<times> 's tick_writer" where
  "ensure_schema_with_retry schema as w = ensure_schema_loop schema as f_0_1 w"

section \<open>The loop\<close>

record ('raw, 'a) tick_input =
  ti_stop :: bool
  ti_poll :: "'raw poll_result"
  ti_polled :: pyfloat
  ti_started :: pyfloat
  ti_now :: pyfloat
  ti_attempts :: "'a flush_attempt list"
  ti_raising :: "nat option"
  ti_invalid_raises :: bool

text \<open>
  The three clock readings of a turn are those of the poll timeout, of a new batch's start,
  and of the test whether the batch has expired.
\<close>

datatype tick_outcome = TickContinues | TickStops | TickFlushing | TickRaises py_exn

record ('e, 's) tick_loop =
  tl_batch :: "'e consumed_tick list"
  tl_started :: pyfloat
  tl_writer :: "'s tick_writer"

definition handle_invalid_message ::
  "('a \<Rightarrow> 'e list \<Rightarrow> 's \<Rightarrow> int result \<times> 's) \<Rightarrow> ('raw, 'a) tick_input \<Rightarrow> kafka_position \<Rightarrow>
   'e consumed_tick list \<Rightarrow> 's tick_writer \<Rightarrow>
   bool result option \<times> kafka_position list \<times> 's tick_writer" where
  "handle_invalid_message ins t message batch w =
     (let commit = (\<lambda>cs w1. if ti_invalid_raises t then (Some (Inl kafka_exception), cs, w1)
                            else (Some (Inr True), cs @ [message], w1))
      in if batch \<noteq> [] then
           (case flush ins (ti_attempts t) (ti_raising t) batch w of
              (Some (Inr flushed), cs, _, w1) \<Rightarrow>
                if flushed then commit cs w1 else (Some (Inr False), cs, w1)
            | (r, cs, _, w1) \<Rightarrow> (r, cs, w1))
         else commit [] w)"

definition flush_and_clear ::
  "('a \<Rightarrow> 'e list \<Rightarrow> 's \<Rightarrow> int result \<times> 's) \<Rightarrow> ('raw, 'a) tick_input \<Rightarrow> ('e, 's) tick_loop \<Rightarrow>
   tick_outcome \<times> kafka_position list \<times> ('e, 's) tick_loop" where
  \<comment> \<open>\<open>await self._flush(batch, consumer); batch = []\<close>, whatever it returned\<close>
  "flush_and_clear ins t l =
     (case flush ins (ti_attempts t) (ti_raising t) (tl_batch l) (tl_writer l) of
        (None, cs, _, w1) \<Rightarrow> (TickFlushing, cs, l\<lparr>tl_writer := w1\<rparr>)
      | (Some (Inl exc), cs, _, w1) \<Rightarrow> (TickRaises exc, cs, l\<lparr>tl_writer := w1\<rparr>)
      | (Some (Inr _), cs, _, w1) \<Rightarrow> (TickContinues, cs, l\<lparr>tl_batch := [], tl_writer := w1\<rparr>))"

definition tick_turn ::
  "('a \<Rightarrow> 'e list \<Rightarrow> 's \<Rightarrow> int result \<times> 's) \<Rightarrow> ('raw \<Rightarrow> 'e option) \<Rightarrow> ('raw, 'a) tick_input \<Rightarrow>
   ('e, 's) tick_loop \<Rightarrow> tick_outcome \<times> kafka_position list \<times> ('e, 's) tick_loop" where
  "tick_turn ins parse t l0 =
     (let l = (if ti_stop t then l0\<lparr>tl_writer := stop_writer (tl_writer l0)\<rparr> else l0)
      in if tw_stop (tl_writer l) then (TickStops, [], l)
      else case poll_timeout (ti_polled t) (tl_started l) (tl_batch l) (tl_writer l) of
        Inl exc \<Rightarrow> (TickRaises exc, [], l)
      | Inr _ \<Rightarrow> (case ti_poll t of
        PollNone \<Rightarrow>
          if tl_batch l \<noteq> [] \<and> batch_expired (ti_now t) (tl_started l) (tl_writer l)
          then flush_and_clear ins t l else (TickContinues, [], l)
      | PollError \<Rightarrow> (TickContinues, [], l)
      | PollMessage raw topic part offset \<Rightarrow>
          (case parse raw of
             None \<Rightarrow>
               (case handle_invalid_message ins t (topic, part, offset) (tl_batch l) (tl_writer l) of
                  (None, cs, w1) \<Rightarrow> (TickFlushing, cs, l\<lparr>tl_writer := w1\<rparr>)
                | (Some (Inl exc), cs, w1) \<Rightarrow> (TickRaises exc, cs, l\<lparr>tl_writer := w1\<rparr>)
                | (Some (Inr handled), cs, w1) \<Rightarrow>
                    if handled then (TickContinues, cs, l\<lparr>tl_batch := [], tl_writer := w1\<rparr>)
                    else (TickStops, cs, l\<lparr>tl_writer := w1\<rparr>))
           | Some e \<Rightarrow>
               (let started = (if tl_batch l = [] then ti_started t else tl_started l);
                    c = \<lparr>ct_event = e, ct_topic = topic, ct_partition = part, ct_offset = offset\<rparr>;
                    l1 = l\<lparr>tl_batch := tl_batch l @ [c], tl_started := started\<rparr>
                in if should_flush (ti_now t) started (tl_batch l1) (tl_writer l1)
                   then flush_and_clear ins t l1 else (TickContinues, [], l1)))))"

fun run_ticks ::
  "('a \<Rightarrow> 'e list \<Rightarrow> 's \<Rightarrow> int result \<times> 's) \<Rightarrow> ('raw \<Rightarrow> 'e option) \<Rightarrow> ('raw, 'a) tick_input list \<Rightarrow>
   ('e, 's) tick_loop \<Rightarrow> tick_outcome \<times> kafka_position list \<times> ('e, 's) tick_loop" where
  "run_ticks ins parse [] l = (TickContinues, [], l)"
| "run_ticks ins parse (t # ts) l =
     (case tick_turn ins parse t l of
        (TickContinues, cs, l1) \<Rightarrow>
          (case run_ticks ins parse ts l1 of (r, cs', l') \<Rightarrow> (r, cs @ cs', l'))
      | (r, cs, l1) \<Rightarrow> (r, cs, l1))"

definition close_writer :: "('s \<Rightarrow> 's) \<Rightarrow> 's tick_writer \<Rightarrow> 's tick_writer" where
  \<comment> \<open>the \<open>finally\<close> of \<open>run\<close>\<close>
  "close_writer close w = w\<lparr>tw_store := close (tw_store w)\<rparr>"

definition run_writer ::
  "('a \<Rightarrow> 's \<Rightarrow> unit result \<times> 's) \<Rightarrow> ('a \<Rightarrow> 'e list \<Rightarrow> 's \<Rightarrow> int result \<times> 's) \<Rightarrow> ('s \<Rightarrow> 's) \<Rightarrow>
   ('raw \<Rightarrow> 'e option) \<Rightarrow> pyfloat \<Rightarrow> 'a flush_attempt list \<Rightarrow> ('raw, 'a) tick_input list \<Rightarrow>
   's tick_writer \<Rightarrow> tick_outcome \<times> kafka_position list \<times> 's tick_writer" where
  \<comment> \<open>\<open>run\<close> for the turns given; the store is closed when the loop has ended\<close>
  "run_writer schema ins close parse now as ts w =
     (case ensure_schema_with_retry schema as w of
        (None, _, w1) \<Rightarrow> (TickFlushing, [], w1)
      | (Some (Inl exc), _, w1) \<Rightarrow> (TickRaises exc, [], w1)
      | (Some (Inr _), _, w1) \<Rightarrow>
          (case run_ticks ins parse ts \<lparr>tl_batch = [], tl_started = now, tl_writer = w1\<rparr> of
             (r, cs, l) \<Rightarrow>
               (r, cs, if r = TickContinues \<or> r = TickFlushing then tl_writer l
                       else close_writer close (tl_writer l))))"

section \<open>Facts on committing a batch\<close>

lemma wf_last_by_partition: "wf_dict d \<Longrightarrow> wf_dict (last_by_partition d cs)"
  by (induction d cs rule: last_by_partition.induct) (auto split: option.split)

lemma last_by_partition_get:
  "(\<And>k x. dict_get d k = Some x \<Longrightarrow> ct_key x = k) \<Longrightarrow>
   dict_get (last_by_partition d cs) key = Some c \<Longrightarrow>
     ct_key c = key \<and> (dict_get d key = Some c \<or> c \<in> set cs) \<and>
     (\<forall>x. dict_get d key = Some x \<or> x \<in> set cs \<and> ct_key x = key \<longrightarrow> ct_offset x \<le> ct_offset c)"
proof (induction d cs rule: last_by_partition.induct)
  case (2 d x cs)
  let ?d = "case dict_get d (ct_key x) of None \<Rightarrow> dict_set (ct_key x) x d
    | Some previous \<Rightarrow> if ct_offset previous < ct_offset x then dict_set (ct_key x) x d else d"
  have keys: "\<And>k y. dict_get ?d k = Some y \<Longrightarrow> ct_key y = k"
    using "2.prems"(1) by (auto simp: dict_get_set split: option.splits if_splits)
  have d: "dict_get ?d key = (if key \<noteq> ct_key x then dict_get d key else
      case dict_get d key of None \<Rightarrow> Some x
      | Some previous \<Rightarrow> if ct_offset previous < ct_offset x then Some x else Some previous)"
    by (auto simp: dict_get_set split: option.split)
  from "2.prems"(2) have "dict_get (last_by_partition ?d cs) key = Some c" by simp
  from "2.IH" [OF keys this] show ?case
    unfolding d by (auto split: if_splits option.splits)
qed (auto)

lemma last_by_partition_None:
  "dict_get (last_by_partition d cs) key = None \<longleftrightarrow>
     dict_get d key = None \<and> (\<forall>c \<in> set cs. ct_key c \<noteq> key)"
proof (induction d cs rule: last_by_partition.induct)
  case (2 d x cs)
  let ?d = "case dict_get d (ct_key x) of None \<Rightarrow> dict_set (ct_key x) x d
    | Some previous \<Rightarrow> if ct_offset previous < ct_offset x then dict_set (ct_key x) x d else d"
  have "dict_get ?d key = None \<longleftrightarrow> dict_get d key = None \<and> ct_key x \<noteq> key"
    by (auto simp: dict_get_set split: option.split)
  with "2.IH" show ?case by simp
qed simp

text \<open>
  C29. A flushed batch commits one message per partition, the one with the highest offset,
  however the batch interleaves the partitions and whatever order the offsets came in.
\<close>

theorem commit_batch_highest_offset:
  "distinct (map (\<lambda>(t, p, i). (t, p)) (commit_batch batch)) \<and>
   ((t, p, i) \<in> set (commit_batch batch) \<longleftrightarrow>
     (\<exists>c \<in> set batch. ct_position c = (t, p, i)) \<and>
     (\<forall>c \<in> set batch. ct_key c = (t, p) \<longrightarrow> ct_offset c \<le> i))"
proof -
  let ?d = "last_by_partition [] batch"
  have w: "wf_dict ?d" by (simp add: wf_last_by_partition)
  note g = last_by_partition_get [of "[]" batch]
  have key: "(k, c) \<in> set ?d \<Longrightarrow> ct_key c = k" for k c
    using g dict_get_in_set [OF w, of k c] by auto
  have "map (\<lambda>(t, p, i). (t, p)) (commit_batch batch) = map fst ?d"
    using key by (auto simp: commit_batch_def dict_values_def ct_position_def ct_key_def intro: map_cong)
  then have d: "distinct (map (\<lambda>(t, p, i). (t, p)) (commit_batch batch))"
    using w by (simp add: wf_dict_def)
  have "(t, p, i) \<in> set (commit_batch batch) \<longleftrightarrow> (\<exists>c. dict_get ?d (t, p) = Some c \<and> ct_offset c = i)"
  proof
    assume "(t, p, i) \<in> set (commit_batch batch)"
    then obtain k c where "(k, c) \<in> set ?d" "ct_position c = (t, p, i)"
      by (auto simp: commit_batch_def dict_values_def)
    with key [of k c] show "\<exists>c. dict_get ?d (t, p) = Some c \<and> ct_offset c = i"
      by (auto simp: dict_get_in_set [OF w] ct_position_def ct_key_def)
  next
    assume "\<exists>c. dict_get ?d (t, p) = Some c \<and> ct_offset c = i"
    then obtain c where "dict_get ?d (t, p) = Some c" "ct_offset c = i" by blast
    with g [of "(t, p)" c] show "(t, p, i) \<in> set (commit_batch batch)"
      by (force simp: commit_batch_def dict_values_def ct_position_def ct_key_def dest: dict_get_mem)
  qed
  also have "\<dots> \<longleftrightarrow> (\<exists>c \<in> set batch. ct_position c = (t, p, i)) \<and>
     (\<forall>c \<in> set batch. ct_key c = (t, p) \<longrightarrow> ct_offset c \<le> i)"
  proof
    assume "\<exists>c. dict_get ?d (t, p) = Some c \<and> ct_offset c = i"
    with g [of "(t, p)"] show "(\<exists>c \<in> set batch. ct_position c = (t, p, i)) \<and>
        (\<forall>c \<in> set batch. ct_key c = (t, p) \<longrightarrow> ct_offset c \<le> i)"
      by (auto simp: ct_position_def ct_key_def)
  next
    assume a: "(\<exists>c \<in> set batch. ct_position c = (t, p, i)) \<and>
        (\<forall>c \<in> set batch. ct_key c = (t, p) \<longrightarrow> ct_offset c \<le> i)"
    then obtain c where c: "c \<in> set batch" "ct_key c = (t, p)" "ct_offset c = i"
      by (auto simp: ct_position_def ct_key_def)
    with last_by_partition_None [of "[]" batch "(t, p)"] obtain c' where
      "dict_get ?d (t, p) = Some c'" by auto
    with g [of "(t, p)" c'] a c show "\<exists>c. dict_get ?d (t, p) = Some c \<and> ct_offset c = i"
      by (auto intro: order_antisym)
  qed
  finally show ?thesis using d by simp
qed

section \<open>What the writer relies on\<close>

fun tick_of_poll :: "('raw \<Rightarrow> 'e option) \<Rightarrow> 'raw poll_result \<Rightarrow> 'e consumed_tick list" where
  "tick_of_poll parse (PollMessage raw topic part offset) =
     (case parse raw of
        None \<Rightarrow> []
      | Some e \<Rightarrow> [\<lparr>ct_event = e, ct_topic = topic, ct_partition = part, ct_offset = offset\<rparr>])"
| "tick_of_poll parse _ = []"

locale tick_sink =
  fixes ins :: "'a \<Rightarrow> 'e list \<Rightarrow> 's \<Rightarrow> int result \<times> 's"
    and stored :: "'s \<Rightarrow> 'e \<Rightarrow> bool"
  assumes ins_stores: "ins a es s = (Inr n, s') \<Longrightarrow> e \<in> set es \<Longrightarrow> stored s' e"
    and ins_keeps: "ins a es s = (r, s') \<Longrightarrow> stored s e \<Longrightarrow> stored s' e"
begin

lemma flush_loop_stores:
  "flush_loop ins as raising d batch w = (r, cs, ds, w') \<Longrightarrow>
     (cs \<noteq> [] \<or> r = Some (Inr True) \<longrightarrow> (\<forall>c \<in> set batch. stored (tw_store w') (ct_event c))) \<and>
     (r = Some (Inr False) \<longrightarrow> tw_stop w') \<and>
     (stored (tw_store w) e \<longrightarrow> stored (tw_store w') e)"
proof (induction as arbitrary: d w r cs ds w')
  case (Cons a as)
  show ?case
  proof (cases "tw_stop w")
    case False
    obtain q s where i: "ins (fa_env a) (map ct_event batch) (tw_store w) = (q, s)"
      by (cases "ins (fa_env a) (map ct_event batch) (tw_store w)")
    have keep: "stored (tw_store w) e \<Longrightarrow> stored s e" by (rule ins_keeps [OF i])
    show ?thesis
    proof (cases q)
      case (Inr n)
      then have "\<forall>c \<in> set batch. stored s (ct_event c)" using ins_stores [of _ _ _ n s] i by auto
      then show ?thesis using Cons.prems False i Inr keep
        by (auto simp: Let_def split: prod.splits sum.splits)
    next
      case (Inl exc)
      show ?thesis
      proof (cases "exc = CancelledError")
        case True
        with Cons.prems False i Inl keep show ?thesis by auto
      next
        case go: False
        let ?w = "w\<lparr>tw_store := s, tw_stop := fa_stopped a\<rparr>"
        obtain ds2 where
          "flush_loop ins as raising (next_backoff MAX_BACKOFF_SECONDS d) batch ?w = (r, cs, ds2, w')"
          using Cons.prems False i Inl go by (auto split: prod.splits)
        from Cons.IH [OF this] keep show ?thesis by auto
      qed
    qed
  qed (use Cons in auto)
qed (auto split: if_splits)

text \<open>
  The state of the loop against the events consumed so far: unless the writer has been
  stopped, each is stored or still in the batch.
\<close>

definition accounted :: "'e consumed_tick list \<Rightarrow> ('e, 's) tick_loop \<Rightarrow> bool" where
  "accounted seen l \<longleftrightarrow>
     tw_stop (tl_writer l) \<or>
     (\<forall>c \<in> set seen. stored (tw_store (tl_writer l)) (ct_event c) \<or> c \<in> set (tl_batch l))"

definition all_stored :: "'e consumed_tick list \<Rightarrow> ('e, 's) tick_loop \<Rightarrow> bool" where
  "all_stored seen l \<longleftrightarrow> (\<forall>c \<in> set seen. stored (tw_store (tl_writer l)) (ct_event c))"

lemma flush_stores:
  assumes "flush ins as raising batch w = (r, cs, ds, w')"
  shows "cs \<noteq> [] \<or> r = Some (Inr True) \<Longrightarrow> c \<in> set batch \<Longrightarrow> stored (tw_store w') (ct_event c)"
    and "r = Some (Inr False) \<Longrightarrow> tw_stop w'"
    and "stored (tw_store w) e \<Longrightarrow> stored (tw_store w') e"
  using flush_loop_stores [OF assms [unfolded flush_def], of e] by auto

lemma flush_and_clear_stores:
  assumes "flush_and_clear ins t l = (r, cs, l')" "\<not> tw_stop (tl_writer l)" "accounted seen l"
  shows "cs \<noteq> [] \<longrightarrow> all_stored seen l'" and "r = TickContinues \<longrightarrow> accounted seen l'"
proof -
  obtain q cs1 ds w1 where f: "flush ins (ti_attempts t) (ti_raising t) (tl_batch l) (tl_writer l) = (q, cs1, ds, w1)"
    by (cases "flush ins (ti_attempts t) (ti_raising t) (tl_batch l) (tl_writer l)")
  have l': "cs = cs1" "tl_writer l' = w1"
    using assms(1) f by (auto simp: flush_and_clear_def split: option.splits sum.splits)
  have stored: "all_stored seen l'" if "cs1 \<noteq> [] \<or> q = Some (Inr True)"
    using assms(2,3) flush_stores(1) [OF f that] flush_stores(3) [OF f]
    unfolding all_stored_def accounted_def l' by blast
  show "cs \<noteq> [] \<longrightarrow> all_stored seen l'" using stored l' by simp
  show "r = TickContinues \<longrightarrow> accounted seen l'"
  proof
    assume "r = TickContinues"
    then obtain b where q: "q = Some (Inr b)"
      using assms(1) f by (auto simp: flush_and_clear_def split: option.splits sum.splits)
    show "accounted seen l'"
    proof (cases b)
      case True
      with q stored show ?thesis by (auto simp: accounted_def all_stored_def)
    next
      case False
      with q flush_stores(2) [OF f] l' show ?thesis by (simp add: accounted_def)
    qed
  qed
qed

lemma handle_invalid_stores:
  assumes "handle_invalid_message ins t m batch w = (r, cs, w')"
    and seen: "\<forall>c \<in> set seen. stored (tw_store w) (ct_event c) \<or> c \<in> set batch"
  shows "cs \<noteq> [] \<or> r = Some (Inr True) \<longrightarrow> (\<forall>c \<in> set seen. stored (tw_store w') (ct_event c))"
proof (cases "batch = []")
  case True
  with assms show ?thesis by (auto simp: handle_invalid_message_def split: if_splits)
next
  case False
  obtain q cs1 ds w1 where f: "flush ins (ti_attempts t) (ti_raising t) batch w = (q, cs1, ds, w1)"
    by (cases "flush ins (ti_attempts t) (ti_raising t) batch w")
  have w: "w' = w1" "cs \<noteq> [] \<or> r = Some (Inr True) \<Longrightarrow> cs1 \<noteq> [] \<or> q = Some (Inr True)"
    using assms(1) f False
    by (auto simp: handle_invalid_message_def Let_def split: option.splits sum.splits if_splits)
  then show ?thesis using seen flush_stores(1) [OF f] flush_stores(3) [OF f] by blast
qed

lemma accounted_stopped: "tw_stop (tl_writer l) \<Longrightarrow> accounted seen l"
  by (simp add: accounted_def)

lemma turn_message:
  assumes "accounted seen l" "\<not> tw_stop (tl_writer l)" "c = \<lparr>ct_event = e, ct_topic = topic, ct_partition = part, ct_offset = offset\<rparr>"
    "l1 = l\<lparr>tl_batch := tl_batch l @ [c], tl_started := st\<rparr>"
    "(r, cs, l') = (if b then flush_and_clear ins t l1 else (TickContinues, [], l1))"
  shows "(cs \<noteq> [] \<longrightarrow> all_stored (seen @ [c]) l') \<and> (r = TickContinues \<longrightarrow> accounted (seen @ [c]) l')"
proof -
  have acc: "accounted (seen @ [c]) l1" using assms(1,2,4) by (auto simp: accounted_def)
  have ns: "\<not> tw_stop (tl_writer l1)" using assms(2,4) by simp
  show ?thesis
  proof (cases b)
    case True
    with assms(5) have "flush_and_clear ins t l1 = (r, cs, l')" by simp
    from flush_and_clear_stores [OF this ns acc] show ?thesis by blast
  qed (use assms(5) acc in simp)
qed

lemma turn_invalid:
  assumes "accounted seen l" "\<not> tw_stop (tl_writer l)"
    "handle_invalid_message ins t m (tl_batch l) (tl_writer l) = (q, cs, w1)"
    "(r, cs', l') = (case q of
        None \<Rightarrow> (TickFlushing, cs, l\<lparr>tl_writer := w1\<rparr>)
      | Some (Inl exc) \<Rightarrow> (TickRaises exc, cs, l\<lparr>tl_writer := w1\<rparr>)
      | Some (Inr handled) \<Rightarrow>
          if handled then (TickContinues, cs, l\<lparr>tl_batch := [], tl_writer := w1\<rparr>)
          else (TickStops, cs, l\<lparr>tl_writer := w1\<rparr>))"
  shows "(cs' \<noteq> [] \<longrightarrow> all_stored seen l') \<and> (r = TickContinues \<longrightarrow> accounted seen l')"
proof -
  have "cs' = cs" "tl_writer l' = w1" "r = TickContinues \<Longrightarrow> q = Some (Inr True)"
    using assms(4) by (auto split: option.splits sum.splits if_splits)
  with handle_invalid_stores [OF assms(3), of seen] assms(1,2) show ?thesis
    by (auto simp: accounted_def all_stored_def)
qed

lemma turn_stores:
  assumes "tick_turn ins parse t l0 = (r, cs, l')" "accounted seen l0"
  shows "(cs \<noteq> [] \<longrightarrow> all_stored (seen @ tick_of_poll parse (ti_poll t)) l') \<and>
    (r = TickContinues \<longrightarrow> accounted (seen @ tick_of_poll parse (ti_poll t)) l')"
proof -
  define l where "l = (if ti_stop t then l0\<lparr>tl_writer := stop_writer (tl_writer l0)\<rparr> else l0)"
  have acc: "accounted seen l" using assms(2) by (simp add: l_def accounted_def stop_writer_def)
  show ?thesis
  proof (cases "tw_stop (tl_writer l)")
    case True
    with assms(1) show ?thesis by (simp add: tick_turn_def l_def [symmetric])
  next
    case run: False
    show ?thesis
    proof (cases "poll_timeout (ti_polled t) (tl_started l) (tl_batch l) (tl_writer l)")
      case (Inl exc)
      with assms(1) run show ?thesis by (auto simp: tick_turn_def l_def [symmetric])
    next
      case (Inr tmo)
      note turn = assms(1) [unfolded tick_turn_def Let_def, folded l_def, simplified run Inr, simplified]
      show ?thesis
      proof (cases "ti_poll t")
        case PollNone
        with turn flush_and_clear_stores [OF _ run acc, of t r cs l'] acc show ?thesis
          by (auto split: if_splits)
      next
        case PollError
        with turn acc show ?thesis by auto
      next
        case (PollMessage raw topic part offset)
        show ?thesis
        proof (cases "parse raw")
          case None
          obtain q cs1 w1 where h: "handle_invalid_message ins t (topic, part, offset) (tl_batch l) (tl_writer l)
            = (q, cs1, w1)"
            by (cases "handle_invalid_message ins t (topic, part, offset) (tl_batch l) (tl_writer l)")
          from turn_invalid [OF acc run h, of r cs l'] turn PollMessage None h show ?thesis
            by (auto split: option.splits sum.splits)
        next
          case (Some e)
          from turn_message [OF acc run refl refl, of r cs l' _ t _ e topic part offset] turn PollMessage Some
          show ?thesis by simp metis
        qed
      qed
    qed
  qed
qed

lemma run_stores:
  "run_ticks ins parse ts l = (TickContinues, cs, l') \<Longrightarrow> accounted seen l \<Longrightarrow>
     accounted (seen @ concat (map (\<lambda>t. tick_of_poll parse (ti_poll t)) ts)) l'"
proof (induction ts arbitrary: l cs seen)
  case (Cons t ts)
  obtain r1 cs1 l1 where t: "tick_turn ins parse t l = (r1, cs1, l1)" by (cases "tick_turn ins parse t l")
  with Cons.prems(1) obtain cs2 where
    "r1 = TickContinues" "run_ticks ins parse ts l1 = (TickContinues, cs2, l')"
    by (auto split: tick_outcome.splits prod.splits)
  with Cons.IH turn_stores [OF t Cons.prems(2)] show ?case by force
qed simp

end

section \<open>The history store as the writer's store\<close>

text \<open>
  The writer's parser does not check that the symbol is a string; an event whose symbol is
  another JSON value is consumed like any other and only the database refuses it.
\<close>

datatype tick_event = GoodTick market_event | UnstorableTick json

fun tick_of_outcome :: "market_event parse_outcome \<Rightarrow> tick_event option" where
  "tick_of_outcome Rejected = None"
| "tick_of_outcome (Parsed e) = Some (GoodTick e)"
| "tick_of_outcome (BadSymbol v) = Some (UnstorableTick v)"

fun good_ticks :: "tick_event list \<Rightarrow> market_event list option" where
  "good_ticks [] = Some []"
| "good_ticks (GoodTick e # es) = map_option ((#) e) (good_ticks es)"
| "good_ticks (UnstorableTick v # es) = None"

type_synonym sink_state = "history_store \<times> database"

definition history_insert ::
  "py_exn option \<times> db_reply \<Rightarrow> tick_event list \<Rightarrow> sink_state \<Rightarrow> int result \<times> sink_state" where
  "history_insert env ticks s =
     (let (pool_raises, reply) = env; (h, db) = s
      in case good_ticks ticks of
           Some events \<Rightarrow> insert_ticks pool_raises reply events h db
         | None \<Rightarrow>
             (case connect pool_raises h of
                (Inl exc, h1) \<Rightarrow> (Inl exc, h1, db)
              | (Inr _, h1) \<Rightarrow> (Inl (OtherError ''DataError''), h1, db)))"

fun tick_stored :: "sink_state \<Rightarrow> tick_event \<Rightarrow> bool" where
  "tick_stored (h, db) (GoodTick e) =
     (case (db, event_to_row e) of
        (Some t, Inr r) \<Rightarrow> row_key r \<in> row_keys t
      | _ \<Rightarrow> False)"
| "tick_stored (h, db) (UnstorableTick v) = False"

lemma good_ticks_mem: "good_ticks ts = Some es \<Longrightarrow> t \<in> set ts \<Longrightarrow> \<exists>e \<in> set es. t = GoodTick e"
  by (induction ts arbitrary: es rule: good_ticks.induct) auto

lemma insert_ticks_keeps:
  assumes "insert_ticks pr reply es h db = (r, h', db')" "db = Some t" "k \<in> row_keys t"
  shows "\<exists>t'. db' = Some t' \<and> k \<in> row_keys t'"
proof -
  have "db' = Some t \<or> (\<exists>rows. db' = Some (sql_insert rows t))"
    using assms(1,2) by (auto simp: insert_ticks_def run_insert_def Let_def
      split: prod.splits sum.splits if_splits db_reply.splits)
  with assms(3) show ?thesis by (auto simp: row_keys_insert)
qed

lemma event_rows_mem:
  "events_to_rows es = Inr rows \<Longrightarrow> e \<in> set es \<Longrightarrow> \<exists>r \<in> set rows. event_to_row e = Inr r"
  by (induction es arbitrary: rows) (auto simp: bindE_eq_Inr)

interpretation hist: tick_sink history_insert tick_stored
proof
  fix a es s n s' e
  assume i: "history_insert a es s = (Inr n, s')" and e: "e \<in> set es"
  obtain pr reply h db h' db' where s: "a = (pr, reply)" "s = (h, db)" "s' = (h', db')"
    by (metis prod.exhaust)
  from i s obtain evs where g: "good_ticks es = Some evs"
    "insert_ticks pr reply evs h db = (Inr n, h', db')"
    by (auto simp: history_insert_def split: option.splits prod.splits sum.splits)
  from good_ticks_mem [OF g(1) e] obtain m where m: "m \<in> set evs" "e = GoodTick m" by blast
  then have "evs \<noteq> []" by auto
  from insert_ticks_store [OF g(2) refl this] obtain t rows where
    t: "events_to_rows evs = Inr rows" "db' = Some (sql_insert rows t)" by blast
  from event_rows_mem [OF t(1) m(1)] obtain r where "r \<in> set rows" "event_to_row m = Inr r" by blast
  with t m s show "tick_stored s' e" by (simp add: row_keys_insert)
next
  fix a es s r s' e
  assume i: "history_insert a es s = (r, s')" and st: "tick_stored s e"
  obtain pr reply h db h' db' where s: "a = (pr, reply)" "s = (h, db)" "s' = (h', db')"
    by (metis prod.exhaust)
  from st s obtain m row t where m: "e = GoodTick m" "db = Some t" "event_to_row m = Inr row"
    "row_key row \<in> row_keys t"
    by (cases e) (auto split: option.splits sum.splits)
  have "\<exists>t'. db' = Some t' \<and> row_key row \<in> row_keys t'"
  proof (cases "good_ticks es")
    case None
    with i s m show ?thesis by (auto simp: history_insert_def split: prod.splits sum.splits)
  next
    case (Some evs)
    with i s have "insert_ticks pr reply evs h db = (r, h', db')" by (simp add: history_insert_def)
    from insert_ticks_keeps [OF this m(2,4)] show ?thesis .
  qed
  with m s show "tick_stored s' e" by auto
qed

section \<open>Commits follow storage\<close>

text \<open>
  C4. A tick is stored before its offset is committed: whenever a turn of the writer's loop
  commits anything, every tick the writer has consumed up to then, in this turn or an
  earlier one, has its row in the table. This holds for full, expired and partial batches,
  for batches cut short by a malformed message, for retried and ambiguous writes, and when
  a commit raises.
\<close>

theorem commits_follow_storage:
  assumes "tl_batch l0 = []"
    "run_ticks history_insert parse ts l0 = (TickContinues, before, l)"
    "tick_turn history_insert parse t l = (r, commits, l')" "commits \<noteq> []"
  shows "\<forall>c \<in> set (concat (map (\<lambda>t. tick_of_poll parse (ti_poll t)) (ts @ [t]))).
    tick_stored (tw_store (tl_writer l')) (ct_event c)"
proof -
  have "hist.accounted [] l0" by (simp add: hist.accounted_def)
  from hist.run_stores [OF assms(2) this] hist.turn_stores [OF assms(3)] assms(4)
  show ?thesis by (force simp: hist.all_stored_def)
qed

section \<open>Retrying a write\<close>

lemma flush_loop_fails:
  "(\<And>a s. a \<in> set as \<Longrightarrow> P s \<Longrightarrow> \<exists>exc s'. exc \<noteq> CancelledError \<and>
      ins (fa_env a) (map ct_event batch) s = (Inl exc, s') \<and> P s') \<Longrightarrow>
   (\<And>a. a \<in> set as \<Longrightarrow> \<not> fa_stopped a) \<Longrightarrow>
   P (tw_store w) \<Longrightarrow> \<not> tw_stop w \<Longrightarrow>
   \<exists>w'. P (tw_store w') \<and> \<not> tw_stop w' \<and> tw_inserted w' = tw_inserted w \<and>
     (\<forall>rest. flush_loop ins (as @ rest) raising d batch w =
       (case flush_loop ins rest raising ((next_backoff f_5_0 ^^ length as) d) batch w' of
          (r, cs, ds, w'') \<Rightarrow> (r, cs, map (\<lambda>k. (next_backoff f_5_0 ^^ k) d) [0..<length as] @ ds, w'')))"
proof (induction as arbitrary: d w)
  case Nil
  then show ?case by (intro exI [of _ w]) (auto split: prod.split)
next
  case (Cons a as)
  from Cons.prems(1) [of a, OF _ Cons.prems(3)] Cons.prems(2) obtain exc s where
    exc: "\<not> fa_stopped a" "exc \<noteq> CancelledError"
    and s: "ins (fa_env a) (map ct_event batch) (tw_store w) = (Inl exc, s)" "P s" by auto
  let ?w = "w\<lparr>tw_store := s, tw_stop := False\<rparr>" and ?d = "next_backoff f_5_0 d"
  have ih: "\<exists>w'. P (tw_store w') \<and> \<not> tw_stop w' \<and> tw_inserted w' = tw_inserted ?w \<and>
     (\<forall>rest. flush_loop ins (as @ rest) raising ?d batch ?w =
       (case flush_loop ins rest raising ((next_backoff f_5_0 ^^ length as) ?d) batch w' of
          (r, cs, ds, w'') \<Rightarrow> (r, cs, map (\<lambda>k. (next_backoff f_5_0 ^^ k) ?d) [0..<length as] @ ds, w'')))"
    by (rule Cons.IH) (use Cons.prems(1,2) s(2) in auto)
  have m: "map (\<lambda>k. (next_backoff f_5_0 ^^ k) d) [0..<Suc (length as)] =
      d # map (\<lambda>k. (next_backoff f_5_0 ^^ k) ?d) [0..<length as]"
    by (simp add: map_upt_Suc funpow_swap1 del: upt_Suc)
  from ih obtain w' where w': "P (tw_store w')" "\<not> tw_stop w'" "tw_inserted w' = tw_inserted w"
    "\<And>rest. flush_loop ins (as @ rest) raising ?d batch ?w =
       (case flush_loop ins rest raising ((next_backoff f_5_0 ^^ length as) ?d) batch w' of
          (r, cs, ds, w'') \<Rightarrow> (r, cs, map (\<lambda>k. (next_backoff f_5_0 ^^ k) ?d) [0..<length as] @ ds, w''))"
    by auto
  show ?case
    by (intro exI [of _ w'])
      (use w' s exc Cons.prems(4) in \<open>auto simp: MAX_BACKOFF_SECONDS_def m funpow_swap1
        simp del: upt_Suc split: prod.split\<close>)
qed

lemma good_ticks_map [simp]: "good_ticks (map GoodTick es) = Some es"
  by (induction es) auto

lemma delays_bounds:
  "\<forall>d \<in> set (map (\<lambda>k. (next_backoff f_5_0 ^^ k) f_0_1) [0..<n]). f_0_1 \<le> d \<and> d \<le> f_5_0"
  using seconds_backoff.delay_bounds seconds_backoff.delay_mono [of 0] by auto

definition db_fails :: "(py_exn option \<times> db_reply) flush_attempt \<Rightarrow> bool" where
  \<comment> \<open>the statement raises, with or without having run, if a connection can be had at all\<close>
  "db_fails a \<longleftrightarrow> \<not> fa_stopped a \<and> fst (fa_env a) \<noteq> Some CancelledError \<and>
     (\<exists>exc took. snd (fa_env a) = DbRaises exc took \<and> exc \<noteq> CancelledError)"

definition db_works :: "(py_exn option \<times> db_reply) flush_attempt \<Rightarrow> bool" where
  "db_works a \<longleftrightarrow> fa_env a = (None, DbRuns)"

lemma map_unavailable_cancelled [simp]: "map_unavailable exc = CancelledError \<longleftrightarrow> exc = CancelledError"
  by (cases exc) (auto simp: map_unavailable_def is_unavailable_error_def)

lemma connect_cases:
  obtains (up) h1 where "connect pr h = (Inr (), h1)"
  | (down) exc where "pr = Some exc" "connect pr h = (Inl (map_unavailable exc), h)"
  by (cases "hs_pool h"; cases pr) (auto simp: connect_def)

lemma history_insert_fails:
  assumes "events_to_rows es = Inr rows" "es \<noteq> []" "list_all row_encodes rows" "db_fails a"
  shows "\<exists>exc h1 t1. exc \<noteq> CancelledError \<and>
    history_insert (fa_env a) (map GoodTick es) (h, Some t) = (Inl exc, h1, Some t1) \<and>
    (t1 = t \<or> t1 = sql_insert rows t)"
proof -
  obtain pr exc took where a: "fa_env a = (pr, DbRaises exc took)" "exc \<noteq> CancelledError"
    "pr \<noteq> Some CancelledError"
    using assms(4) by (cases "fa_env a") (auto simp: db_fails_def)
  show ?thesis
  proof (cases rule: connect_cases [of pr h])
    case (up h1)
    with assms a show ?thesis by (simp add: history_insert_def insert_ticks_def run_insert_def Let_def)
  next
    case (down exc1)
    with assms a show ?thesis by (simp add: history_insert_def insert_ticks_def)
  qed
qed

lemma ms_to_datetime_not_cancelled: "ms_to_datetime n \<noteq> Inl CancelledError"
  by (auto simp: ms_to_datetime_def f_of_int_def bindE_def fromtimestamp_us_def Let_def
      split: pyfloat.splits if_splits)

lemma events_to_rows_not_cancelled: "events_to_rows es \<noteq> Inl CancelledError"
proof (induction es)
  case (Cons e es)
  then show ?case using ms_to_datetime_not_cancelled [of "ev_event_ts e"]
    by (cases "ms_to_datetime (ev_event_ts e)"; cases "events_to_rows es") (auto simp: event_to_row_def)
qed simp

text \<open>
  C28. A write is retried until it succeeds: after \<open>n\<close> failed attempts, whether or not the
  failed statements took effect, the first attempt the database serves ends the flush with
  \<open>True\<close>. The table is the one a single insert would have left, the batch's offsets are
  committed once, and every delay slept lies between 0.1 and 5 seconds.
\<close>

theorem flush_recovers:
  assumes "map ct_event batch = map GoodTick es" "es \<noteq> []" "events_to_rows es = Inr rows"
    "list_all row_encodes rows" "list_all db_fails fs" "db_works ok" "\<not> tw_stop w"
    "tw_store w = (h, Some t)"
  shows "\<exists>ds w'. flush history_insert (fs @ ok # rest) None batch w =
      (Some (Inr True), commit_batch batch, ds, w') \<and>
    snd (tw_store w') = Some (sql_insert rows t) \<and> length ds = length fs \<and>
    (\<forall>d \<in> set ds. f_0_1 \<le> d \<and> d \<le> MAX_BACKOFF_SECONDS)"
proof -
  define P where "P s \<longleftrightarrow> (\<exists>h1 t1. s = (h1, Some t1) \<and> (t1 = t \<or> t1 = sql_insert rows t))"
    for s :: sink_state
  have f: "\<exists>exc s'. exc \<noteq> CancelledError \<and> history_insert (fa_env a) (map ct_event batch) s = (Inl exc, s') \<and> P s'"
    if a: "a \<in> set fs" and s: "P s" for a s
  proof -
    from s obtain h1 t1 where s1: "s = (h1, Some t1)" "t1 = t \<or> t1 = sql_insert rows t"
      by (auto simp: P_def)
    from a assms(5) have "db_fails a" by (simp add: list_all_iff)
    from history_insert_fails [OF assms(3,2,4) this, of h1 t1] s1 show ?thesis
      by (auto simp: assms(1) P_def)
  qed
  have st: "\<not> fa_stopped a" if "a \<in> set fs" for a
    using assms(5) that by (auto simp: list_all_iff db_fails_def)
  have "P (tw_store w)" using assms(8) by (simp add: P_def)
  from flush_loop_fails [of fs P history_insert batch w None f_0_1, OF f st this assms(7)]
  obtain w1 where w1: "P (tw_store w1)" "\<not> tw_stop w1"
    "\<And>rest. flush_loop history_insert (fs @ rest) None f_0_1 batch w =
       (case flush_loop history_insert rest None ((next_backoff f_5_0 ^^ length fs) f_0_1) batch w1 of
          (r, cs, ds, w'') \<Rightarrow> (r, cs, map (\<lambda>k. (next_backoff f_5_0 ^^ k) f_0_1) [0..<length fs] @ ds, w''))"
    by blast
  from w1(1) obtain h1 t1 where s1: "tw_store w1 = (h1, Some t1)" "sql_insert rows t1 = sql_insert rows t"
    by (auto simp: P_def)
  obtain n where "history_insert (fa_env ok) (map ct_event batch) (tw_store w1)
      = (Inr n, h1\<lparr>hs_pool := True\<rparr>, Some (sql_insert rows t))"
    using assms(2,3,4,6) s1
    by (simp add: history_insert_def assms(1) db_works_def insert_ticks_effect)
  then show ?thesis
    using w1(2,3) delays_bounds [of "length fs"]
    by (simp add: flush_def run_commits_def Let_def MAX_BACKOFF_SECONDS_def)
qed

text \<open>
  C36. One timestamp outside the range of \<open>datetime\<close> blocks the writer: while the batch holds
  a tick whose \<open>event_ts\<close> does not convert, a value the parser accepts, no number of
  attempts ends the flush. Nothing of the batch is stored, nothing is committed, and only
  \<open>stop\<close> gets the writer out.
\<close>

theorem out_of_range_tick_blocks_flush:
  assumes "c \<in> set batch" "ct_event c = GoodTick e" "ms_to_datetime (ev_event_ts e) = Inl bad"
    "list_all (\<lambda>a. \<not> fa_stopped a \<and> fst (fa_env a) \<noteq> Some CancelledError) as" "\<not> tw_stop w"
  shows "\<exists>ds w'. flush history_insert as raising batch w = (None, [], ds, w') \<and>
    snd (tw_store w') = snd (tw_store w) \<and> tw_inserted w' = tw_inserted w \<and> length ds = length as"
proof -
  define P where "P s \<longleftrightarrow> snd s = snd (tw_store w)" for s :: sink_state
  have f: "\<exists>exc s'. exc \<noteq> CancelledError \<and> history_insert (fa_env a) (map ct_event batch) s = (Inl exc, s') \<and> P s'"
    if a: "a \<in> set as" and s: "P s" for a s
  proof -
    obtain pr reply h db where e: "fa_env a = (pr, reply)" "s = (h, db)" by (metis prod.exhaust)
    have pr: "pr \<noteq> Some CancelledError" using a assms(4) e by (auto simp: list_all_iff)
    show ?thesis
    proof (cases "good_ticks (map ct_event batch)")
      case None
      with e pr s show ?thesis
        by (cases rule: connect_cases [of pr h]) (auto simp: history_insert_def P_def)
    next
      case (Some es)
      have "e \<in> set es" using good_ticks_mem [OF Some, of "GoodTick e"] assms(1,2) by force
      moreover from this assms(3) obtain bad' where r: "events_to_rows es = Inl bad'"
        using events_to_rows_Inl [of e es bad] by (auto simp: event_to_row_def)
      moreover have "bad' \<noteq> CancelledError" using r events_to_rows_not_cancelled by auto
      ultimately show ?thesis using Some e pr s
        by (cases rule: connect_cases [of pr h]) (auto simp: history_insert_def insert_ticks_def P_def)
    qed
  qed
  have st: "\<not> fa_stopped a" if "a \<in> set as" for a
    using assms(4) that by (auto simp: list_all_iff)
  have "P (tw_store w)" by (simp add: P_def)
  from flush_loop_fails [of as P history_insert batch w raising f_0_1, OF f st this assms(5)]
  obtain w1 where w1: "P (tw_store w1)" "\<not> tw_stop w1" "tw_inserted w1 = tw_inserted w"
    "\<And>rest. flush_loop history_insert (as @ rest) raising f_0_1 batch w =
       (case flush_loop history_insert rest raising ((next_backoff f_5_0 ^^ length as) f_0_1) batch w1 of
          (r, cs, ds, w'') \<Rightarrow> (r, cs, map (\<lambda>k. (next_backoff f_5_0 ^^ k) f_0_1) [0..<length as] @ ds, w''))"
    by blast
  from w1(4) [of "[]"] w1(1-3) show ?thesis by (simp add: flush_def P_def)
qed

section \<open>The batch is bounded\<close>

lemma flush_batch_max:
  "flush_loop ins as raising d batch w = (r, cs, ds, w') \<Longrightarrow> tw_batch_max w' = tw_batch_max w"
proof (induction as arbitrary: d w r cs ds w')
  case (Cons a as)
  then show ?case
    by (fastforce simp: Let_def split: if_splits prod.splits sum.splits)
qed (auto split: if_splits)

lemma flush_and_clear_batch:
  assumes "flush_and_clear ins t l = (TickContinues, cs, l')"
  shows "tl_batch l' = [] \<and> tw_batch_max (tl_writer l') = tw_batch_max (tl_writer l)"
proof -
  obtain q cs1 ds w1 where f: "flush ins (ti_attempts t) (ti_raising t) (tl_batch l) (tl_writer l) = (q, cs1, ds, w1)"
    by (cases "flush ins (ti_attempts t) (ti_raising t) (tl_batch l) (tl_writer l)")
  from flush_batch_max [OF this [unfolded flush_def]] f assms show ?thesis
    by (auto simp: flush_and_clear_def split: option.splits sum.splits)
qed

lemma handle_invalid_batch_max:
  assumes "handle_invalid_message ins t m batch w = (r, cs, w')"
  shows "tw_batch_max w' = tw_batch_max w"
proof -
  obtain q cs1 ds w1 where f: "flush ins (ti_attempts t) (ti_raising t) batch w = (q, cs1, ds, w1)"
    by (cases "flush ins (ti_attempts t) (ti_raising t) batch w")
  from flush_batch_max [OF this [unfolded flush_def]] f assms show ?thesis
    by (auto simp: handle_invalid_message_def Let_def split: option.splits sum.splits if_splits)
qed

definition below_max :: "('e, 's) tick_loop \<Rightarrow> bool" where
  "below_max l \<longleftrightarrow> int (length (tl_batch l)) < tw_batch_max (tl_writer l)"

lemma turn_below_max:
  assumes "tick_turn ins parse t l0 = (TickContinues, cs, l')" "below_max l0"
  shows "below_max l' \<and> tw_batch_max (tl_writer l') = tw_batch_max (tl_writer l0)"
proof -
  define l where "l = (if ti_stop t then l0\<lparr>tl_writer := stop_writer (tl_writer l0)\<rparr> else l0)"
  have l: "below_max l" "tw_batch_max (tl_writer l) = tw_batch_max (tl_writer l0)"
    using assms(2) by (simp_all add: l_def below_max_def stop_writer_def)
  have empty: "below_max l''" if "tl_batch l'' = []" "tw_batch_max (tl_writer l'') = tw_batch_max (tl_writer l)" for l''
    using that l by (simp add: below_max_def)
  have run: "\<not> tw_stop (tl_writer l)"
    using assms(1) by (auto simp: tick_turn_def Let_def l_def [symmetric] split: if_splits)
  obtain tmo where to: "poll_timeout (ti_polled t) (tl_started l) (tl_batch l) (tl_writer l) = Inr tmo"
    using assms(1) run by (cases "poll_timeout (ti_polled t) (tl_started l) (tl_batch l) (tl_writer l)")
      (auto simp: tick_turn_def Let_def l_def [symmetric])
  note turn = assms(1) [unfolded tick_turn_def Let_def, folded l_def, simplified run to, simplified]
  show ?thesis
  proof (cases "ti_poll t")
    case PollNone
    with turn l empty flush_and_clear_batch [of ins t l cs l'] show ?thesis by (auto split: if_splits)
  next
    case PollError
    with turn l show ?thesis by auto
  next
    case (PollMessage raw topic part offset)
    show ?thesis
    proof (cases "parse raw")
      case None
      obtain q cs1 w1 where h: "handle_invalid_message ins t (topic, part, offset) (tl_batch l) (tl_writer l)
        = (q, cs1, w1)"
        by (cases "handle_invalid_message ins t (topic, part, offset) (tl_batch l) (tl_writer l)")
      with turn PollMessage None have "tl_batch l' = []" "tl_writer l' = w1"
        by (auto split: option.splits sum.splits if_splits)
      with handle_invalid_batch_max [OF h] empty [of l'] l show ?thesis by simp
    next
      case (Some e)
      let ?st = "if tl_batch l = [] then ti_started t else tl_started l"
      let ?l = "l\<lparr>tl_batch := tl_batch l @ [\<lparr>ct_event = e, ct_topic = topic, ct_partition = part, ct_offset = offset\<rparr>],
        tl_started := ?st\<rparr>"
      show ?thesis
      proof (cases "should_flush (ti_now t) ?st (tl_batch ?l) (tl_writer ?l)")
        case True
        with turn PollMessage Some have "flush_and_clear ins t ?l = (TickContinues, cs, l')" by simp
        from flush_and_clear_batch [OF this] empty [of l'] l show ?thesis by simp
      next
        case False
        with turn PollMessage Some have "l' = ?l" by simp
        with False l show ?thesis by (simp add: should_flush_def below_max_def)
      qed
    qed
  qed
qed

text \<open>
  C38. The batch never reaches its maximum between two turns: a batch that gets there is
  flushed in the same turn, whatever the clock, the polls and the database do.
\<close>

theorem batch_stays_below_max:
  "run_ticks ins parse ts l = (TickContinues, cs, l') \<Longrightarrow>
     int (length (tl_batch l)) < tw_batch_max (tl_writer l) \<Longrightarrow>
     int (length (tl_batch l')) < tw_batch_max (tl_writer l) \<and>
     tw_batch_max (tl_writer l') = tw_batch_max (tl_writer l)"
proof (induction ts arbitrary: l cs)
  case (Cons t ts)
  obtain r1 cs1 l1 where t: "tick_turn ins parse t l = (r1, cs1, l1)" by (cases "tick_turn ins parse t l")
  with Cons.prems(1) obtain cs2 where
    r: "r1 = TickContinues" "run_ticks ins parse ts l1 = (TickContinues, cs2, l')"
    by (auto split: tick_outcome.splits prod.splits)
  with turn_below_max [of ins parse t l cs1 l1] t Cons.prems(2)
  have "int (length (tl_batch l1)) < tw_batch_max (tl_writer l1)"
    "tw_batch_max (tl_writer l1) = tw_batch_max (tl_writer l)" by (auto simp: below_max_def)
  with Cons.IH [OF r(2)] show ?case by simp
qed simp

section \<open>Witnesses\<close>

definition sample_writer :: "sink_state tick_writer" where
  "sample_writer = new_tick_writer (\<lparr>hs_pool = True, hs_url = []\<rparr>, Some []) 2 100"

definition sample_tick :: "int \<Rightarrow> tick_event consumed_tick" where
  "sample_tick n = \<lparr>ct_event = GoodTick (sample_event ''A'' n), ct_topic = ''t'', ct_partition = 0, ct_offset = n\<rparr>"

definition sample_works :: "(py_exn option \<times> db_reply) flush_attempt" where
  "sample_works = \<lparr>fa_env = (None, DbRuns), fa_stopped = False\<rparr>"

definition sample_fails :: "(py_exn option \<times> db_reply) flush_attempt" where
  "sample_fails = \<lparr>fa_env = (None, DbRaises PyTimeoutError True), fa_stopped = False\<rparr>"

lemma sample_rows: "events_to_rows [sample_event ''A'' 1] = Inr [exact_row (sample_event ''A'' 1)]"
  "row_encodes (exact_row (sample_event ''A'' 1))"
  using exact_rows [of "[sample_event ''A'' 1]"] sample_storable [of 1]
  unfolding storable_def by simp_all

theorem commit_batch_highest_offset_witness:
  "(''t'', 0, 7) \<in> set (commit_batch
     [\<lparr>ct_event = (), ct_topic = ''t'', ct_partition = 0, ct_offset = 7\<rparr>,
      \<lparr>ct_event = (), ct_topic = ''t'', ct_partition = 1, ct_offset = 9\<rparr>,
      \<lparr>ct_event = (), ct_topic = ''t'', ct_partition = 0, ct_offset = 6\<rparr>])"
  by (rule iffD2 [OF conjunct2 [OF commit_batch_highest_offset]]) (simp add: ct_position_def ct_key_def)

theorem flush_recovers_witness:
  "\<exists>ds w'. flush history_insert ([sample_fails, sample_fails] @ sample_works # []) None [sample_tick 1] sample_writer =
      (Some (Inr True), [(''t'', 0, 1)], ds, w') \<and>
    snd (tw_store w') = Some [exact_row (sample_event ''A'' 1)] \<and> length ds = 2"
proof -
  have "db_fails sample_fails" by (auto simp: db_fails_def sample_fails_def)
  then have "list_all db_fails [sample_fails, sample_fails]" "db_works sample_works" "\<not> tw_stop sample_writer"
    "tw_store sample_writer = (\<lparr>hs_pool = True, hs_url = []\<rparr>, Some [])"
    "map ct_event [sample_tick 1] = map GoodTick [sample_event ''A'' 1]"
    "list_all row_encodes [exact_row (sample_event ''A'' 1)]"
    by (simp_all add: db_works_def sample_works_def sample_writer_def
        new_tick_writer_def sample_tick_def sample_rows)
  from flush_recovers [OF this(5) _ sample_rows(1) this(6) this(1-4), of "[]"] show ?thesis
    by (auto simp: commit_batch_def dict_values_def sample_tick_def ct_position_def ct_key_def
        dict_set_def sql_insert_row_def)
qed

lemma year_33658: "ms_to_datetime (10 ^ 15) = Inl ValueError"
proof -
  have "fl (of_int (10 ^ 15) / 1000) = Fin (of_int (10 ^ 12))" using fl_of_int [of "10 ^ 12"] by simp
  moreover have "f_of_int (10 ^ 15) = Inr (Fin (of_int (10 ^ 15)))" by (rule f_of_int_small) simp
  ultimately have "ms_to_datetime (10 ^ 15) = fromtimestamp_us (Fin (of_int (10 ^ 12)))"
    by (simp add: ms_to_datetime_def)
  also have "\<dots> = Inl ValueError"
    using rne_of_int [of 0]
    by (simp add: fromtimestamp_us_def Let_def end_datetime_us_def min_datetime_us_def)
  finally show ?thesis .
qed

theorem out_of_range_tick_blocks_flush_witness:
  "\<exists>ds w'. flush history_insert [sample_works, sample_works, sample_works] None
      [(sample_tick 1)\<lparr>ct_event := GoodTick ((sample_event ''A'' 1)\<lparr>ev_event_ts := 10 ^ 15\<rparr>)\<rparr>]
      sample_writer = (None, [], ds, w') \<and> length ds = 3"
proof -
  let ?e = "(sample_event ''A'' 1)\<lparr>ev_event_ts := 10 ^ 15\<rparr>"
  let ?c = "(sample_tick 1)\<lparr>ct_event := GoodTick ?e\<rparr>"
  have "list_all (\<lambda>a. \<not> fa_stopped a \<and> fst (fa_env a) \<noteq> Some CancelledError)
      [sample_works, sample_works, sample_works]" "\<not> tw_stop sample_writer"
    "?c \<in> set [?c]" "ct_event ?c = GoodTick ?e" "ms_to_datetime (ev_event_ts ?e) = Inl ValueError"
    using year_33658 by (simp_all add: sample_works_def sample_writer_def new_tick_writer_def)
  from out_of_range_tick_blocks_flush [OF this(3-5) this(1,2), of None] show ?thesis
    by (auto simp: numeral_3_eq_3)
qed

definition sample_input :: "bool poll_result \<Rightarrow> (bool, py_exn option \<times> db_reply) tick_input" where
  "sample_input poll = \<lparr>ti_stop = False, ti_poll = poll, ti_polled = Fin 0, ti_started = Fin 0, ti_now = Fin 0,
     ti_attempts = [sample_works], ti_raising = None, ti_invalid_raises = False\<rparr>"

definition sample_loop :: "(tick_event, sink_state) tick_loop" where
  "sample_loop = \<lparr>tl_batch = [], tl_started = Fin 0, tl_writer = sample_writer\<rparr>"

definition sample_reader :: "bool \<Rightarrow> tick_event option" where
  "sample_reader raw = (if raw then Some (GoodTick (sample_event ''A'' 1)) else None)"

lemma f_sub_zero [simp]: "f_sub (Fin 0) (Fin 0) = Fin 0"
  by simp

lemma sample_not_expired [simp]: "\<not> batch_expired (Fin 0) (Fin 0) sample_writer"
  by (simp add: batch_expired_def sample_writer_def new_tick_writer_def)

lemma sample_first_tick:
  "run_ticks history_insert sample_reader [sample_input (PollMessage True ''t'' 0 1)] sample_loop
    = (TickContinues, [], sample_loop\<lparr>tl_batch := [sample_tick 1]\<rparr>)"
  by (simp add: tick_turn_def sample_input_def sample_loop_def poll_timeout_def sample_reader_def
      should_flush_def sample_tick_def Let_def)
    (simp add: sample_writer_def new_tick_writer_def)

theorem batch_stays_below_max_witness:
  "int (length (tl_batch (snd (snd (run_ticks history_insert sample_reader
     [sample_input (PollMessage True ''t'' 0 1)] sample_loop))))) < 2"
proof -
  have "int (length (tl_batch sample_loop)) < tw_batch_max (tl_writer sample_loop)"
    "tw_batch_max (tl_writer sample_loop) = 2"
    by (simp_all add: sample_loop_def sample_writer_def new_tick_writer_def)
  with batch_stays_below_max [OF sample_first_tick] sample_first_tick show ?thesis by simp
qed

theorem commits_follow_storage_witness:
  "\<exists>r l'. tick_turn history_insert sample_reader (sample_input (PollMessage False ''t'' 0 2))
      (sample_loop\<lparr>tl_batch := [sample_tick 1]\<rparr>) = (r, [(''t'', 0, 1), (''t'', 0, 2)], l') \<and>
    tick_stored (tw_store (tl_writer l')) (GoodTick (sample_event ''A'' 1))"
proof -
  let ?l = "sample_loop\<lparr>tl_batch := [sample_tick 1]\<rparr>"
  let ?t = "sample_input (PollMessage False ''t'' 0 2)"
  have pt: "\<exists>x. poll_timeout (Fin 0) (Fin 0) [sample_tick 1] sample_writer = Inr x"
    using f_of_int_small [of 100]
    by (simp add: poll_timeout_def sample_writer_def new_tick_writer_def)
  have w: "db_works sample_works" "\<not> tw_stop sample_writer"
    "tw_store sample_writer = (\<lparr>hs_pool = True, hs_url = []\<rparr>, Some [])"
    by (simp_all add: db_works_def sample_works_def sample_writer_def new_tick_writer_def)
  obtain n where "history_insert (fa_env sample_works) [GoodTick (sample_event ''A'' 1)]
      (\<lparr>hs_pool = True, hs_url = []\<rparr>, Some []) = (Inr n, \<lparr>hs_pool = True, hs_url = []\<rparr>, Some [exact_row (sample_event ''A'' 1)])"
    using w(1) sample_rows insert_ticks_effect [of "[sample_event ''A'' 1]" "[exact_row (sample_event ''A'' 1)]"]
    by (simp add: history_insert_def db_works_def sql_insert_row_def)
  then have f: "\<exists>ds w'. flush history_insert [sample_works] None [sample_tick 1] sample_writer
      = (Some (Inr True), [(''t'', 0, 1)], ds, w')"
    using w by (simp add: flush_def sample_tick_def Let_def run_commits_def commit_batch_def
        dict_values_def ct_position_def ct_key_def dict_set_def)
  from f pt obtain r l' where t: "tick_turn history_insert sample_reader ?t ?l
      = (r, [(''t'', 0, 1), (''t'', 0, 2)], l')"
    using w(2) by (auto simp: tick_turn_def sample_input_def sample_loop_def sample_reader_def
        handle_invalid_message_def Let_def)
  have "tl_batch sample_loop = []" by (simp add: sample_loop_def)
  from commits_follow_storage [OF this sample_first_tick t] t show ?thesis
    by (simp add: sample_input_def sample_reader_def)
qed

end
