(* ===== verification/Gateway_State.thy ===== *)
theory Gateway_State
  imports Session Snapshot_Store Backoff
begin

text \<open>
  The shared state of \<open>src/gateway/gateway.py\<close> and the operations on it, each a maximal
  stretch of code without an \<open>await\<close> that lets another task in: the subscription
  registry, the initialization buffers of subscriptions in progress, the desired and
  confirmed Pub/Sub channels, the fanout of an event, and the phases of subscribing,
  unsubscribing and cleaning up. Sessions are objects: the registry holds their addresses
  and \<open>gw_heap\<close> their states.

  Sections under \<open>subscriptions_lock\<close> contain no \<open>await\<close>, so they are atomic.
  Sections under \<open>pubsub_lock\<close> await Redis, but only other sections under the same lock
  read or write what they do; they are atomic too, with Redis' answer as an argument.
\<close>

definition INITIALIZATION_BUFFER_MAX_SIZE :: nat where
  "INITIALIZATION_BUFFER_MAX_SIZE = 500"

record initialization =
  in_id :: nat
  in_events :: "market_event list"
  in_overflowed :: bool

record gateway =
  gw_heap :: "nat \<Rightarrow> client_session option"
  gw_all :: "(string, nat) dict"
  gw_subs :: "(string, nat set) dict"
  gw_init :: "(string, (nat, initialization) dict) dict"
  gw_active :: "string set"
  gw_confirmed :: "string set"
  gw_pubsub :: "nat option"
  gw_demand :: bool
  gw_dispatched :: nat
  gw_next :: nat

definition new_gateway :: gateway where
  "new_gateway =
     \<lparr>gw_heap = Map.empty, gw_all = [], gw_subs = [], gw_init = [], gw_active = {},
      gw_confirmed = {}, gw_pubsub = None, gw_demand = False, gw_dispatched = 0, gw_next = 0\<rparr>"

definition subs_of :: "gateway \<Rightarrow> string \<Rightarrow> nat set" where
  \<comment> \<open>\<open>subscriptions.get(symbol, set())\<close>\<close>
  "subs_of g sy = (case dict_get (gw_subs g) sy of None \<Rightarrow> {} | Some S \<Rightarrow> S)"

definition inits_of :: "gateway \<Rightarrow> string \<Rightarrow> (nat, initialization) dict" where
  \<comment> \<open>\<open>initializing_subscriptions.get(symbol, {})\<close>\<close>
  "inits_of g sy = (case dict_get (gw_init g) sy of None \<Rightarrow> [] | Some d \<Rightarrow> d)"

definition update_session :: "nat \<Rightarrow> (client_session \<Rightarrow> client_session) \<Rightarrow> gateway \<Rightarrow> gateway" where
  "update_session i f g = g\<lparr>gw_heap := (gw_heap g)(i := map_option f (gw_heap g i))\<rparr>"

section \<open>Connecting\<close>

definition connect_session :: "string \<Rightarrow> encoding \<Rightarrow> aggregation_mode \<Rightarrow> pyfloat \<Rightarrow> gateway \<Rightarrow> nat \<times> gateway" where
  \<comment> \<open>the start of \<open>websocket_stream\<close>\<close>
  "connect_session cid enc mode now g =
     (let i = gw_next g;
          s = start_writer ((new_session cid DROP_OLDEST enc now)
                \<lparr>cs_aggregator := Some (start_aggregator (new_aggregation_buffer mode 100))\<rparr>)
      in (i, g\<lparr>gw_heap := (gw_heap g)(i \<mapsto> s), gw_all := dict_set cid i (gw_all g), gw_next := i + 1\<rparr>))"

section \<open>Fanout\<close>

definition buffer_event :: "market_event \<Rightarrow> initialization \<Rightarrow> initialization" where
  "buffer_event e ini =
     (if INITIALIZATION_BUFFER_MAX_SIZE \<le> length (in_events ini) then ini\<lparr>in_overflowed := True\<rparr>
      else ini\<lparr>in_events := in_events ini @ [e]\<rparr>)"

definition push_event :: "market_event \<Rightarrow> client_session \<Rightarrow> client_session" where
  \<comment> \<open>\<open>session.aggregator.push(event)\<close>\<close>
  "push_event e s = s\<lparr>cs_aggregator := map_option (push e) (cs_aggregator s)\<rparr>"

definition fanout_event :: "market_event \<Rightarrow> gateway \<Rightarrow> gateway" where
  "fanout_event e g =
     (let sy = ev_symbol e; S = subs_of g sy
      in g\<lparr>gw_init := (if inits_of g sy = [] then gw_init g
                       else dict_set sy (map (\<lambda>(i, ini). (i, buffer_event e ini)) (inits_of g sy)) (gw_init g)),
           gw_heap := (\<lambda>i. if i \<in> S then map_option (push_event e) (gw_heap g i) else gw_heap g i),
           gw_dispatched := gw_dispatched g + card S\<rparr>)"

section \<open>Pub/Sub channels\<close>

definition subscribe_desired_channels :: "bool \<Rightarrow> gateway \<Rightarrow> bool \<times> gateway" where
  \<comment> \<open>the argument says whether Redis accepts the subscription; the result whether it raised\<close>
  "subscribe_desired_channels accepts g =
     (if gw_active g = {} then (True, g\<lparr>gw_confirmed := {}\<rparr>)
      else if accepts then (True, g\<lparr>gw_confirmed := gw_active g\<rparr>)
      else (False, g\<lparr>gw_confirmed := {}\<rparr>))"

definition open_pubsub :: "bool \<Rightarrow> gateway \<Rightarrow> bool \<times> gateway" where
  \<comment> \<open>\<open>fanout_loop\<close> up to the listening\<close>
  "open_pubsub accepts g =
     subscribe_desired_channels accepts (g\<lparr>gw_pubsub := Some (gw_next g), gw_next := gw_next g + 1\<rparr>)"

definition close_pubsub :: "nat \<Rightarrow> gateway \<Rightarrow> gateway" where
  \<comment> \<open>the \<open>finally\<close> of \<open>fanout_loop\<close>\<close>
  "close_pubsub p g =
     (if gw_pubsub g = Some p then g\<lparr>gw_pubsub := None, gw_confirmed := {}\<rparr> else g)"

definition subscribe_pubsub_symbol :: "bool \<Rightarrow> string \<Rightarrow> gateway \<Rightarrow> bool \<times> gateway" where
  "subscribe_pubsub_symbol accepts ch g =
     (let g1 = g\<lparr>gw_active := insert ch (gw_active g), gw_demand := True\<rparr>
      in if ch \<in> gw_confirmed g1 then (True, g1)
         else if gw_pubsub g1 = None then (False, g1)
         else if accepts then (True, g1\<lparr>gw_confirmed := insert ch (gw_confirmed g1)\<rparr>)
         else (False, g1))"

definition unsubscribe_pubsub_symbol :: "string \<Rightarrow> gateway \<Rightarrow> gateway" where
  \<comment> \<open>whether Redis takes the UNSUBSCRIBE changes nothing here\<close>
  "unsubscribe_pubsub_symbol ch g =
     (if ch \<notin> gw_active g then g
      else let a = gw_active g - {ch}
      in g\<lparr>gw_active := a, gw_confirmed := gw_confirmed g - {ch},
           gw_demand := (if a = {} then False else gw_demand g)\<rparr>)"

definition channel_in_use :: "string \<Rightarrow> gateway \<Rightarrow> bool" where
  "channel_in_use sy g \<longleftrightarrow> subs_of g sy \<noteq> {} \<or> inits_of g sy \<noteq> []"

definition remove_desired_channel_if_unused :: "string \<Rightarrow> string \<Rightarrow> gateway \<Rightarrow> gateway" where
  "remove_desired_channel_if_unused ch sy g =
     (if channel_in_use sy g then g else unsubscribe_pubsub_symbol ch g)"

text \<open>The five attempts of \<open>_ensure_pubsub_subscription\<close>, with what other tasks do in
  between: each element is Redis' answer and the change made during the sleep after it.\<close>

fun ensure_loop ::
  "(bool \<times> (gateway \<Rightarrow> gateway)) list \<Rightarrow> pyfloat \<Rightarrow> string \<Rightarrow> gateway \<Rightarrow> bool \<times> pyfloat list \<times> gateway" where
  "ensure_loop [] backoff ch g = (False, [], g)"
| "ensure_loop ((accepts, others) # as) backoff ch g =
     (case subscribe_pubsub_symbol accepts ch g of
        (True, g1) \<Rightarrow> (True, [], g1)
      | (False, g1) \<Rightarrow>
          (case ensure_loop as (next_backoff f_0_5 backoff) ch (others g1) of
             (r, ds, g2) \<Rightarrow> (r, backoff # ds, g2)))"

definition ensure_pubsub_subscription ::
  "(bool \<times> (gateway \<Rightarrow> gateway)) list \<Rightarrow> string \<Rightarrow> gateway \<Rightarrow> bool \<times> pyfloat list \<times> gateway" where
  "ensure_pubsub_subscription answers ch g = ensure_loop (take 5 answers) f_0_05 ch g"

section \<open>Subscribing\<close>

definition error_message :: "string \<Rightarrow> message" where
  "error_message t = [(''error'', JStr t)]"

definition send_error :: "nat \<Rightarrow> string \<Rightarrow> gateway \<Rightarrow> gateway" where
  "send_error i t g = update_session i (\<lambda>s. snd (enqueue (error_message t) s)) g"

definition snapshot_message :: "snapshot_data \<Rightarrow> message" where
  \<comment> \<open>\<open>{"type": "snapshot", **snapshot.to_dict()}\<close>\<close>
  "snapshot_message sn = (''type'', JStr ''snapshot'') # snapshot_to_dict sn"

definition begin_initialization :: "nat \<Rightarrow> string \<Rightarrow> gateway \<Rightarrow> nat \<times> gateway" where
  "begin_initialization i sy g =
     (let k = gw_next g; ini = \<lparr>in_id = k, in_events = [], in_overflowed = False\<rparr>
      in (k, g\<lparr>gw_init := dict_set sy (dict_set i ini (inits_of g sy)) (gw_init g), gw_next := k + 1\<rparr>))"

definition drop_initialization :: "nat \<Rightarrow> string \<Rightarrow> gateway \<Rightarrow> gateway" where
  \<comment> \<open>the \<open>finally\<close> of \<open>_subscribe\<close>\<close>
  "drop_initialization i sy g =
     (let d = dict_pop i (inits_of g sy)
      in g\<lparr>gw_init := (if d = [] then dict_pop sy (gw_init g)
                       else dict_set sy d (gw_init g))\<rparr>)"

definition replay_events :: "snapshot_data option \<Rightarrow> market_event list \<Rightarrow> client_session \<Rightarrow> client_session" where
  "replay_events snap es s =
     fold push_event
       (filter (\<lambda>e. case snap of None \<Rightarrow> True | Some sn \<Rightarrow> sn_seq sn < ev_seq e) (sort_key ev_seq es)) s"

definition set_filter :: "string \<Rightarrow> subscription_filter option \<Rightarrow> client_session \<Rightarrow> client_session" where
  "set_filter sy flt s = s\<lparr>cs_filters := (cs_filters s)(sy := flt)\<rparr>"

definition register_session :: "nat \<Rightarrow> string \<Rightarrow> gateway \<Rightarrow> gateway" where
  "register_session i sy g =
     (update_session i (\<lambda>s. s\<lparr>cs_subscriptions := insert sy (cs_subscriptions s)\<rparr>) g)
       \<lparr>gw_subs := dict_set sy (insert i (subs_of g sy)) (gw_subs g)\<rparr>"

text \<open>
  The locked section of \<open>_subscribe\<close> after the snapshot has been read: whether it got to
  its end, and the state it leaves. \<open>k\<close> identifies the initialization this call has begun.
\<close>

definition register_with ::
  "nat \<Rightarrow> string \<Rightarrow> subscription_filter option \<Rightarrow> snapshot_data option \<Rightarrow> market_event list \<Rightarrow>
   client_session \<Rightarrow> gateway \<Rightarrow> gateway" where
  "register_with i sy flt snap es s g =
     register_session i sy (drop_initialization i sy
       (g\<lparr>gw_heap := (gw_heap g)(i \<mapsto> set_filter sy flt (replay_events snap es s))\<rparr>))"

definition complete_subscription ::
  "nat \<Rightarrow> string \<Rightarrow> nat \<Rightarrow> subscription_filter option \<Rightarrow> snapshot_data option \<Rightarrow> gateway \<Rightarrow>
   bool \<times> gateway" where
  "complete_subscription i sy k flt snap g =
     (case (gw_heap g i, dict_get (inits_of g sy) i) of
        (Some s, Some ini) \<Rightarrow>
          (if in_id ini \<noteq> k \<or> in_overflowed ini then (False, g)
           else case snap of
             None \<Rightarrow> (True, register_with i sy flt snap (in_events ini) s g)
           | Some sn \<Rightarrow>
               (case enqueue (snapshot_message sn) s of
                  (False, s1) \<Rightarrow> (False, g\<lparr>gw_heap := (gw_heap g)(i \<mapsto> s1)\<rparr>)
                | (True, s1) \<Rightarrow>
                    (True, register_with i sy flt snap (in_events ini)
                      (set_last_price sy (sn_bid sn) (set_last_seq sy (sn_seq sn) s1)) g)))
      | _ \<Rightarrow> (False, g))"

text \<open>
  From the snapshot's arrival to the end of the \<open>finally\<close>'s locked section;
  \<open>fetched\<close> is what \<open>snapshot_store.get\<close> returned or raised, cancellation aside.
\<close>

definition finish_subscription ::
  "nat \<Rightarrow> string \<Rightarrow> nat \<Rightarrow> subscription_filter option \<Rightarrow> snapshot_data option result \<Rightarrow> gateway \<Rightarrow>
   bool \<times> gateway" where
  "finish_subscription i sy k flt fetched g =
     (case (case fetched of
              Inl _ \<Rightarrow> (False, g)
            | Inr snap \<Rightarrow> complete_subscription i sy k flt snap g) of
        (True, g1) \<Rightarrow> (True, drop_initialization i sy g1)
      | (False, g1) \<Rightarrow>
          (False, drop_initialization i sy (send_error i (''subscription failed for '' @ sy) g1)))"

section \<open>Unsubscribing and leaving\<close>

definition forget_symbol :: "string \<Rightarrow> client_session \<Rightarrow> client_session" where
  "forget_symbol sy s =
     s\<lparr>cs_subscriptions := cs_subscriptions s - {sy}, cs_last_seq := (cs_last_seq s)(sy := None),
       cs_filters := (cs_filters s)(sy := None), cs_last_price := (cs_last_price s)(sy := None)\<rparr>"

definition discard_session :: "nat \<Rightarrow> string \<Rightarrow> gateway \<Rightarrow> bool \<times> gateway" where
  \<comment> \<open>removes the session from the symbol's set; says whether none is left\<close>
  "discard_session i sy g =
     (let S = subs_of g sy - {i}
      in (S = {}, g\<lparr>gw_subs := (if S = {} then dict_pop sy (gw_subs g) else dict_set sy S (gw_subs g))\<rparr>))"

definition unsubscribe :: "string \<Rightarrow> nat \<Rightarrow> string \<Rightarrow> gateway \<Rightarrow> gateway" where
  "unsubscribe ch i sy g =
     (case discard_session i sy g of
        (should_unsubscribe, g1) \<Rightarrow>
          (let g2 = update_session i (forget_symbol sy) g1
           in if should_unsubscribe then unsubscribe_pubsub_symbol ch g2 else g2))"

fun cleanup_inits :: "nat \<Rightarrow> string list \<Rightarrow> gateway \<Rightarrow> string list \<times> gateway" where
  \<comment> \<open>the loop over a copy of \<open>initializing_subscriptions\<close>\<close>
  "cleanup_inits i [] g = ([], g)"
| "cleanup_inits i (sy # sys) g =
     (let g1 = drop_initialization i sy g
      in case cleanup_inits i sys g1 of
           (us, g2) \<Rightarrow> (if inits_of g1 sy = [] \<and> subs_of g sy = {} then sy # us else us, g2))"

fun cleanup_subs :: "nat \<Rightarrow> string list \<Rightarrow> gateway \<Rightarrow> string list \<times> gateway" where
  \<comment> \<open>the loop over \<open>session.subscriptions\<close>\<close>
  "cleanup_subs i [] g = ([], g)"
| "cleanup_subs i (sy # sys) g =
     (case discard_session i sy g of
        (none_left, g1) \<Rightarrow>
          (case cleanup_subs i sys g1 of (us, g2) \<Rightarrow> (if none_left then sy # us else us, g2)))"

definition cleanup_registry :: "nat \<Rightarrow> string list \<Rightarrow> gateway \<Rightarrow> string list \<times> gateway" where
  \<comment> \<open>the locked section of \<open>_cleanup\<close>; the list is \<open>session.subscriptions\<close> in iteration order\<close>
  "cleanup_registry i sys g =
     (case cleanup_inits i (dict_keys (gw_init g)) g of
        (us1, g1) \<Rightarrow>
          (case cleanup_subs i sys g1 of
             (us2, g2) \<Rightarrow>
               (us1 @ us2,
                g2\<lparr>gw_all := (case gw_heap g i of
                     None \<Rightarrow> gw_all g2 | Some s \<Rightarrow> dict_pop (cs_client_id s) (gw_all g2))\<rparr>)))"

definition end_aggregator :: "client_session \<Rightarrow> client_session" where
  \<comment> \<open>\<open>session.aggregator.stop()\<close>\<close>
  "end_aggregator s = s\<lparr>cs_aggregator := map_option stop_aggregator (cs_aggregator s)\<rparr>"

definition cleanup :: "(string \<Rightarrow> string) \<Rightarrow> nat \<Rightarrow> string list \<Rightarrow> gateway \<Rightarrow> gateway" where
  \<comment> \<open>the end of \<open>websocket_stream\<close> and the whole of \<open>_cleanup\<close>\<close>
  "cleanup chan i sys g =
     (let g0 = update_session i end_aggregator g
      in case cleanup_registry i sys g0 of
           (us, g1) \<Rightarrow>
             update_session i close_session
               (fold (\<lambda>sy. unsubscribe_pubsub_symbol (chan sy)) us g1))"

end
