(* ===== verification/Gateway_Dispatch.thy ===== *)
theory Gateway_Dispatch
  imports Gateway_State
begin

text \<open>
  \<open>client_dispatch_loop\<close> of \<open>src/gateway/gateway.py\<close>: the task between a client's
  aggregation buffer and its outbound queue. A turn takes one event, classifies its
  sequence number and delivers it, or awaits a snapshot where a RAW client has a gap. The
  wait lets other tasks in, so it splits the turn in two.
\<close>

datatype dispatch_phase = DispatchRuns | DispatchAwaits string | DispatchDead py_exn

definition deliver_event :: "market_event \<Rightarrow> client_session \<Rightarrow> dispatch_phase \<times> client_session" where
  "deliver_event e s =
     (case should_deliver e s of
        Inl exc \<Rightarrow> (DispatchDead exc, s)
      | Inr deliver \<Rightarrow>
          (if \<not> deliver then (DispatchRuns, s)
           else case enqueue (event_to_dict e) s of
                  (accepted, s1) \<Rightarrow> (DispatchRuns, if accepted then mark_delivered e s1 else s1)))"

definition dispatch_event :: "bool \<Rightarrow> market_event \<Rightarrow> client_session \<Rightarrow> dispatch_phase \<times> client_session" where
  "dispatch_event is_raw e s =
     (case classify_sequence (ev_symbol e) (ev_seq e) is_raw s of
        (STALE, s1) \<Rightarrow> (DispatchRuns, s1)
      | (GAP, s1) \<Rightarrow> (DispatchAwaits (ev_symbol e), s1)
      | (NEXT, s1) \<Rightarrow> deliver_event e s1)"

definition dispatch_turn :: "client_session \<Rightarrow> dispatch_phase \<times> client_session" where
  \<comment> \<open>up to the next \<open>await\<close>; a session without a buffered event keeps waiting\<close>
  "dispatch_turn s =
     (case cs_aggregator s of
        None \<Rightarrow> (DispatchDead AttributeError, s)
      | Some ag \<Rightarrow>
          (case next_event ag of
             None \<Rightarrow> (DispatchRuns, s)
           | Some (e, ag1) \<Rightarrow> dispatch_event (ag_mode ag = RAW) e (s\<lparr>cs_aggregator := Some ag1\<rparr>)))"

definition dispatch_snapshot ::
  "string \<Rightarrow> snapshot_data option result \<Rightarrow> client_session \<Rightarrow> dispatch_phase \<times> client_session" where
  \<comment> \<open>the rest of a turn with a gap, from what \<open>snapshot_store.get\<close> returned or raised\<close>
  "dispatch_snapshot sy fetched s =
     (case fetched of
        Inl exc \<Rightarrow> (DispatchDead exc, s)
      | Inr None \<Rightarrow> (DispatchRuns, s)
      | Inr (Some sn) \<Rightarrow>
          (if (case cs_last_seq s sy of None \<Rightarrow> True | Some previous \<Rightarrow> previous < sn_seq sn) then
             (case enqueue (snapshot_message sn) s of
                (accepted, s1) \<Rightarrow>
                  (DispatchRuns, if accepted
                     then set_last_price sy (sn_bid sn) (set_last_seq sy (sn_seq sn) s1) else s1))
           else (DispatchRuns, s)))"

text \<open>
  What happens to a client between two messages of its own: its dispatch task runs, the
  argument being what the snapshot store would answer for each symbol, its writer drains
  the queue, its aggregation window ends, and events are fanned out to it.
\<close>

datatype client_turn =
    DispatchTurn "string \<Rightarrow> snapshot_data option result"
  | WriterTurn send_outcome pyfloat
  | WindowTurn
  | EventArrives market_event

definition flush_client :: "client_session \<Rightarrow> client_session" where
  "flush_client s = s\<lparr>cs_aggregator := map_option flush_window (cs_aggregator s)\<rparr>"

fun client_step :: "client_turn \<Rightarrow> dispatch_phase \<times> client_session \<Rightarrow> dispatch_phase \<times> client_session" where
  "client_step (DispatchTurn store) (ph, s) =
     (case ph of
        DispatchRuns \<Rightarrow> dispatch_turn s
      | DispatchAwaits sy \<Rightarrow> dispatch_snapshot sy (store sy) s
      | DispatchDead exc \<Rightarrow> (DispatchDead exc, s))"
| "client_step (WriterTurn outcome time) (ph, s) = (ph, snd (writer_turn outcome time s))"
| "client_step WindowTurn (ph, s) = (ph, flush_client s)"
| "client_step (EventArrives e) (ph, s) = (ph, push_event e s)"

section \<open>The messages of a client\<close>

datatype 'm client_reply =
    Subscribes string "'m option"
  | Unsubscribes string
  | Replies string
  | Closes py_exn

definition parse_encoding :: "string option \<Rightarrow> encoding" where
  "parse_encoding p =
     (case p of
        None \<Rightarrow> JSON
      | Some v \<Rightarrow> if v = ''msgpack'' then MSGPACK else JSON)"

definition parse_mode :: "string option \<Rightarrow> aggregation_mode" where
  \<comment> \<open>the query parameter \<open>mode\<close>, \<open>raw\<close> where it is missing\<close>
  "parse_mode p = (if p = Some ''agg_100ms'' then AGG_100MS else RAW)"

definition parse_bound :: "(string \<times> json) list \<Rightarrow> string \<Rightarrow> pyfloat option result" where
  "parse_bound d name =
     (case dict_get d name of
        None \<Rightarrow> Inr None
      | Some JNull \<Rightarrow> Inr None
      | Some (JInt n) \<Rightarrow>
          bindE (f_of_int n) (\<lambda>x. if f_is_finite x \<and> \<not> f_lt x (Fin 0) then Inr (Some x) else Inl ValueError)
      | Some (JFloat x) \<Rightarrow>
          (if f_is_finite x \<and> \<not> f_lt x (Fin 0) then Inr (Some x) else Inl ValueError)
      | Some _ \<Rightarrow> Inl ValueError)"

definition parse_subscription_filter :: "json option \<Rightarrow> subscription_filter option result" where
  "parse_subscription_filter payload =
     (case payload of
        None \<Rightarrow> Inr None
      | Some JNull \<Rightarrow> Inr None
      | Some (JObj d) \<Rightarrow>
          bindE (parse_bound d ''min_change_pct'') (\<lambda>m.
          bindE (parse_bound d ''max_spread'') (\<lambda>x.
            Inr (Some \<lparr>min_change_pct = m, max_spread = x\<rparr>)))
      | Some _ \<Rightarrow> Inl ValueError)"

text \<open>
  One text message of \<open>websocket_stream\<close>: the argument is what \<open>json.loads\<close> gives,
  \<open>show\<close> the text of a JSON value inside an f-string. \<open>Closes\<close> is an exception that
  leaves the receive loop and ends the connection.
\<close>

definition client_message :: "(json \<Rightarrow> string) \<Rightarrow> json result \<Rightarrow> json client_reply" where
  "client_message show loaded =
     (case loaded of
        Inl exc \<Rightarrow> if exc = OtherError ''JSONDecodeError'' then Replies ''invalid json'' else Closes exc
      | Inr (JObj d) \<Rightarrow>
          (case (case dict_get d ''symbol'' of None \<Rightarrow> JStr [] | Some v \<Rightarrow> v) of
             JStr sy \<Rightarrow>
               (if str_upper sy = [] then Replies ''symbol required''
                else case dict_get d ''action'' of
                  Some (JStr a) \<Rightarrow>
                    (if a = ''subscribe'' then Subscribes (str_upper sy) (dict_get d ''filter'')
                     else if a = ''unsubscribe'' then Unsubscribes (str_upper sy)
                     else Replies (''unknown action: '' @ a))
                | Some v \<Rightarrow> Replies (''unknown action: '' @ show v)
                | None \<Rightarrow> Replies ''unknown action: None'')
           | _ \<Rightarrow> Closes AttributeError)
      | Inr _ \<Rightarrow> Closes AttributeError)"

section \<open>Pub/Sub messages\<close>

datatype pubsub_outcome = SkipMessage | FanOut market_event | BreakLoop

definition pubsub_message ::
  "(string \<Rightarrow> pyfloat result) \<Rightarrow> string result \<Rightarrow> (string \<Rightarrow> json result) \<Rightarrow> (json \<Rightarrow> bool) \<Rightarrow> pubsub_outcome" where
  \<comment> \<open>\<open>data.decode()\<close> stands outside the \<open>try\<close>; an event whose symbol is no string finds
    no session, or breaks the loop where it cannot be a dictionary key\<close>
  "pubsub_message fparse decoded loads hashable =
     (case decoded of
        Inl _ \<Rightarrow> BreakLoop
      | Inr text \<Rightarrow>
          (case parse_market_event fparse (\<lambda>d. json_field d ''server_ts'' json_int) (loads text) of
             Rejected \<Rightarrow> SkipMessage
           | Parsed e \<Rightarrow> FanOut e
           | BadSymbol v \<Rightarrow> if hashable v then SkipMessage else BreakLoop))"

section \<open>What a client receives\<close>

fun sent_by :: "client_turn \<Rightarrow> client_session \<Rightarrow> message list" where
  "sent_by (WriterTurn outcome time) s =
     (case fst (writer_turn outcome time s) of None \<Rightarrow> [] | Some m \<Rightarrow> [m])"
| "sent_by _ s = []"

fun run_client :: "client_turn list \<Rightarrow> dispatch_phase \<times> client_session \<Rightarrow>
   message list \<times> dispatch_phase \<times> client_session" where
  \<comment> \<open>the messages sent over a sequence of turns, and where it ends\<close>
  "run_client [] x = ([], x)"
| "run_client (t # ts) x =
     (case run_client ts (client_step t x) of (ms, y) \<Rightarrow> (sent_by t (snd x) @ ms, y))"

definition msg_seq :: "string \<Rightarrow> message \<Rightarrow> int option" where
  "msg_seq sy m =
     (case (dict_get m ''symbol'', dict_get m ''seq'') of
        (Some (JStr t), Some (JInt n)) \<Rightarrow> if t = sy then Some n else None
      | _ \<Rightarrow> None)"

definition seqs_for :: "string \<Rightarrow> message list \<Rightarrow> int list" where
  "seqs_for sy ms = List.map_filter (msg_seq sy) ms"

fun honest :: "client_turn \<Rightarrow> bool" where
  \<comment> \<open>the store answers for the symbol it is asked about, as \<open>SnapshotStore.get\<close> does\<close>
  "honest (DispatchTurn store) = (\<forall>sy sn. store sy = Inr (Some sn) \<longrightarrow> sn_symbol sn = sy)"
| "honest t = True"

lemma store_get_honest: "honest (DispatchTurn (\<lambda>sy. store_get hgetall fparse pfx sy r))"
  by (auto simp: store_get_def Let_def bindE_eq_Inr from_redis_symbol split: if_splits)

lemma msg_seq_event [simp]: "msg_seq sy (event_to_dict e) = (if ev_symbol e = sy then Some (ev_seq e) else None)"
  by (simp add: msg_seq_def)

lemma msg_seq_snapshot [simp]:
  "msg_seq sy (snapshot_message sn) = (if sn_symbol sn = sy then Some (sn_seq sn) else None)"
  by (simp add: msg_seq_def snapshot_message_def dict_get_Cons)

lemma msg_seq_error [simp]: "msg_seq sy (error_message t) = None"
  by (simp add: msg_seq_def error_message_def dict_get_Cons)

fun above :: "int option \<Rightarrow> int \<Rightarrow> bool" where
  "above None n = True"
| "above (Some a) n = (a < n)"

fun grows :: "int option \<Rightarrow> int option \<Rightarrow> bool" where
  "grows None y = True"
| "grows (Some a) None = False"
| "grows (Some a) (Some b) = (a \<le> b)"

lemma grows_refl [simp]: "grows x x"
  by (cases x) auto

lemma above_grows: "above x n \<Longrightarrow> grows x (Some n)"
  by (cases x) auto

text \<open>
  A turn of the client either leaves the queue's messages as they are, up to losses, and
  moves no boundary down, or puts one message behind them whose sequence number lies above
  its symbol's boundary and becomes the boundary.
\<close>

definition quiet :: "message list \<Rightarrow> client_session \<Rightarrow> client_session \<Rightarrow> bool" where
  "quiet sent s s' \<longleftrightarrow> wf_session s' \<and> subseq (sent @ q_items (cs_queue s')) (q_items (cs_queue s)) \<and>
     (\<forall>sy. grows (cs_last_seq s sy) (cs_last_seq s' sy))"

definition speaks :: "client_session \<Rightarrow> client_session \<Rightarrow> bool" where
  "speaks s s' \<longleftrightarrow> wf_session s' \<and>
     (\<exists>m sy n. subseq (q_items (cs_queue s')) (q_items (cs_queue s) @ [m]) \<and>
       (\<forall>t. msg_seq t m = (if t = sy then Some n else None)) \<and>
       above (cs_last_seq s sy) n \<and> cs_last_seq s' = (cs_last_seq s)(sy \<mapsto> n))"

lemma wf_session_frame:
  "wf_session s \<Longrightarrow> wf_session (set_last_seq sy n s)" "wf_session s \<Longrightarrow> wf_session (set_last_price sy x s)"
  "wf_session s \<Longrightarrow> wf_session (bump_gaps s)" "wf_session s \<Longrightarrow> wf_session (mark_delivered e s)"
  by (simp_all add: wf_session_def set_last_seq_def set_last_price_def bump_gaps_def mark_delivered_def)

lemma session_frame [simp]:
  "cs_queue (set_last_seq sy n s) = cs_queue s" "cs_queue (set_last_price sy x s) = cs_queue s"
  "cs_queue (mark_delivered e s) = cs_queue s" "cs_last_seq (set_last_price sy x s) = cs_last_seq s"
  "cs_last_seq (mark_delivered e s) = cs_last_seq s"
  by (simp_all add: set_last_seq_def set_last_price_def mark_delivered_def)

lemma enqueue_queue:
  assumes "wf_session s" "enqueue m s = (ok, s')"
  shows "wf_session s' \<and> cs_last_seq s' = cs_last_seq s \<and>
    subseq (q_items (cs_queue s')) (q_items (cs_queue s) @ (if ok then [m] else []))"
  using assms(1)
proof (cases rule: enqueue_split [of s m])
  case (oldest q)
  with assms show ?thesis
    using wf_enqueue [OF assms(1), of m] enqueue_frame(1) [of m s]
    by (auto intro: subseq_tl_append)
qed (use assms wf_enqueue [OF assms(1), of m] enqueue_frame(1) [of m s] in auto)

lemma deliver_event_effect:
  assumes "wf_session s" "above (cs_last_seq s (ev_symbol e)) (ev_seq e)"
    "deliver_event e (set_last_seq (ev_symbol e) (ev_seq e) s) = (ph, s')"
  shows "quiet [] s s' \<or> speaks s s'"
proof -
  let ?s1 = "set_last_seq (ev_symbol e) (ev_seq e) s"
  have w: "wf_session ?s1" using assms(1) by (rule wf_session_frame)
  have q1: "quiet [] s ?s1" using w assms(2) by (auto simp: quiet_def above_grows)
  consider (kept) "s' = ?s1" | (offered) ok s2 where "enqueue (event_to_dict e) ?s1 = (ok, s2)"
      "s' = (if ok then mark_delivered e s2 else s2)"
    using assms(3) by (auto simp: deliver_event_def split: sum.splits if_splits prod.splits)
  then show ?thesis
  proof cases
    case kept
    with q1 show ?thesis by simp
  next
    case (offered ok s2)
    from enqueue_queue [OF w offered(1)] have s2: "wf_session s2"
      "cs_last_seq s2 = (cs_last_seq s)(ev_symbol e \<mapsto> ev_seq e)"
      "subseq (q_items (cs_queue s2)) (q_items (cs_queue s) @ (if ok then [event_to_dict e] else []))"
      by auto
    show ?thesis
    proof (cases ok)
      case True
      with offered(2) s2 assms(2) have "speaks s s'"
        unfolding speaks_def
        by (intro conjI exI [of _ "event_to_dict e"] exI [of _ "ev_symbol e"] exI [of _ "ev_seq e"])
          (auto intro: wf_session_frame)
      then show ?thesis ..
    next
      case False
      with offered(2) s2 assms(2) show ?thesis by (auto simp: quiet_def above_grows)
    qed
  qed
qed

lemma dispatch_event_effect:
  assumes "wf_session s" "dispatch_event raw e s = (ph, s')"
  shows "quiet [] s s' \<or> speaks s s'"
proof -
  obtain d s1 where c: "classify_sequence (ev_symbol e) (ev_seq e) raw s = (d, s1)"
    by (cases "classify_sequence (ev_symbol e) (ev_seq e) raw s")
  show ?thesis
  proof (cases d)
    case NEXT
    with c have "s1 = set_last_seq (ev_symbol e) (ev_seq e) s" "above (cs_last_seq s (ev_symbol e)) (ev_seq e)"
      by (auto simp: classify_sequence_def split: option.splits if_splits)
    with deliver_event_effect [OF assms(1)] assms(2) c NEXT show ?thesis
      by (simp add: dispatch_event_def)
  next
    case GAP
    with c have "s1 = bump_gaps s"
      by (auto simp: classify_sequence_def split: option.splits if_splits)
    with GAP c assms show ?thesis by (auto simp: dispatch_event_def quiet_def wf_session_frame)
  next
    case STALE
    with c have "s1 = s"
      by (auto simp: classify_sequence_def split: option.splits if_splits)
    with STALE c assms show ?thesis by (auto simp: dispatch_event_def quiet_def)
  qed
qed

lemma dispatch_turn_effect:
  assumes "wf_session s" "dispatch_turn s = (ph, s')"
  shows "quiet [] s s' \<or> speaks s s'"
proof (cases "cs_aggregator s")
  case None
  with assms show ?thesis by (auto simp: dispatch_turn_def quiet_def)
next
  case (Some ag)
  show ?thesis
  proof (cases "next_event ag")
    case None
    with Some assms show ?thesis by (auto simp: dispatch_turn_def quiet_def)
  next
    case (Some x)
    obtain e ag1 where x: "x = (e, ag1)" by (cases x)
    let ?s = "s\<lparr>cs_aggregator := Some ag1\<rparr>"
    have "wf_session ?s"
      using assms(1) \<open>cs_aggregator s = Some ag\<close> wf_next_event [of ag e ag1] Some x
      by (simp add: wf_session_def)
    from dispatch_event_effect [OF this, of "ag_mode ag = RAW" e ph s'] show ?thesis
      using assms(2) \<open>cs_aggregator s = Some ag\<close> Some x
      by (simp add: dispatch_turn_def quiet_def speaks_def)
  qed
qed

lemma dispatch_snapshot_effect:
  assumes "wf_session s" "dispatch_snapshot sy fetched s = (ph, s')"
    "\<forall>sn. fetched = Inr (Some sn) \<longrightarrow> sn_symbol sn = sy"
  shows "quiet [] s s' \<or> speaks s s'"
proof -
  consider (same) "s' = s" | (offered) sn ok s1 where "fetched = Inr (Some sn)"
      "above (cs_last_seq s sy) (sn_seq sn)" "enqueue (snapshot_message sn) s = (ok, s1)"
      "s' = (if ok then set_last_price sy (sn_bid sn) (set_last_seq sy (sn_seq sn) s1) else s1)"
    using assms(2) by (cases "cs_last_seq s sy")
      (auto simp: dispatch_snapshot_def split: sum.splits option.splits if_splits prod.splits)
  then show ?thesis
  proof cases
    case same
    with assms(1) show ?thesis by (simp add: quiet_def)
  next
    case (offered sn ok s1)
    note q = enqueue_queue [OF assms(1) offered(3)]
    show ?thesis
    proof (cases ok)
      case True
      with offered q assms(3) have "speaks s s'"
        unfolding speaks_def
        by (intro conjI exI [of _ "snapshot_message sn"] exI [of _ sy] exI [of _ "sn_seq sn"])
          (auto intro: wf_session_frame)
      then show ?thesis ..
    next
      case False
      with offered q show ?thesis by (auto simp: quiet_def)
    qed
  qed
qed

lemma writer_effect:
  assumes "wf_session s"
  shows "quiet (sent_by (WriterTurn outcome time) s) s (snd (writer_turn outcome time s))"
  using assms
proof (cases rule: writer_split [of s outcome time])
  case (sends m q)
  with wf_writer_turn [OF assms, of outcome time] show ?thesis by (simp add: quiet_def)
next
  case (fails m q)
  with wf_writer_turn [OF assms, of outcome time] subseq_tl_append [of "m # q_items q" "[]"]
  show ?thesis by (simp add: quiet_def)
qed (use assms in \<open>simp add: quiet_def\<close>)

lemma client_step_effect:
  assumes "wf_session s" "client_step t (ph, s) = (ph', s')" "honest t"
  shows "quiet (sent_by t s) s s' \<or> sent_by t s = [] \<and> speaks s s'"
proof (cases t)
  case (DispatchTurn store)
  show ?thesis
  proof (cases ph)
    case DispatchRuns
    with DispatchTurn assms dispatch_turn_effect [OF assms(1), of ph' s'] show ?thesis by simp
  next
    case (DispatchAwaits sy)
    with DispatchTurn assms dispatch_snapshot_effect [OF assms(1), of sy "store sy" ph' s'] show ?thesis
      by simp
  next
    case (DispatchDead exc)
    with DispatchTurn assms show ?thesis by (simp add: quiet_def)
  qed
next
  case (WriterTurn outcome time)
  with writer_effect [OF assms(1), of outcome time] assms(2) show ?thesis by auto
next
  case WindowTurn
  with assms show ?thesis
    by (auto simp: quiet_def flush_client_def wf_session_def wf_flush_window split: option.splits)
next
  case (EventArrives e)
  with assms show ?thesis
    by (auto simp: quiet_def push_event_def wf_session_def wf_push split: option.splits)
qed

lemma seqs_for_append [simp]: "seqs_for sy (xs @ ys) = seqs_for sy xs @ seqs_for sy ys"
  by (simp add: seqs_for_def map_filter_def)

lemma seqs_for_single [simp]: "seqs_for sy [m] = (case msg_seq sy m of None \<Rightarrow> [] | Some n \<Rightarrow> [n])"
  by (simp add: seqs_for_def map_filter_def split: option.split)

lemma seqs_for_subseq: "subseq xs ys \<Longrightarrow> subseq (seqs_for sy xs) (seqs_for sy ys)"
  unfolding seqs_for_def map_filter_def by (intro subseq_map subseq_filter)

section \<open>Gaps\<close>

text \<open>
  C31. Recovery from a gap: a RAW client that sees a sequence number beyond the next one counts
  a gap, keeps its boundary and delivers nothing; the snapshot then fetched is queued, and
  becomes the boundary and the reference price, exactly if it is newer than the boundary at
  that time; an older or missing one leaves the client as it is, still waiting for the gap
  to close.
\<close>

theorem gap_recovers_through_snapshot:
  assumes "wf_session s" "cs_policy s = DROP_OLDEST"
    "cs_last_seq s (ev_symbol e) = Some n" "n + 1 < ev_seq e"
    "dispatch_snapshot (ev_symbol e) (Inr snap) (bump_gaps s) = (ph, s')"
  shows "dispatch_event True e s = (DispatchAwaits (ev_symbol e), bump_gaps s) \<and>
    ph = DispatchRuns \<and> st_gaps_detected (cs_stats s') = Suc (st_gaps_detected (cs_stats s)) \<and>
    (case snap of
       Some sn \<Rightarrow>
         if n < sn_seq sn
         then q_items (cs_queue s') = keep_last 500 (q_items (cs_queue s) @ [snapshot_message sn]) \<and>
           cs_last_seq s' (ev_symbol e) = Some (sn_seq sn) \<and> cs_last_price s' (ev_symbol e) = Some (sn_bid sn)
         else s' = bump_gaps s
     | None \<Rightarrow> s' = bump_gaps s)"
proof (rule conjI)
  show "dispatch_event True e s = (DispatchAwaits (ev_symbol e), bump_gaps s)"
    using assms(3,4) by (simp add: dispatch_event_def classify_sequence_def)
next
  let ?s = "bump_gaps s"
  have w: "wf_session ?s" "cs_policy ?s = DROP_OLDEST" using assms(1,2) by (simp_all add: wf_session_frame)
  have g: "st_gaps_detected (cs_stats (snd (enqueue m ?s))) = Suc (st_gaps_detected (cs_stats s))" for m
    by (auto simp: enqueue_def bump_dropped_def bump_gaps_def Let_def split: option.split slow_consumer_policy.split)
  show "ph = DispatchRuns \<and> st_gaps_detected (cs_stats s') = Suc (st_gaps_detected (cs_stats s)) \<and>
    (case snap of
       Some sn \<Rightarrow>
         if n < sn_seq sn
         then q_items (cs_queue s') = keep_last 500 (q_items (cs_queue s) @ [snapshot_message sn]) \<and>
           cs_last_seq s' (ev_symbol e) = Some (sn_seq sn) \<and> cs_last_price s' (ev_symbol e) = Some (sn_bid sn)
         else s' = ?s
     | None \<Rightarrow> s' = ?s)"
  proof (cases snap)
    case None
    with assms(5) show ?thesis by (auto simp: dispatch_snapshot_def bump_gaps_def)
  next
    case (Some sn)
    obtain s1 where e: "enqueue (snapshot_message sn) ?s = (True, s1)"
      "q_items (cs_queue s1) = keep_last 500 (q_items (cs_queue s) @ [snapshot_message sn])"
      using enqueue_drop_oldest [OF w, of "snapshot_message sn"]
      by (cases "enqueue (snapshot_message sn) ?s") auto
    have "st_gaps_detected (cs_stats s1) = Suc (st_gaps_detected (cs_stats s))"
      using g [of "snapshot_message sn"] e by simp
    with Some e assms(3,5) show ?thesis
      by (auto simp: dispatch_snapshot_def set_last_seq_def set_last_price_def bump_gaps_def
          split: if_splits)
  qed
qed

section \<open>Filters of a request\<close>

lemma parse_bound_result:
  "parse_bound d name = Inr (Some x) \<Longrightarrow> f_is_finite x \<and> f_le (Fin 0) x"
  "parse_bound d name = Inl exc \<Longrightarrow> exc = ValueError \<or> exc = OverflowError \<and>
     (\<exists>n. dict_get d name = Some (JInt n) \<and> f_of_int n = Inl OverflowError)"
proof -
  have le: "f_is_finite x \<Longrightarrow> \<not> f_lt x (Fin 0) \<Longrightarrow> f_le (Fin 0) x" for x
    by (cases x) (auto simp: f_is_finite_def)
  have o: "f_of_int n = Inl exc \<Longrightarrow> exc = OverflowError" for n
    by (auto simp: f_of_int_def split: pyfloat.splits)
  show "parse_bound d name = Inr (Some x) \<Longrightarrow> f_is_finite x \<and> f_le (Fin 0) x"
    by (auto simp: parse_bound_def bindE_eq_Inr le split: option.splits json.splits if_splits)
  show "parse_bound d name = Inl exc \<Longrightarrow> exc = ValueError \<or> exc = OverflowError \<and>
     (\<exists>n. dict_get d name = Some (JInt n) \<and> f_of_int n = Inl OverflowError)"
    by (auto simp: parse_bound_def bindE_def dest: o split: option.splits json.splits if_splits sum.splits)
qed

text \<open>
  C39. A filter that is accepted holds only finite, non-negative bounds; one that is refused
  raises \<open>ValueError\<close>, which the caller turns into an error reply, except for an integer
  too large for a float, whose \<open>OverflowError\<close> no caller catches.
\<close>

theorem parsed_filter_bounds:
  "(\<forall>f x. parse_subscription_filter p = Inr (Some f) \<and> (min_change_pct f = Some x \<or> max_spread f = Some x)
      \<longrightarrow> f_is_finite x \<and> f_le (Fin 0) x) \<and>
   (\<forall>exc. parse_subscription_filter p = Inl exc \<longrightarrow> exc = ValueError \<or>
      exc = OverflowError \<and> (\<exists>d n. p = Some (JObj d) \<and> (dict_get d ''min_change_pct'' = Some (JInt n)
        \<or> dict_get d ''max_spread'' = Some (JInt n)) \<and> f_of_int n = Inl OverflowError))"
proof (intro conjI allI impI)
  fix f x
  assume a: "parse_subscription_filter p = Inr (Some f) \<and> (min_change_pct f = Some x \<or> max_spread f = Some x)"
  then obtain d where d: "parse_bound d ''min_change_pct'' = Inr (min_change_pct f)"
    "parse_bound d ''max_spread'' = Inr (max_spread f)"
    by (auto simp: parse_subscription_filter_def bindE_eq_Inr split: option.splits json.splits)
  have "\<exists>name. parse_bound d name = Inr (Some x)" using a d by auto
  with parse_bound_result(1) show "f_is_finite x" "f_le (Fin 0) x" by blast+
next
  fix exc
  assume a: "parse_subscription_filter p = Inl exc"
  show "exc = ValueError \<or> exc = OverflowError \<and> (\<exists>d n. p = Some (JObj d) \<and>
      (dict_get d ''min_change_pct'' = Some (JInt n) \<or> dict_get d ''max_spread'' = Some (JInt n)) \<and>
      f_of_int n = Inl OverflowError)"
  proof (cases "exc = ValueError")
    case False
    with a obtain d where d: "p = Some (JObj d)"
      "parse_bound d ''min_change_pct'' = Inl exc \<or> parse_bound d ''max_spread'' = Inl exc"
      by (auto simp: parse_subscription_filter_def bindE_def split: option.splits json.splits sum.splits)
    from d(2) False show ?thesis by (auto dest!: parse_bound_result(2) simp: d(1))
  qed simp
qed

section \<open>Witnesses\<close>

definition sample_client :: client_session where
  \<comment> \<open>a RAW client whose boundary for symbol A is 5\<close>
  "sample_client =
     (new_session ''c'' DROP_OLDEST JSON (Fin 0))
       \<lparr>cs_aggregator := Some (new_aggregation_buffer RAW 100), cs_last_seq := [''A'' \<mapsto> 5]\<rparr>"

definition sample_snapshot :: "int \<Rightarrow> snapshot_data" where
  "sample_snapshot n = from_event (sample_event ''A'' n)"

lemma sample_snapshot_simps [simp]:
  "sn_symbol (sample_snapshot n) = ''A''" "sn_seq (sample_snapshot n) = n" "sn_bid (sample_snapshot n) = Fin 10"
  by (simp_all add: sample_snapshot_def from_event_def)

lemma wf_sample_client [simp]: "wf_session sample_client" "cs_policy sample_client = DROP_OLDEST"
  "cs_last_seq sample_client = [''A'' \<mapsto> 5]" "q_items (cs_queue sample_client) = []"
  "cs_disconnected sample_client = False"
  using wf_new_session [of "''c''" DROP_OLDEST JSON "Fin 0"]
  by (simp_all add: sample_client_def wf_session_def)

theorem gap_recovers_through_snapshot_witness:
  "\<exists>s'. dispatch_snapshot ''A'' (Inr (Some (sample_snapshot 9))) (bump_gaps sample_client) = (DispatchRuns, s') \<and>
     cs_last_seq s' ''A'' = Some 9"
proof -
  obtain ph s' where d: "dispatch_snapshot (ev_symbol (sample_event ''A'' 8)) (Inr (Some (sample_snapshot 9)))
      (bump_gaps sample_client) = (ph, s')"
    by (cases "dispatch_snapshot (ev_symbol (sample_event ''A'' 8)) (Inr (Some (sample_snapshot 9)))
      (bump_gaps sample_client)")
  from gap_recovers_through_snapshot [OF wf_sample_client(1,2) _ _ d, of 5] d show ?thesis by simp
qed

theorem parsed_filter_bounds_witness:
  "\<exists>f. parse_subscription_filter (Some (JObj [(''max_spread'', JInt 2)])) = Inr (Some f) \<and>
     max_spread f = Some (Fin 2) \<and> f_is_finite (Fin 2)"
proof -
  let ?f = "\<lparr>min_change_pct = None, max_spread = Some (Fin 2)\<rparr>"
  have "parse_subscription_filter (Some (JObj [(''max_spread'', JInt 2)])) = Inr (Some ?f)"
    using f_of_int_small [of 2]
    by (simp add: parse_subscription_filter_def parse_bound_def dict_get_Cons f_is_finite_def)
  moreover from this parsed_filter_bounds [of "Some (JObj [(''max_spread'', JInt 2)])"]
  have "f_is_finite (Fin 2)" by auto
  ultimately show ?thesis by auto
qed

end
