(* ===== verification/Gateway_Effects.thy ===== *)
theory Gateway_Effects
  imports Gateway_Dispatch
begin

text \<open>
  What each operation of \<open>Gateway_State\<close> changes, as equations over a few views of the
  state, collected in \<open>views\<close> for the proofs about \<open>gateway_step\<close>. The invariants look at the registry through four views: the sessions of a symbol, the
  initializations of a symbol, the symbols of a session, and the channel bookkeeping.
\<close>

definition subscribed :: "gateway \<Rightarrow> nat \<Rightarrow> string set option" where
  "subscribed g i = map_option cs_subscriptions (gw_heap g i)"

named_theorems views

lemma enqueue_subscriptions [simp]: "cs_subscriptions (snd (enqueue m s)) = cs_subscriptions s"
  by (simp add: enqueue_def bump_dropped_def Let_def split: slow_consumer_policy.split prod.split option.split)

lemma push_event_subscriptions [simp]: "cs_subscriptions (push_event e s) = cs_subscriptions s"
  by (simp add: push_event_def)

lemma session_subscriptions [simp]:
  "cs_subscriptions (set_last_seq sy n s) = cs_subscriptions s"
  "cs_subscriptions (set_last_price sy p s) = cs_subscriptions s"
  "cs_subscriptions (bump_gaps s) = cs_subscriptions s"
  "cs_subscriptions (bump_sent s) = cs_subscriptions s"
  "cs_subscriptions (mark_delivered e s) = cs_subscriptions s"
  "cs_subscriptions (record_latency t m s) = cs_subscriptions s"
  "cs_subscriptions (set_filter sy flt s) = cs_subscriptions s"
  "cs_subscriptions (close_session s) = cs_subscriptions s"
  by (simp_all add: set_last_seq_def set_last_price_def bump_gaps_def bump_sent_def mark_delivered_def
      record_latency_def set_filter_def close_session_def split: option.split sum.split)

lemma replay_events_subscriptions [simp]:
  "cs_subscriptions (replay_events snap es s) = cs_subscriptions s"
proof -
  have "cs_subscriptions (fold push_event l s) = cs_subscriptions s" for l
    by (induction l arbitrary: s) auto
  then show ?thesis by (simp add: replay_events_def)
qed

lemma update_session_views [views]:
  "subs_of (update_session i f g) sy = subs_of g sy" "inits_of (update_session i f g) sy = inits_of g sy"
  "gw_subs (update_session i f g) = gw_subs g" "gw_init (update_session i f g) = gw_init g"
  "gw_active (update_session i f g) = gw_active g" "gw_confirmed (update_session i f g) = gw_confirmed g"
  "gw_demand (update_session i f g) = gw_demand g" "gw_pubsub (update_session i f g) = gw_pubsub g"
  "gw_next (update_session i f g) = gw_next g"
  "subscribed (update_session i f g) j =
     (if j = i then map_option (\<lambda>s. cs_subscriptions (f s)) (gw_heap g i) else subscribed g j)"
  by (simp_all add: update_session_def subs_of_def inits_of_def subscribed_def option.map_comp comp_def)

lemma send_error_views [views]:
  "subs_of (send_error i t g) sy = subs_of g sy" "inits_of (send_error i t g) sy = inits_of g sy"
  "gw_subs (send_error i t g) = gw_subs g" "gw_init (send_error i t g) = gw_init g"
  "gw_active (send_error i t g) = gw_active g" "gw_confirmed (send_error i t g) = gw_confirmed g"
  "gw_demand (send_error i t g) = gw_demand g" "gw_pubsub (send_error i t g) = gw_pubsub g"
  "gw_next (send_error i t g) = gw_next g"
  "subscribed (send_error i t g) j = subscribed g j"
  by (simp_all add: send_error_def views) (simp add: subscribed_def)

lemma subscribe_desired_views [views]:
  "subs_of (snd (subscribe_desired_channels a g)) sy = subs_of g sy"
  "inits_of (snd (subscribe_desired_channels a g)) sy = inits_of g sy"
  "gw_subs (snd (subscribe_desired_channels a g)) = gw_subs g"
  "gw_init (snd (subscribe_desired_channels a g)) = gw_init g"
  "gw_active (snd (subscribe_desired_channels a g)) = gw_active g"
  "gw_demand (snd (subscribe_desired_channels a g)) = gw_demand g"
  "gw_pubsub (snd (subscribe_desired_channels a g)) = gw_pubsub g"
  "gw_next (snd (subscribe_desired_channels a g)) = gw_next g"
  "subscribed (snd (subscribe_desired_channels a g)) i = subscribed g i"
  "gw_confirmed (snd (subscribe_desired_channels a g)) =
     (if fst (subscribe_desired_channels a g) then gw_active g else {})"
  by (auto simp: subscribe_desired_channels_def subs_of_def inits_of_def subscribed_def)

lemma open_pubsub_views [views]:
  "subs_of (snd (open_pubsub a g)) sy = subs_of g sy"
  "inits_of (snd (open_pubsub a g)) sy = inits_of g sy"
  "gw_subs (snd (open_pubsub a g)) = gw_subs g"
  "gw_init (snd (open_pubsub a g)) = gw_init g"
  "gw_active (snd (open_pubsub a g)) = gw_active g"
  "gw_demand (snd (open_pubsub a g)) = gw_demand g"
  "gw_pubsub (snd (open_pubsub a g)) = Some (gw_next g)"
  "gw_next (snd (open_pubsub a g)) = gw_next g + 1"
  "subscribed (snd (open_pubsub a g)) i = subscribed g i"
  "gw_confirmed (snd (open_pubsub a g)) = (if fst (open_pubsub a g) then gw_active g else {})"
  by (simp_all add: open_pubsub_def views) (simp_all add: subs_of_def inits_of_def subscribed_def)

lemma close_pubsub_views [views]:
  "subs_of (close_pubsub p g) sy = subs_of g sy" "inits_of (close_pubsub p g) sy = inits_of g sy"
  "gw_subs (close_pubsub p g) = gw_subs g" "gw_init (close_pubsub p g) = gw_init g"
  "gw_active (close_pubsub p g) = gw_active g" "gw_demand (close_pubsub p g) = gw_demand g"
  "gw_next (close_pubsub p g) = gw_next g" "subscribed (close_pubsub p g) i = subscribed g i"
  "gw_pubsub (close_pubsub p g) = (if gw_pubsub g = Some p then None else gw_pubsub g)"
  "gw_confirmed (close_pubsub p g) = (if gw_pubsub g = Some p then {} else gw_confirmed g)"
  by (simp_all add: close_pubsub_def subs_of_def inits_of_def subscribed_def)

lemma subscribe_pubsub_views [views]:
  "subs_of (snd (subscribe_pubsub_symbol a ch g)) sy = subs_of g sy"
  "inits_of (snd (subscribe_pubsub_symbol a ch g)) sy = inits_of g sy"
  "gw_subs (snd (subscribe_pubsub_symbol a ch g)) = gw_subs g"
  "gw_init (snd (subscribe_pubsub_symbol a ch g)) = gw_init g"
  "gw_active (snd (subscribe_pubsub_symbol a ch g)) = insert ch (gw_active g)"
  "gw_demand (snd (subscribe_pubsub_symbol a ch g))"
  "gw_pubsub (snd (subscribe_pubsub_symbol a ch g)) = gw_pubsub g"
  "gw_next (snd (subscribe_pubsub_symbol a ch g)) = gw_next g"
  "subscribed (snd (subscribe_pubsub_symbol a ch g)) i = subscribed g i"
  "gw_confirmed (snd (subscribe_pubsub_symbol a ch g)) =
     (if fst (subscribe_pubsub_symbol a ch g) then insert ch (gw_confirmed g) else gw_confirmed g)"
  by (auto simp: subscribe_pubsub_symbol_def subs_of_def inits_of_def subscribed_def Let_def)

lemma subscribe_pubsub_needs_pubsub:
  "fst (subscribe_pubsub_symbol a ch g) \<Longrightarrow> ch \<in> gw_confirmed g \<or> gw_pubsub g \<noteq> None"
  by (auto simp: subscribe_pubsub_symbol_def Let_def split: if_splits)

lemma unsubscribe_pubsub_views [views]:
  "subs_of (unsubscribe_pubsub_symbol ch g) sy = subs_of g sy"
  "inits_of (unsubscribe_pubsub_symbol ch g) sy = inits_of g sy"
  "gw_subs (unsubscribe_pubsub_symbol ch g) = gw_subs g"
  "gw_init (unsubscribe_pubsub_symbol ch g) = gw_init g"
  "gw_active (unsubscribe_pubsub_symbol ch g) = gw_active g - {ch}"
  "gw_pubsub (unsubscribe_pubsub_symbol ch g) = gw_pubsub g"
  "gw_next (unsubscribe_pubsub_symbol ch g) = gw_next g"
  "subscribed (unsubscribe_pubsub_symbol ch g) i = subscribed g i"
  by (auto simp: unsubscribe_pubsub_symbol_def subs_of_def inits_of_def subscribed_def Let_def)

lemma connect_session_views [views]:
  "fst (connect_session cid enc mode now g) = gw_next g"
  "subs_of (snd (connect_session cid enc mode now g)) sy = subs_of g sy"
  "inits_of (snd (connect_session cid enc mode now g)) sy = inits_of g sy"
  "gw_subs (snd (connect_session cid enc mode now g)) = gw_subs g"
  "gw_init (snd (connect_session cid enc mode now g)) = gw_init g"
  "gw_active (snd (connect_session cid enc mode now g)) = gw_active g"
  "gw_confirmed (snd (connect_session cid enc mode now g)) = gw_confirmed g"
  "gw_demand (snd (connect_session cid enc mode now g)) = gw_demand g"
  "gw_pubsub (snd (connect_session cid enc mode now g)) = gw_pubsub g"
  "gw_next (snd (connect_session cid enc mode now g)) = gw_next g + 1"
  "subscribed (snd (connect_session cid enc mode now g)) j =
     (if j = gw_next g then Some {} else subscribed g j)"
  by (simp_all add: connect_session_def Let_def subs_of_def inits_of_def subscribed_def start_writer_def
      new_session_def)

lemma begin_initialization_views [views]:
  "fst (begin_initialization i sy g) = gw_next g"
  "subs_of (snd (begin_initialization i sy g)) sy' = subs_of g sy'"
  "inits_of (snd (begin_initialization i sy g)) sy' =
     (if sy' = sy then dict_set i \<lparr>in_id = gw_next g, in_events = [], in_overflowed = False\<rparr> (inits_of g sy)
      else inits_of g sy')"
  "gw_subs (snd (begin_initialization i sy g)) = gw_subs g"
  "gw_active (snd (begin_initialization i sy g)) = gw_active g"
  "gw_confirmed (snd (begin_initialization i sy g)) = gw_confirmed g"
  "gw_demand (snd (begin_initialization i sy g)) = gw_demand g"
  "gw_pubsub (snd (begin_initialization i sy g)) = gw_pubsub g"
  "gw_next (snd (begin_initialization i sy g)) = gw_next g + 1"
  "subscribed (snd (begin_initialization i sy g)) j = subscribed g j"
  by (simp_all add: begin_initialization_def Let_def subs_of_def inits_of_def subscribed_def)

lemma drop_initialization_views [views]:
  "subs_of (drop_initialization i sy g) sy' = subs_of g sy'"
  "inits_of (drop_initialization i sy g) sy' =
     (if sy' = sy then dict_pop i (inits_of g sy) else inits_of g sy')"
  "gw_subs (drop_initialization i sy g) = gw_subs g"
  "gw_active (drop_initialization i sy g) = gw_active g"
  "gw_confirmed (drop_initialization i sy g) = gw_confirmed g"
  "gw_demand (drop_initialization i sy g) = gw_demand g"
  "gw_pubsub (drop_initialization i sy g) = gw_pubsub g"
  "gw_next (drop_initialization i sy g) = gw_next g"
  "gw_heap (drop_initialization i sy g) = gw_heap g"
  "subscribed (drop_initialization i sy g) j = subscribed g j"
  by (simp_all add: drop_initialization_def Let_def subs_of_def inits_of_def subscribed_def)

lemma register_session_views [views]:
  "subs_of (register_session i sy g) sy' = (if sy' = sy then insert i (subs_of g sy) else subs_of g sy')"
  "inits_of (register_session i sy g) sy' = inits_of g sy'"
  "gw_init (register_session i sy g) = gw_init g"
  "gw_active (register_session i sy g) = gw_active g"
  "gw_confirmed (register_session i sy g) = gw_confirmed g"
  "gw_demand (register_session i sy g) = gw_demand g"
  "gw_pubsub (register_session i sy g) = gw_pubsub g"
  "gw_next (register_session i sy g) = gw_next g"
  "subscribed (register_session i sy g) j =
     (if j = i then map_option (insert sy) (subscribed g i) else subscribed g j)"
  by (simp_all add: register_session_def update_session_def subs_of_def inits_of_def subscribed_def
      option.map_comp comp_def)

lemma discard_session_views [views]:
  "fst (discard_session i sy g) \<longleftrightarrow> subs_of g sy - {i} = {}"
  "subs_of (snd (discard_session i sy g)) sy' = (if sy' = sy then subs_of g sy - {i} else subs_of g sy')"
  "inits_of (snd (discard_session i sy g)) sy' = inits_of g sy'"
  "gw_init (snd (discard_session i sy g)) = gw_init g"
  "gw_active (snd (discard_session i sy g)) = gw_active g"
  "gw_confirmed (snd (discard_session i sy g)) = gw_confirmed g"
  "gw_demand (snd (discard_session i sy g)) = gw_demand g"
  "gw_pubsub (snd (discard_session i sy g)) = gw_pubsub g"
  "gw_next (snd (discard_session i sy g)) = gw_next g"
  "gw_heap (snd (discard_session i sy g)) = gw_heap g"
  "subscribed (snd (discard_session i sy g)) j = subscribed g j"
  by (auto simp: discard_session_def Let_def subs_of_def inits_of_def subscribed_def)

lemma fanout_event_views [views]:
  "subs_of (fanout_event e g) sy = subs_of g sy"
  "inits_of (fanout_event e g) sy =
     (if sy = ev_symbol e then map (\<lambda>(i, ini). (i, buffer_event e ini)) (inits_of g sy) else inits_of g sy)"
  "gw_subs (fanout_event e g) = gw_subs g"
  "gw_active (fanout_event e g) = gw_active g"
  "gw_confirmed (fanout_event e g) = gw_confirmed g"
  "gw_demand (fanout_event e g) = gw_demand g"
  "gw_pubsub (fanout_event e g) = gw_pubsub g"
  "gw_next (fanout_event e g) = gw_next g"
  "subscribed (fanout_event e g) j = subscribed g j"
  by (auto simp: fanout_event_def Let_def subs_of_def inits_of_def subscribed_def option.map_comp comp_def
      split: option.splits)

lemma dict_get_map_values: "dict_get (map (\<lambda>(k, v). (k, f v)) d) k = map_option f (dict_get d k)"
  by (induction d) (auto simp: dict_get_Cons)

lemma cleanup_inits_views:
  "cleanup_inits i sys g = (us, g') \<Longrightarrow>
     subs_of g' sy = subs_of g sy \<and> gw_subs g' = gw_subs g \<and> gw_heap g' = gw_heap g \<and>
     inits_of g' sy = (if sy \<in> set sys then dict_pop i (inits_of g sy) else inits_of g sy) \<and>
     gw_active g' = gw_active g \<and> gw_confirmed g' = gw_confirmed g \<and> gw_demand g' = gw_demand g \<and>
     gw_pubsub g' = gw_pubsub g \<and> gw_next g' = gw_next g"
proof (induction sys arbitrary: g us g')
  case (Cons a sys)
  obtain us2 g2 where c: "cleanup_inits i sys (drop_initialization i a g) = (us2, g2)"
    by (cases "cleanup_inits i sys (drop_initialization i a g)")
  from Cons.IH [OF c] Cons.prems c show ?case
    by (auto simp: Let_def views dict_pop_def)
qed simp

lemma cleanup_subs_views:
  "cleanup_subs i sys g = (us, g') \<Longrightarrow>
     subs_of g' sy = (if sy \<in> set sys then subs_of g sy - {i} else subs_of g sy) \<and>
     gw_init g' = gw_init g \<and> gw_heap g' = gw_heap g \<and> inits_of g' sy = inits_of g sy \<and>
     gw_active g' = gw_active g \<and> gw_confirmed g' = gw_confirmed g \<and> gw_demand g' = gw_demand g \<and>
     gw_pubsub g' = gw_pubsub g \<and> gw_next g' = gw_next g \<and>
     (sy \<in> set sys \<longrightarrow> subs_of g' sy = {} \<longrightarrow> sy \<in> set us)"
proof (induction sys arbitrary: g us g')
  case (Cons a sys)
  obtain n g1 where d: "discard_session i a g = (n, g1)" by (cases "discard_session i a g")
  obtain us2 g2 where c: "cleanup_subs i sys g1 = (us2, g2)" by (cases "cleanup_subs i sys g1")
  from discard_session_views [of i a g] d have v: "n \<longleftrightarrow> subs_of g a - {i} = {}"
    "\<And>sy'. subs_of g1 sy' = (if sy' = a then subs_of g a - {i} else subs_of g sy')"
    "inits_of g1 sy = inits_of g sy" "gw_init g1 = gw_init g" "gw_heap g1 = gw_heap g"
    "gw_active g1 = gw_active g" "gw_confirmed g1 = gw_confirmed g" "gw_demand g1 = gw_demand g"
    "gw_pubsub g1 = gw_pubsub g" "gw_next g1 = gw_next g"
    by (simp_all add: discard_session_views(2) [of i a g, unfolded d, simplified])
  from Cons.IH [OF c] Cons.prems c d v show ?case by (auto split: if_splits)
qed simp

lemma dict_pop_pop [simp]: "dict_pop k (dict_pop k d) = dict_pop k d"
  by (simp add: dict_pop_def)

lemma register_with_views:
  "subs_of (register_with i sy flt snap es s g) sy' = (if sy' = sy then insert i (subs_of g sy) else subs_of g sy')"
  "inits_of (register_with i sy flt snap es s g) sy' =
     (if sy' = sy then dict_pop i (inits_of g sy) else inits_of g sy')"
  "gw_active (register_with i sy flt snap es s g) = gw_active g"
  "gw_confirmed (register_with i sy flt snap es s g) = gw_confirmed g"
  "gw_demand (register_with i sy flt snap es s g) = gw_demand g"
  "gw_pubsub (register_with i sy flt snap es s g) = gw_pubsub g"
  "gw_next (register_with i sy flt snap es s g) = gw_next g"
  "subscribed (register_with i sy flt snap es s g) j =
     (if j = i then Some (insert sy (cs_subscriptions s)) else subscribed g j)"
  by (simp_all add: register_with_def views) (simp_all add: subs_of_def inits_of_def subscribed_def)

text \<open>A subscription in progress either completes, or leaves all but the session as it was.\<close>

lemma complete_subscription_cases:
  assumes "complete_subscription i sy k flt snap g = (ok, g')"
  obtains (registered) s s1 ini where "ok" "gw_heap g i = Some s" "dict_get (inits_of g sy) i = Some ini"
      "in_id ini = k" "\<not> in_overflowed ini" "cs_subscriptions s1 = cs_subscriptions s"
      "g' = register_with i sy flt snap (in_events ini) s1 g"
  | (refused) h where "\<not> ok" "g' = g\<lparr>gw_heap := h\<rparr>" "\<And>j. subscribed g' j = subscribed g j"
proof (cases "gw_heap g i")
  case None
  with assms that(2) [of "gw_heap g"] show ?thesis by (simp add: complete_subscription_def)
next
  case (Some s)
  show ?thesis
  proof (cases "dict_get (inits_of g sy) i")
    case None
    with assms that(2) [of "gw_heap g"] Some show ?thesis by (simp add: complete_subscription_def)
  next
    case (Some ini)
    note ini = this
    show ?thesis
    proof (cases "in_id ini \<noteq> k \<or> in_overflowed ini")
      case True
      with assms that(2) [of "gw_heap g"] \<open>gw_heap g i = Some s\<close> ini show ?thesis
        by (simp add: complete_subscription_def)
    next
      case False
      note fine = this
      show ?thesis
      proof (cases snap)
        case None
        with assms that(1) \<open>gw_heap g i = Some s\<close> ini fine show ?thesis
          by (simp add: complete_subscription_def)
      next
        case (Some sn)
        obtain b s1 where e: "enqueue (snapshot_message sn) s = (b, s1)"
          by (cases "enqueue (snapshot_message sn) s")
        have s1: "cs_subscriptions s1 = cs_subscriptions s"
          using enqueue_subscriptions [of "snapshot_message sn" s] e by simp
        show ?thesis
        proof (cases b)
          case True
          with assms that(1) [of s ini "set_last_price sy (sn_bid sn) (set_last_seq sy (sn_seq sn) s1)"]
            \<open>gw_heap g i = Some s\<close> ini fine Some e s1 show ?thesis
            by (simp add: complete_subscription_def)
        next
          case False
          with assms \<open>gw_heap g i = Some s\<close> ini fine Some e s1
            that(2) [of "(gw_heap g)(i \<mapsto> s1)"]
          show ?thesis by (auto simp: complete_subscription_def subscribed_def)
        qed
      qed
    qed
  qed
qed

lemma finish_subscription_views:
  assumes "finish_subscription i sy k flt fetched g = (ok, g')"
  shows "subs_of g' sy' = (if ok \<and> sy' = sy then insert i (subs_of g sy) else subs_of g sy')"
    "inits_of g' sy' = (if sy' = sy then dict_pop i (inits_of g sy) else inits_of g sy')"
    "gw_active g' = gw_active g" "gw_confirmed g' = gw_confirmed g" "gw_demand g' = gw_demand g"
    "gw_pubsub g' = gw_pubsub g" "gw_next g' = gw_next g"
    "subscribed g' j = (if ok \<and> j = i then map_option (insert sy) (subscribed g i) else subscribed g j)"
    "ok \<Longrightarrow> gw_heap g i \<noteq> None"
proof -
  consider (raised) exc where "fetched = Inl exc" | (fetched) snap b g1 where "fetched = Inr snap"
      "complete_subscription i sy k flt snap g = (b, g1)"
    by (cases fetched) (auto, metis surj_pair)
  then have "subs_of g' sy' = (if ok \<and> sy' = sy then insert i (subs_of g sy) else subs_of g sy') \<and>
    inits_of g' sy' = (if sy' = sy then dict_pop i (inits_of g sy) else inits_of g sy') \<and>
    gw_active g' = gw_active g \<and> gw_confirmed g' = gw_confirmed g \<and> gw_demand g' = gw_demand g \<and>
    gw_pubsub g' = gw_pubsub g \<and> gw_next g' = gw_next g \<and>
    subscribed g' j = (if ok \<and> j = i then map_option (insert sy) (subscribed g i) else subscribed g j) \<and>
    (ok \<longrightarrow> gw_heap g i \<noteq> None)"
  proof cases
    case raised
    with assms show ?thesis by (auto simp: finish_subscription_def views)
  next
    case fetched
    from fetched(2) show ?thesis
    proof (cases rule: complete_subscription_cases)
      case (registered s s1 ini)
      then have "subscribed g i = Some (cs_subscriptions s)" by (simp add: subscribed_def)
      with registered assms fetched show ?thesis
        by (auto simp: finish_subscription_def views register_with_views)
    next
      case (refused h)
      have "subs_of g1 t = subs_of g t" "inits_of g1 t = inits_of g t" for t
        by (simp_all add: refused subs_of_def inits_of_def)
      with assms fetched refused show ?thesis
        by (auto simp: finish_subscription_def views)
    qed
  qed
  then show "subs_of g' sy' = (if ok \<and> sy' = sy then insert i (subs_of g sy) else subs_of g sy')"
    "inits_of g' sy' = (if sy' = sy then dict_pop i (inits_of g sy) else inits_of g sy')"
    "gw_active g' = gw_active g" "gw_confirmed g' = gw_confirmed g" "gw_demand g' = gw_demand g"
    "gw_pubsub g' = gw_pubsub g" "gw_next g' = gw_next g"
    "subscribed g' j = (if ok \<and> j = i then map_option (insert sy) (subscribed g i) else subscribed g j)"
    "ok \<Longrightarrow> gw_heap g i \<noteq> None" by auto
qed

lemma cleanup_registry_views:
  assumes "cleanup_registry i sys g = (us, g')"
  shows "subs_of g' sy = (if sy \<in> set sys then subs_of g sy - {i} else subs_of g sy)"
    "inits_of g' sy = dict_pop i (inits_of g sy)"
    "gw_active g' = gw_active g" "gw_confirmed g' = gw_confirmed g" "gw_demand g' = gw_demand g"
    "gw_pubsub g' = gw_pubsub g" "gw_next g' = gw_next g" "subscribed g' j = subscribed g j"
    "sy \<in> set sys \<Longrightarrow> subs_of g' sy = {} \<Longrightarrow> sy \<in> set us"
proof -
  obtain us1 g1 where c1: "cleanup_inits i (dict_keys (gw_init g)) g = (us1, g1)"
    by (cases "cleanup_inits i (dict_keys (gw_init g)) g")
  obtain us2 g2 where c2: "cleanup_subs i sys g1 = (us2, g2)" by (cases "cleanup_subs i sys g1")
  have none: "sy \<notin> set (dict_keys (gw_init g)) \<Longrightarrow> dict_pop i (inits_of g sy) = inits_of g sy"
    by (simp add: inits_of_def dict_get_None_iff [symmetric] dict_pop_def)
  have g': "g' = g2\<lparr>gw_all := gw_all g'\<rparr>" "us = us1 @ us2"
    using assms c1 c2 by (auto simp: cleanup_registry_def)
  have same: "subs_of g' = subs_of g2" "inits_of g' = inits_of g2" "gw_active g' = gw_active g2"
    "gw_confirmed g' = gw_confirmed g2" "gw_demand g' = gw_demand g2" "gw_pubsub g' = gw_pubsub g2"
    "gw_next g' = gw_next g2" "gw_heap g' = gw_heap g2"
    by (subst g', simp add: subs_of_def inits_of_def fun_eq_iff)+
  note v1 = cleanup_inits_views [OF c1, of sy] and v2 = cleanup_subs_views [OF c2, of sy]
  show "subs_of g' sy = (if sy \<in> set sys then subs_of g sy - {i} else subs_of g sy)"
    "inits_of g' sy = dict_pop i (inits_of g sy)"
    "gw_active g' = gw_active g" "gw_confirmed g' = gw_confirmed g" "gw_demand g' = gw_demand g"
    "gw_pubsub g' = gw_pubsub g" "gw_next g' = gw_next g" "subscribed g' j = subscribed g j"
    "sy \<in> set sys \<Longrightarrow> subs_of g' sy = {} \<Longrightarrow> sy \<in> set us"
    using v1 v2 none same g'(2) by (auto simp: subscribed_def)
qed

lemma classify_subscriptions [simp]:
  "cs_subscriptions (snd (classify_sequence sy n raw s)) = cs_subscriptions s"
  by (simp add: classify_sequence_def split: option.split)

lemma deliver_event_subscriptions [simp]: "cs_subscriptions (snd (deliver_event e s)) = cs_subscriptions s"
  by (simp add: deliver_event_def case_prod_beta split: sum.split)

lemma dispatch_event_subscriptions [simp]:
  "cs_subscriptions (snd (dispatch_event raw e s)) = cs_subscriptions s"
  by (simp add: dispatch_event_def case_prod_beta split: sequence_decision.split)

lemma dispatch_turn_subscriptions [simp]: "cs_subscriptions (snd (dispatch_turn s)) = cs_subscriptions s"
  by (simp add: dispatch_turn_def split: option.split prod.split)

lemma dispatch_snapshot_subscriptions [simp]:
  "cs_subscriptions (snd (dispatch_snapshot sy f s)) = cs_subscriptions s"
  by (simp add: dispatch_snapshot_def case_prod_beta split: sum.split option.split)

lemma writer_turn_subscriptions [simp]: "cs_subscriptions (snd (writer_turn o' time s)) = cs_subscriptions s"
  by (simp add: writer_turn_def Let_def split: option.split prod.split send_outcome.split)

lemma client_step_subscriptions [simp]: "cs_subscriptions (snd (client_step t (ph, s))) = cs_subscriptions s"
  by (cases t; cases ph) (simp_all add: flush_client_def)

section \<open>No empty entries\<close>

definition tidy :: "gateway \<Rightarrow> bool" where
  "tidy g \<longleftrightarrow> (\<forall>sy. dict_get (gw_subs g) sy \<noteq> Some {} \<and> dict_get (gw_init g) sy \<noteq> Some [])"

lemma tidy_frame: "gw_subs g' = gw_subs g \<Longrightarrow> gw_init g' = gw_init g \<Longrightarrow> tidy g' = tidy g"
  by (simp add: tidy_def)

lemma tidy_drop: "tidy g \<Longrightarrow> tidy (drop_initialization i sy g)"
  by (auto simp: tidy_def drop_initialization_def Let_def dict_get_pop dict_get_set)

lemma tidy_register: "tidy g \<Longrightarrow> tidy (register_session i sy g)"
  by (auto simp: tidy_def register_session_def update_session_def dict_get_set)

lemma tidy_discard: "tidy g \<Longrightarrow> tidy (snd (discard_session i sy g))"
  by (auto simp: tidy_def discard_session_def Let_def dict_get_pop dict_get_set)

lemma tidy_begin: "tidy g \<Longrightarrow> tidy (snd (begin_initialization i sy g))"
proof -
  have "dict_set i ini d \<noteq> []" for ini :: initialization and d
    using dict_get_set_same [of i ini d] by force
  then show "tidy g \<Longrightarrow> tidy (snd (begin_initialization i sy g))"
    by (auto simp: tidy_def begin_initialization_def Let_def dict_get_set)
qed

lemma tidy_fanout: "tidy g \<Longrightarrow> tidy (fanout_event e g)"
  by (auto simp: tidy_def fanout_event_def Let_def dict_get_set)

lemma tidy_cleanup_inits: "tidy g \<Longrightarrow> tidy (snd (cleanup_inits i sys g))"
proof (induction sys arbitrary: g)
  case (Cons a sys)
  from Cons.IH [OF tidy_drop [OF Cons.prems]] show ?case by (simp add: Let_def case_prod_beta)
qed simp

lemma tidy_cleanup_subs: "tidy g \<Longrightarrow> tidy (snd (cleanup_subs i sys g))"
proof (induction sys arbitrary: g)
  case (Cons a sys)
  from Cons.IH [OF tidy_discard [OF Cons.prems]] show ?case by (simp add: case_prod_beta)
qed simp

lemma tidy_cleanup_registry:
  assumes "tidy g" "cleanup_registry i sys g = (us, g')"
  shows "tidy g'"
proof -
  have "tidy (snd (cleanup_registry i sys g))"
    using tidy_cleanup_subs [OF tidy_cleanup_inits [OF assms(1)], of i sys i "dict_keys (gw_init g)"]
    by (simp add: cleanup_registry_def case_prod_beta tidy_def)
  with assms(2) show ?thesis by simp
qed

lemma tidy_finish:
  assumes "tidy g" "finish_subscription i sy k flt fetched g = (ok, g')"
  shows "tidy g'"
proof -
  have refused: "tidy (g\<lparr>gw_heap := h\<rparr>)" for h
    using assms(1) by (simp add: tidy_def)
  have fails: "tidy g1 \<Longrightarrow> tidy (drop_initialization i sy (send_error i t g1))" for g1 t
    by (rule tidy_drop) (simp add: tidy_def views)
  consider (raised) exc where "fetched = Inl exc" | (fetched) snap b g1 where "fetched = Inr snap"
      "complete_subscription i sy k flt snap g = (b, g1)"
    by (cases fetched) (auto, metis surj_pair)
  then show ?thesis
  proof cases
    case raised
    with assms fails show ?thesis by (auto simp: finish_subscription_def)
  next
    case fetched
    from fetched(2) show ?thesis
    proof (cases rule: complete_subscription_cases)
      case (registered s s1 ini)
      then have "tidy g1" unfolding register_with_def
        using refused by (auto intro!: tidy_register tidy_drop)
      with registered assms fetched show ?thesis by (auto simp: finish_subscription_def intro: tidy_drop)
    next
      case (refused h)
      with assms fetched \<open>tidy (g\<lparr>gw_heap := h\<rparr>)\<close> fails show ?thesis by (auto simp: finish_subscription_def)
    qed
  qed
qed

lemma finish_subscription_snd [views]:
  "subs_of (snd (finish_subscription i sy k flt f g)) sy' =
     (if fst (finish_subscription i sy k flt f g) \<and> sy' = sy then insert i (subs_of g sy) else subs_of g sy')"
  "inits_of (snd (finish_subscription i sy k flt f g)) sy' =
     (if sy' = sy then dict_pop i (inits_of g sy) else inits_of g sy')"
  "gw_active (snd (finish_subscription i sy k flt f g)) = gw_active g"
  "gw_confirmed (snd (finish_subscription i sy k flt f g)) = gw_confirmed g"
  "gw_demand (snd (finish_subscription i sy k flt f g)) = gw_demand g"
  "gw_pubsub (snd (finish_subscription i sy k flt f g)) = gw_pubsub g"
  "gw_next (snd (finish_subscription i sy k flt f g)) = gw_next g"
  "subscribed (snd (finish_subscription i sy k flt f g)) j =
     (if fst (finish_subscription i sy k flt f g) \<and> j = i then map_option (insert sy) (subscribed g i)
      else subscribed g j)"
  by (rule finish_subscription_views, rule surjective_pairing)+

lemma cleanup_registry_snd [views]:
  "subs_of (snd (cleanup_registry i sys g)) sy = (if sy \<in> set sys then subs_of g sy - {i} else subs_of g sy)"
  "inits_of (snd (cleanup_registry i sys g)) sy = dict_pop i (inits_of g sy)"
  "gw_active (snd (cleanup_registry i sys g)) = gw_active g"
  "gw_confirmed (snd (cleanup_registry i sys g)) = gw_confirmed g"
  "gw_demand (snd (cleanup_registry i sys g)) = gw_demand g"
  "gw_pubsub (snd (cleanup_registry i sys g)) = gw_pubsub g"
  "gw_next (snd (cleanup_registry i sys g)) = gw_next g"
  "subscribed (snd (cleanup_registry i sys g)) j = subscribed g j"
  by (rule cleanup_registry_views, rule surjective_pairing)+

lemma cleanup_registry_abandoned:
  "sy \<in> set sys \<Longrightarrow> subs_of g sy \<subseteq> {i} \<Longrightarrow> sy \<in> set (fst (cleanup_registry i sys g))"
  by (rule cleanup_registry_views(9) [where g' = "snd (cleanup_registry i sys g)"])
    (auto simp: views)

end
