(* ===== verification/Gateway.thy ===== *)
theory Gateway
  imports Gateway_Effects
begin

text \<open>
  The tasks of the gateway side by side, as a step relation over \<open>Gateway_State\<close>: one
  connection handler per client (\<open>websocket_stream\<close> with \<open>_subscribe\<close>,
  \<open>_unsubscribe\<close> and \<open>_cleanup\<close>), its dispatch, window and writer tasks, and the
  fanout loop. A step runs one task from one \<open>await\<close> to the next. The invariants say
  what every interleaving preserves: the registry and the sessions agree, the Pub/Sub
  channels follow the demand, and only a client that releases a symbol it had found unused
  can leave a symbol in use without its channel.

  The fanout may open its connection after the demand that woke it has gone, and an exception
  while it closes one ends it for good (\<open>fan_dies\<close>). A handler that has decided to release a
  channel waits for the lock, so a release is a step of its own; the steps allow more
  interleavings around it than the lock does, and what holds for all holds for these.
\<close>

datatype client_pc =
    Ready
  | Ensuring string "subscription_filter option" nat
  | Fetching string "subscription_filter option" nat
  | Removing string
  | Leaving "string list"
  | Gone
  | Crashed py_exn

datatype fanout_phase = FanWaiting | FanWoken | FanListening nat | FanSleeping nat | FanDead

record gateway_sys =
  gs_gw :: gateway
  gs_pc :: "nat \<Rightarrow> client_pc option"
  gs_phase :: "nat \<Rightarrow> dispatch_phase"
  gs_fan :: fanout_phase

definition start_sys :: gateway_sys where
  "start_sys =
     \<lparr>gs_gw = new_gateway, gs_pc = Map.empty, gs_phase = (\<lambda>_. DispatchRuns), gs_fan = FanWaiting\<rparr>"

definition goto :: "nat \<Rightarrow> client_pc \<Rightarrow> gateway \<Rightarrow> gateway_sys \<Rightarrow> gateway_sys" where
  "goto i pc g x = x\<lparr>gs_gw := g, gs_pc := (gs_pc x)(i \<mapsto> pc)\<rparr>"

definition removal_pc :: "string \<Rightarrow> gateway \<Rightarrow> client_pc" where
  \<comment> \<open>\<open>_remove_desired_channel_if_unused\<close> up to the wait for \<open>pubsub_lock\<close>\<close>
  "removal_pc sy g = (if channel_in_use sy g then Ready else Removing sy)"

inductive gateway_step :: "string \<Rightarrow> gateway_sys \<Rightarrow> gateway_sys \<Rightarrow> bool" for pfx where
  connects: "c = connect_session cid enc mode now (gs_gw x) \<Longrightarrow>
     gateway_step pfx x ((goto (fst c) Ready (snd c) x)\<lparr>gs_phase := (gs_phase x)(fst c := DispatchRuns)\<rparr>)"
| replies: "gs_pc x i = Some Ready \<Longrightarrow>
     gateway_step pfx x (goto i Ready (send_error i t (gs_gw x)) x)"
| subscribe_asks: "gs_pc x i = Some Ready \<Longrightarrow>
     gateway_step pfx x (goto i (Ensuring sy flt 0) (gs_gw x) x)"
| ensure_confirms: "gs_pc x i = Some (Ensuring sy flt n) \<Longrightarrow> n < 5 \<Longrightarrow>
     r = subscribe_pubsub_symbol accepts (event_channel pfx sy) (gs_gw x) \<Longrightarrow> fst r \<Longrightarrow>
     b = begin_initialization i sy (snd r) \<Longrightarrow>
     gateway_step pfx x (goto i (Fetching sy flt (fst b)) (snd b) x)"
| ensure_fails: "gs_pc x i = Some (Ensuring sy flt n) \<Longrightarrow> n < 5 \<Longrightarrow>
     r = subscribe_pubsub_symbol accepts (event_channel pfx sy) (gs_gw x) \<Longrightarrow> \<not> fst r \<Longrightarrow>
     gateway_step pfx x (goto i (Ensuring sy flt (n + 1)) (snd r) x)"
| ensure_gives_up: "gs_pc x i = Some (Ensuring sy flt 5) \<Longrightarrow>
     g = send_error i (''subscription unavailable for '' @ sy) (gs_gw x) \<Longrightarrow>
     gateway_step pfx x (goto i (removal_pc sy g) g x)"
| subscribe_ends: "gs_pc x i = Some (Fetching sy flt k) \<Longrightarrow>
     g = snd (finish_subscription i sy k flt fetched (gs_gw x)) \<Longrightarrow>
     gateway_step pfx x (goto i (removal_pc sy g) g x)"
| removes: "gs_pc x i = Some (Removing sy) \<Longrightarrow>
     gateway_step pfx x
       (goto i Ready (unsubscribe_pubsub_symbol (event_channel pfx sy) (gs_gw x)) x)"
| unsubscribes: "gs_pc x i = Some Ready \<Longrightarrow> d = discard_session i sy (gs_gw x) \<Longrightarrow>
     gateway_step pfx x
       (goto i (if fst d then Removing sy else Ready) (update_session i (forget_symbol sy) (snd d)) x)"
| leaves: "gs_pc x i = Some Ready \<Longrightarrow> (\<And>exc. gs_phase x i \<noteq> DispatchDead exc) \<Longrightarrow>
     gw_heap (gs_gw x) i = Some s \<Longrightarrow> distinct sys \<Longrightarrow> set sys = cs_subscriptions s \<Longrightarrow>
     c = cleanup_registry i sys (update_session i end_aggregator (gs_gw x)) \<Longrightarrow>
     gateway_step pfx x
       ((goto i (Leaving (fst c)) (snd c) x)\<lparr>gs_phase := (gs_phase x)(i := DispatchDead CancelledError)\<rparr>)"
| leaving: "gs_pc x i = Some (Leaving (sy # us)) \<Longrightarrow>
     gateway_step pfx x
       (goto i (Leaving us) (unsubscribe_pubsub_symbol (event_channel pfx sy) (gs_gw x)) x)"
| left: "gs_pc x i = Some (Leaving []) \<Longrightarrow>
     gateway_step pfx x (goto i Gone (update_session i close_session (gs_gw x)) x)"
| crashes: "gs_pc x i = Some Ready \<Longrightarrow> gs_phase x i = DispatchDead exc \<Longrightarrow>
     gateway_step pfx x (goto i (Crashed exc) (gs_gw x) x)"
| client_works: "gw_heap (gs_gw x) i = Some s \<Longrightarrow> (\<And>e. t \<noteq> EventArrives e) \<Longrightarrow>
     r = client_step t (gs_phase x i, s) \<Longrightarrow>
     gateway_step pfx x
       (x\<lparr>gs_gw := update_session i (\<lambda>_. snd r) (gs_gw x), gs_phase := (gs_phase x)(i := fst r)\<rparr>)"
| fan_wakes: "gs_fan x = FanWaiting \<Longrightarrow> gw_demand (gs_gw x) \<Longrightarrow>
     gateway_step pfx x (x\<lparr>gs_fan := FanWoken\<rparr>)"
| fan_opens: "gs_fan x = FanWoken \<Longrightarrow>
     r = open_pubsub accepts (gs_gw x) \<Longrightarrow> gw_pubsub (snd r) = Some p \<Longrightarrow>
     gateway_step pfx x (x\<lparr>gs_gw := snd r, gs_fan := (if fst r then FanListening p else FanSleeping p)\<rparr>)"
| fan_event: "gs_fan x = FanListening p \<Longrightarrow>
     gateway_step pfx x (x\<lparr>gs_gw := fanout_event e (gs_gw x)\<rparr>)"
| fan_breaks: "gs_fan x = FanListening p \<Longrightarrow> gateway_step pfx x (x\<lparr>gs_fan := FanSleeping p\<rparr>)"
| fan_ends: "gs_fan x = FanListening p \<or> gs_fan x = FanSleeping p \<Longrightarrow>
     gateway_step pfx x (x\<lparr>gs_gw := close_pubsub p (gs_gw x), gs_fan := FanWaiting\<rparr>)"
| fan_dies: "gs_fan x = FanListening p \<or> gs_fan x = FanSleeping p \<Longrightarrow>
     gateway_step pfx x (x\<lparr>gs_gw := close_pubsub p (gs_gw x), gs_fan := FanDead\<rparr>)"

inductive_cases gateway_stepE: "gateway_step pfx x y"

section \<open>Invariants\<close>

lemma goto_simps [simp]:
  "gs_gw (goto i pc g x) = g" "gs_pc (goto i pc g x) = (gs_pc x)(i \<mapsto> pc)"
  "gs_phase (goto i pc g x) = gs_phase x" "gs_fan (goto i pc g x) = gs_fan x"
  by (simp_all add: goto_def)

fun registered :: "client_pc option \<Rightarrow> bool" where
  "registered None = False"
| "registered (Some (Leaving _)) = False"
| "registered (Some Gone) = False"
| "registered (Some _) = True"

fun fan_pubsub :: "fanout_phase \<Rightarrow> nat option" where
  "fan_pubsub FanWaiting = None"
| "fan_pubsub FanWoken = None"
| "fan_pubsub FanDead = None"
| "fan_pubsub (FanListening p) = Some p"
| "fan_pubsub (FanSleeping p) = Some p"

definition chan_ok :: "nat option \<Rightarrow> gateway \<Rightarrow> bool" where
  "chan_ok p g \<longleftrightarrow> gw_confirmed g \<subseteq> gw_active g \<and> (gw_demand g \<longleftrightarrow> gw_active g \<noteq> {}) \<and>
     gw_pubsub g = p \<and> (p = None \<longrightarrow> gw_confirmed g = {})"

definition inv_channels :: "gateway_sys \<Rightarrow> bool" where
  "inv_channels x \<longleftrightarrow> chan_ok (fan_pubsub (gs_fan x)) (gs_gw x)"

definition inv_ids :: "gateway_sys \<Rightarrow> bool" where
  "inv_ids x \<longleftrightarrow> (\<forall>i. (gs_pc x i = None) = (subscribed (gs_gw x) i = None) \<and>
     (gw_next (gs_gw x) \<le> i \<longrightarrow> subscribed (gs_gw x) i = None))"

definition inv_registry :: "gateway_sys \<Rightarrow> bool" where
  "inv_registry x \<longleftrightarrow> (\<forall>i sy. i \<in> subs_of (gs_gw x) sy \<longleftrightarrow>
     registered (gs_pc x i) \<and> (\<exists>S. subscribed (gs_gw x) i = Some S \<and> sy \<in> S))"

definition init_ok :: "client_pc option \<Rightarrow> string \<Rightarrow> initialization option \<Rightarrow> bool" where
  "init_ok pc sy d \<longleftrightarrow>
     (case pc of
        Some (Fetching sy' flt k) \<Rightarrow>
          (if sy' = sy then \<exists>ini. d = Some ini \<and> in_id ini = k \<and>
               length (in_events ini) \<le> INITIALIZATION_BUFFER_MAX_SIZE
           else d = None)
      | _ \<Rightarrow> d = None)"

definition inv_inits :: "gateway_sys \<Rightarrow> bool" where
  "inv_inits x \<longleftrightarrow> (\<forall>i sy. init_ok (gs_pc x i) sy (dict_get (inits_of (gs_gw x) sy) i))"

fun pending :: "client_pc option \<Rightarrow> string \<Rightarrow> bool" where
  "pending (Some (Ensuring sy' flt n)) sy = (sy' = sy \<and> 0 < n)"
| "pending (Some (Removing sy')) sy = (sy' = sy)"
| "pending (Some (Leaving us)) sy = (sy \<in> set us)"
| "pending _ sy = False"

definition inv_wanted :: "string \<Rightarrow> gateway_sys \<Rightarrow> bool" where
  \<comment> \<open>a channel that is asked for is in use, or a client is about to use or remove it\<close>
  "inv_wanted pfx x \<longleftrightarrow> (\<forall>ch \<in> gw_active (gs_gw x). \<exists>sy. ch = event_channel pfx sy \<and>
     (channel_in_use sy (gs_gw x) \<or> (\<exists>i. pending (gs_pc x i) sy)))"

lemma chan_ok_frame [simp]:
  "chan_ok p (snd (connect_session cid enc mode now g)) = chan_ok p g"
  "chan_ok p (update_session i f g) = chan_ok p g"
  "chan_ok p (send_error i t g) = chan_ok p g"
  "chan_ok p (snd (begin_initialization i sy g)) = chan_ok p g"
  "chan_ok p (snd (finish_subscription i sy k flt f' g)) = chan_ok p g"
  "chan_ok p (snd (discard_session i sy g)) = chan_ok p g"
  "chan_ok p (snd (cleanup_registry i sys g)) = chan_ok p g"
  "chan_ok p (fanout_event e g) = chan_ok p g"
  by (simp_all add: chan_ok_def views)

lemma chan_ok_pubsub:
  "chan_ok p g \<Longrightarrow> chan_ok p (snd (subscribe_pubsub_symbol a ch g))"
  "chan_ok p g \<Longrightarrow> chan_ok p (unsubscribe_pubsub_symbol ch g)"
  "chan_ok p g \<Longrightarrow> gw_pubsub (snd (open_pubsub a g)) = q \<Longrightarrow> chan_ok q (snd (open_pubsub a g))"
  "chan_ok (Some n) g \<Longrightarrow> chan_ok None (close_pubsub n g)"
  using subscribe_pubsub_needs_pubsub [of a ch g]
  by (auto simp: chan_ok_def views) (auto simp: unsubscribe_pubsub_symbol_def Let_def split: if_splits)

lemma inv_channels_step:
  assumes "inv_channels x" "gateway_step pfx x y"
  shows "inv_channels y"
  using assms(2,1)
  by cases (auto simp: inv_channels_def chan_ok_pubsub)

lemma session_updates [views]:
  "subscribed (update_session i close_session g) j = subscribed g j"
  "subscribed (update_session i end_aggregator g) j = subscribed g j"
  "subscribed (update_session i (forget_symbol sy) g) j =
     (if j = i then map_option (\<lambda>S. S - {sy}) (subscribed g i) else subscribed g j)"
  by (simp_all add: update_session_views)
    (simp_all add: subscribed_def end_aggregator_def forget_symbol_def option.map_comp comp_def)

lemma client_works_subscribed [views]:
  "gw_heap g i = Some s \<Longrightarrow>
     subscribed (update_session i (\<lambda>_. snd (client_step t (ph, s))) g) j = subscribed g j"
  by (simp add: update_session_views) (simp add: subscribed_def)

lemma inv_idsD:
  assumes "inv_ids x"
  shows "gs_pc x i = Some p \<Longrightarrow> \<exists>S. subscribed (gs_gw x) i = Some S"
    "gs_pc x i = None \<longleftrightarrow> subscribed (gs_gw x) i = None"
    "gw_next (gs_gw x) \<le> i \<Longrightarrow> subscribed (gs_gw x) i = None"
  using assms unfolding inv_ids_def by (metis option.exhaust option.distinct(1))+

lemma inv_ids_step:
  assumes "inv_ids x" "gateway_step pfx x y"
  shows "inv_ids y"
  unfolding inv_ids_def using assms(2)
  by cases (auto simp: views inv_idsD(2,3) [OF assms(1)] simp del: update_session_views(10)
      dest: inv_idsD(1) [OF assms(1)] split: if_splits)

lemma inv_registry_step:
  assumes "inv_registry x" "inv_ids x" "gateway_step pfx x y"
  shows "inv_registry y"
  using assms(3,1)
proof cases
  case (connects c cid enc mode now)
  with assms(1) inv_idsD(3) [OF assms(2), of "gw_next (gs_gw x)"] show ?thesis
    by (auto simp: inv_registry_def views)
next
  case (subscribe_ends i sy flt k g fetched)
  with assms(1) inv_idsD(1) [OF assms(2), of i] show ?thesis
    by (auto simp: inv_registry_def views removal_pc_def split: if_splits)
next
  case (leaves i s sys c)
  from leaves have "subscribed (gs_gw x) i = Some (cs_subscriptions s)" by (simp add: subscribed_def)
  with leaves assms(1) show ?thesis
    by (auto simp: inv_registry_def views simp del: update_session_views(10))
qed (auto simp: inv_registry_def views removal_pc_def simp del: update_session_views(10) split: if_splits)

lemma dict_set_not_Nil [simp]: "dict_set k v d \<noteq> []"
  using dict_get_set_same [of k v d] by force

lemma dict_pop_NilI: "d = [] \<Longrightarrow> dict_pop k d = []"
  by (simp add: dict_pop_def)

lemma length_buffer_event:
  "length (in_events ini) \<le> INITIALIZATION_BUFFER_MAX_SIZE \<Longrightarrow>
   length (in_events (buffer_event e ini)) \<le> INITIALIZATION_BUFFER_MAX_SIZE"
  "in_id (buffer_event e ini) = in_id ini"
  by (simp_all add: buffer_event_def)

lemma init_ok_idle:
  "init_ok (Some Ready) sy d = (d = None)" "init_ok (Some (Ensuring sy' flt n)) sy d = (d = None)"
  "init_ok (Some (Removing sy')) sy d = (d = None)" "init_ok (Some (Leaving us)) sy d = (d = None)"
  "init_ok (Some Gone) sy d = (d = None)" "init_ok (Some (Crashed e)) sy d = (d = None)"
  "init_ok None sy d = (d = None)"
  by (simp_all add: init_ok_def)

lemma init_ok_fetching: "init_ok (Some (Fetching sy' flt k)) sy d =
     (if sy' = sy then \<exists>ini. d = Some ini \<and> in_id ini = k \<and>
         length (in_events ini) \<le> INITIALIZATION_BUFFER_MAX_SIZE else d = None)"
  by (simp add: init_ok_def)

lemma init_ok_buffer: "init_ok pc sy d \<Longrightarrow> init_ok pc sy (map_option (buffer_event e) d)"
  by (auto simp: init_ok_def length_buffer_event split: option.splits client_pc.splits if_splits)

lemma inv_initsD:
  assumes "inv_inits x"
  shows "init_ok (gs_pc x i) sy (dict_get (inits_of (gs_gw x) sy) i)"
    "gs_pc x i = p \<Longrightarrow> \<forall>sy. init_ok p sy (dict_get (inits_of (gs_gw x) sy) i)"
  using assms by (auto simp: inv_inits_def)

lemma inv_inits_step:
  assumes "inv_inits x" "inv_ids x" "gateway_step pfx x y"
  shows "inv_inits y"
proof -
  note D = inv_initsD [OF assms(1)]
  show ?thesis
    using assms(3)
  proof cases
    case (connects c cid enc mode now)
    have "gs_pc x (gw_next (gs_gw x)) = None"
      using inv_idsD(2,3) [OF assms(2)] by simp
    with connects show ?thesis
      by (auto simp: inv_inits_def views init_ok_idle intro: D(1) dest: D(2))
  next
    case (fan_event p e)
    then show ?thesis by (auto simp: inv_inits_def views dict_get_map_values intro: init_ok_buffer D(1))
  next
    case (subscribe_ends i sy flt k g fetched)
    then show ?thesis
      using D(2) [of i "Some (Fetching sy flt k)"]
      by (auto simp: inv_inits_def views removal_pc_def init_ok_idle init_ok_fetching dict_get_pop intro: D(1)
          split: if_splits)
  next
    case (ensure_confirms i sy flt n r accepts b)
    then show ?thesis
      using D(2) [of i "Some (Ensuring sy flt n)"]
      by (auto simp: inv_inits_def views init_ok_idle init_ok_fetching dict_get_set intro: D(1))
  next
    case (leaves i s sys c)
    then show ?thesis using D(2) [of i "Some Ready"]
      by (auto simp: inv_inits_def views init_ok_idle dict_get_pop intro: D(1))
  qed (auto simp: inv_inits_def views removal_pc_def init_ok_idle intro: D(1) dest: D(2))
qed

lemma in_useI: "dict_get (inits_of g sy) i = Some ini \<Longrightarrow> channel_in_use sy g"
  by (auto simp: channel_in_use_def)

lemma inv_wantedD:
  assumes "inv_wanted pfx x"
  shows "event_channel pfx sy \<in> gw_active (gs_gw x) \<Longrightarrow>
    channel_in_use sy (gs_gw x) \<or> (\<exists>i. pending (gs_pc x i) sy)"
    "ch \<in> gw_active (gs_gw x) \<Longrightarrow> \<exists>sy. ch = event_channel pfx sy"
  using assms by (auto simp: inv_wanted_def)

text \<open>Where the step moves one client and leaves channels and uses as they are, its own wishes decide.\<close>

lemma inv_wanted_moves:
  assumes "inv_wanted pfx x"
    "\<And>ch. ch \<in> gw_active (gs_gw y) \<Longrightarrow> ch \<in> gw_active (gs_gw x) \<or>
       (\<exists>sy. ch = event_channel pfx sy \<and> (channel_in_use sy (gs_gw y) \<or> pending (Some pc) sy))"
    "gs_pc y = (gs_pc x)(i \<mapsto> pc)"
    "\<And>sy. event_channel pfx sy \<in> gw_active (gs_gw y) \<Longrightarrow> channel_in_use sy (gs_gw x) \<Longrightarrow>
       channel_in_use sy (gs_gw y) \<or> pending (Some pc) sy"
    "\<And>sy. event_channel pfx sy \<in> gw_active (gs_gw y) \<Longrightarrow> pending (gs_pc x i) sy \<Longrightarrow>
       channel_in_use sy (gs_gw y) \<or> pending (Some pc) sy"
  shows "inv_wanted pfx y"
proof -
  have step: "channel_in_use sy (gs_gw y) \<or> (\<exists>j. pending (gs_pc y j) sy)"
    if a: "event_channel pfx sy \<in> gw_active (gs_gw y)" "channel_in_use sy (gs_gw x) \<or> (\<exists>j. pending (gs_pc x j) sy)"
    for sy
  proof -
    from a(2) consider "channel_in_use sy (gs_gw x)" | "pending (gs_pc x i) sy"
      | j where "j \<noteq> i" "pending (gs_pc x j) sy" by metis
    then show ?thesis
    proof cases
      case 1
      from assms(4) [OF a(1) this] show ?thesis using assms(3) by (metis fun_upd_same)
    next
      case 2
      from assms(5) [OF a(1) this] show ?thesis using assms(3) by (metis fun_upd_same)
    next
      case (3 j)
      then show ?thesis using assms(3) by (metis fun_upd_other)
    qed
  qed
  show ?thesis
    unfolding inv_wanted_def
  proof
    fix ch assume ch: "ch \<in> gw_active (gs_gw y)"
    from assms(2) [OF ch] show "\<exists>sy. ch = event_channel pfx sy \<and>
      (channel_in_use sy (gs_gw y) \<or> (\<exists>i. pending (gs_pc y i) sy))"
    proof
      assume "ch \<in> gw_active (gs_gw x)"
      with ch inv_wantedD [OF assms(1)] step show ?thesis by metis
    next
      assume "\<exists>sy. ch = event_channel pfx sy \<and> (channel_in_use sy (gs_gw y) \<or> pending (Some pc) sy)"
      then show ?thesis using assms(3) by (metis fun_upd_same)
    qed
  qed
qed

lemma inv_wanted_same:
  assumes "inv_wanted pfx x" "gw_active (gs_gw y) = gw_active (gs_gw x)" "gs_pc y = gs_pc x"
    "\<And>sy. channel_in_use sy (gs_gw y) = channel_in_use sy (gs_gw x)"
  shows "inv_wanted pfx y"
  using assms by (simp add: inv_wanted_def)

lemma inv_wanted_step:
  assumes "inv_wanted pfx x" "inv_inits x" "inv_ids x" "gateway_step pfx x y"
  shows "inv_wanted pfx y"
  using assms(4)
proof cases
  case (connects c cid enc mode now)
  have "gs_pc x (gw_next (gs_gw x)) = None" using inv_idsD(2,3) [OF assms(3)] by simp
  with connects show ?thesis
    by (intro inv_wanted_moves [OF assms(1), where i = "fst c" and pc = Ready])
      (auto simp: channel_in_use_def views)
next
  case (leaves i s sys c)
  have "dict_pop i (inits_of (gs_gw x) sy) = inits_of (gs_gw x) sy" for sy
    using inv_initsD(1) [OF assms(2), of i sy] leaves(2) by (simp add: init_ok_idle dict_pop_id)
  with leaves cleanup_registry_abandoned [of _ sys "update_session i end_aggregator (gs_gw x)" i]
  show ?thesis
    by (intro inv_wanted_moves [OF assms(1), where i = i and pc = "Leaving (fst c)"])
      (auto simp: channel_in_use_def views)
next
  case (ensure_confirms i sy flt n r accepts b)
  then show ?thesis
    by (intro inv_wanted_moves [OF assms(1), where i = i and pc = "Fetching sy flt (fst b)"])
      (auto simp: channel_in_use_def views)
next
  case (ensure_fails i sy flt n r accepts)
  then show ?thesis
    by (intro inv_wanted_moves [OF assms(1), where i = i and pc = "Ensuring sy flt (n + 1)"])
      (auto simp: channel_in_use_def views)
next
  case (ensure_gives_up i sy flt g)
  then show ?thesis
    by (intro inv_wanted_moves [OF assms(1), where i = i and pc = "removal_pc sy g"])
      (auto simp: channel_in_use_def views removal_pc_def)
next
  case (subscribe_ends i sy flt k g fetched)
  then show ?thesis
    by (intro inv_wanted_moves [OF assms(1), where i = i and pc = "removal_pc sy g"])
      (auto simp: channel_in_use_def views removal_pc_def split: if_splits)
next
  case (removes i sy)
  then show ?thesis
    by (intro inv_wanted_moves [OF assms(1), where i = i and pc = Ready])
      (auto simp: channel_in_use_def views)
next
  case (unsubscribes i d sy)
  then show ?thesis
    by (intro inv_wanted_moves [OF assms(1), where i = i and pc = "if fst d then Removing sy else Ready"])
      (auto simp: channel_in_use_def views split: if_splits)
next
  case (leaving i sy us)
  then show ?thesis
    by (intro inv_wanted_moves [OF assms(1), where i = i and pc = "Leaving us"])
      (auto simp: channel_in_use_def views)
next
  case (replies i t)
  then show ?thesis
    by (intro inv_wanted_moves [OF assms(1), where i = i and pc = Ready]) (auto simp: channel_in_use_def views)
next
  case (subscribe_asks i sy flt)
  then show ?thesis
    by (intro inv_wanted_moves [OF assms(1), where i = i and pc = "Ensuring sy flt 0"]) auto
next
  case (left i)
  then show ?thesis
    by (intro inv_wanted_moves [OF assms(1), where i = i and pc = Gone]) (auto simp: channel_in_use_def views)
next
  case (crashes i exc)
  then show ?thesis
    by (intro inv_wanted_moves [OF assms(1), where i = i and pc = "Crashed exc"]) auto
qed (auto intro!: inv_wanted_same [OF assms(1)] simp: channel_in_use_def views split: if_splits)

lemma tidy_step:
  assumes "tidy (gs_gw x)" "gateway_step pfx x y"
  shows "tidy (gs_gw y)"
proof -
  note pairs = surjective_pairing
  show ?thesis
    using assms(2)
  proof cases
    case (subscribe_ends i sy flt k g fetched)
    with tidy_finish [OF assms(1) pairs] show ?thesis by simp
  next
    case (leaves i s sys c)
    have "tidy (update_session i end_aggregator (gs_gw x))" using assms(1) by (simp add: tidy_def views)
    from tidy_cleanup_registry [OF this pairs] leaves show ?thesis by simp
  next
    case (ensure_confirms i sy flt n r accepts b)
    have "tidy (snd r)" using assms(1) ensure_confirms by (simp add: tidy_def views)
    from tidy_begin [OF this] ensure_confirms show ?thesis by simp
  next
    case (unsubscribes i d sy)
    have "tidy (snd d)" using assms(1) tidy_discard unsubscribes by simp
    with unsubscribes show ?thesis by (simp add: tidy_def views)
  qed (use assms(1) tidy_fanout in \<open>auto simp: tidy_def views\<close>)
qed

definition gateway_inv :: "string \<Rightarrow> gateway_sys \<Rightarrow> bool" where
  "gateway_inv pfx x \<longleftrightarrow> inv_channels x \<and> inv_ids x \<and> inv_registry x \<and> inv_inits x \<and>
     inv_wanted pfx x \<and> tidy (gs_gw x)"

lemma gateway_inv_start: "gateway_inv pfx start_sys"
  by (simp add: gateway_inv_def inv_channels_def chan_ok_def inv_ids_def inv_registry_def inv_inits_def
      init_ok_idle inv_wanted_def tidy_def start_sys_def new_gateway_def channel_in_use_def
      subs_of_def inits_of_def subscribed_def)

lemma gateway_inv_step: "gateway_inv pfx x \<Longrightarrow> gateway_step pfx x y \<Longrightarrow> gateway_inv pfx y"
  unfolding gateway_inv_def
  by (elim conjE, intro conjI)
    (erule inv_channels_step inv_ids_step inv_registry_step inv_inits_step inv_wanted_step
      tidy_step; assumption)+

interpretation gw: step_invariant "\<lambda>x. x = start_sys" "gateway_step pfx" "gateway_inv pfx" for pfx
  by unfold_locales (use gateway_inv_start gateway_inv_step in auto)

lemma coverage_step:
  assumes "inv_inits x" "gateway_step pfx x y" "channel_in_use sy (gs_gw y)"
    "event_channel pfx sy \<notin> gw_active (gs_gw y)"
    "channel_in_use sy (gs_gw x) \<longrightarrow> event_channel pfx sy \<in> gw_active (gs_gw x)"
  shows "\<exists>i us. gs_pc x i = Some (Removing sy) \<and> gs_pc y i = Some Ready \<or>
    gs_pc x i = Some (Leaving (sy # us)) \<and> gs_pc y i = Some (Leaving us)"
  using assms(2-5)
proof cases
  case (subscribe_ends i sy' flt k g fetched)
  have "channel_in_use sy' (gs_gw x)"
    using inv_initsD(1) [OF assms(1), of i sy'] subscribe_ends(2) by (auto simp: init_ok_fetching intro: in_useI)
  with subscribe_ends assms(3-5) show ?thesis
    by (auto simp: channel_in_use_def views dest: dict_pop_NilI split: if_splits)
qed (auto simp: channel_in_use_def views dict_pop_NilI split: if_splits)

text \<open>
  C2. In every reachable interleaving of clients and fanout: a confirmed channel is asked
  for, the demand flag is set exactly while some channel is asked for, nothing is confirmed
  while no Pub/Sub connection exists, and every channel asked for belongs to a symbol that
  is in use or that a client is about to use or release. The converse is not an invariant
  (see \<open>unsubscribe_strands_initializing_client\<close> in \<open>Gateway_Handler\<close>). But a step that ends
  with a symbol in use without its channel, when it was not so before, is the step with
  which a client that had found the symbol unused releases its channel.
\<close>

theorem channels_follow_demand:
  assumes "(gateway_step pfx)\<^sup>*\<^sup>* start_sys x"
  shows "gw_confirmed (gs_gw x) \<subseteq> gw_active (gs_gw x) \<and>
    (gw_demand (gs_gw x) \<longleftrightarrow> gw_active (gs_gw x) \<noteq> {}) \<and>
    (gw_pubsub (gs_gw x) = None \<longrightarrow> gw_confirmed (gs_gw x) = {}) \<and>
    (\<forall>ch \<in> gw_active (gs_gw x). \<exists>sy. ch = event_channel pfx sy \<and>
      (channel_in_use sy (gs_gw x) \<or> (\<exists>i. pending (gs_pc x i) sy))) \<and>
    (\<forall>y sy. gateway_step pfx x y \<longrightarrow> channel_in_use sy (gs_gw y) \<longrightarrow>
      event_channel pfx sy \<in> gw_active (gs_gw y) \<or>
      channel_in_use sy (gs_gw x) \<and> event_channel pfx sy \<notin> gw_active (gs_gw x) \<or>
      (\<exists>i us. gs_pc x i = Some (Removing sy) \<and> gs_pc y i = Some Ready \<or>
        gs_pc x i = Some (Leaving (sy # us)) \<and> gs_pc y i = Some (Leaving us)))"
proof -
  have inv: "gateway_inv pfx x" using gw.reachable_inv [OF refl assms] .
  then have i: "inv_inits x" "inv_channels x" "inv_wanted pfx x" by (simp_all add: gateway_inv_def)
  then have "gw_confirmed (gs_gw x) \<subseteq> gw_active (gs_gw x)" "gw_demand (gs_gw x) \<longleftrightarrow> gw_active (gs_gw x) \<noteq> {}"
    "gw_pubsub (gs_gw x) = None \<longrightarrow> gw_confirmed (gs_gw x) = {}"
    "\<forall>ch \<in> gw_active (gs_gw x). \<exists>sy. ch = event_channel pfx sy \<and>
      (channel_in_use sy (gs_gw x) \<or> (\<exists>i. pending (gs_pc x i) sy))"
    by (auto simp: inv_channels_def chan_ok_def inv_wanted_def)
  with coverage_step [OF i(1)] show ?thesis by blast
qed

text \<open>
  C9. In every reachable state a session stands in the set of a symbol exactly while it
  lists the symbol itself and has not begun to leave, an initialization is kept exactly
  while its client fetches the snapshot of that symbol, its buffer within the bound, and no
  symbol keeps an empty entry: a client that has left leaves nothing behind.
\<close>

theorem registry_consistent:
  assumes "(gateway_step pfx)\<^sup>*\<^sup>* start_sys x"
  shows "(i \<in> subs_of (gs_gw x) sy \<longleftrightarrow> registered (gs_pc x i) \<and>
      (\<exists>s. gw_heap (gs_gw x) i = Some s \<and> sy \<in> cs_subscriptions s)) \<and>
    (dict_get (inits_of (gs_gw x) sy) i \<noteq> None \<longleftrightarrow> (\<exists>flt k. gs_pc x i = Some (Fetching sy flt k))) \<and>
    (\<forall>ini. dict_get (inits_of (gs_gw x) sy) i = Some ini \<longrightarrow>
      length (in_events ini) \<le> INITIALIZATION_BUFFER_MAX_SIZE \<and>
      (\<exists>flt. gs_pc x i = Some (Fetching sy flt (in_id ini)))) \<and>
    dict_get (gw_subs (gs_gw x)) sy \<noteq> Some {} \<and> dict_get (gw_init (gs_gw x)) sy \<noteq> Some []"
proof -
  have "gateway_inv pfx x" using gw.reachable_inv [OF refl assms] .
  then have i: "inv_registry x" "inv_inits x" "tidy (gs_gw x)" by (simp_all add: gateway_inv_def)
  have "i \<in> subs_of (gs_gw x) sy \<longleftrightarrow> registered (gs_pc x i) \<and>
      (\<exists>s. gw_heap (gs_gw x) i = Some s \<and> sy \<in> cs_subscriptions s)"
    using i(1) by (auto simp: inv_registry_def subscribed_def)
  moreover note inv_initsD(1) [OF i(2), of i sy]
  then have "(dict_get (inits_of (gs_gw x) sy) i \<noteq> None \<longleftrightarrow> (\<exists>flt k. gs_pc x i = Some (Fetching sy flt k))) \<and>
    (\<forall>ini. dict_get (inits_of (gs_gw x) sy) i = Some ini \<longrightarrow>
      length (in_events ini) \<le> INITIALIZATION_BUFFER_MAX_SIZE \<and>
      (\<exists>flt. gs_pc x i = Some (Fetching sy flt (in_id ini))))"
    by (auto simp: init_ok_def split: option.splits client_pc.splits if_splits)
  ultimately show ?thesis using i(3) by (simp add: tidy_def)
qed

section \<open>A client that waits for its snapshot beside a subscriber\<close>

lemma finish_without_snapshot:
  assumes "subscribed g i \<noteq> None" "dict_get (inits_of g sy) i = Some ini" "in_id ini = k" "\<not> in_overflowed ini"
  shows "fst (finish_subscription i sy k flt (Inr None) g)"
  using assms by (auto simp: finish_subscription_def complete_subscription_def subscribed_def)

text \<open>With a confirmed channel a client comes to wait for the snapshot.\<close>

lemma reaches_fetching:
  assumes "gs_pc x i = Some Ready" "event_channel pfx sy \<in> gw_confirmed (gs_gw x)"
    "gw_confirmed (gs_gw x) \<subseteq> gw_active (gs_gw x)"
  shows "\<exists>y k. (gateway_step pfx)\<^sup>*\<^sup>* x y \<and> gs_pc y = (gs_pc x)(i \<mapsto> Fetching sy None k) \<and>
    subs_of (gs_gw y) sy = subs_of (gs_gw x) sy \<and> gw_active (gs_gw y) = gw_active (gs_gw x) \<and>
    gw_confirmed (gs_gw y) = gw_confirmed (gs_gw x) \<and> subscribed (gs_gw y) = subscribed (gs_gw x) \<and>
    inits_of (gs_gw y) sy =
      dict_set i \<lparr>in_id = k, in_events = [], in_overflowed = False\<rparr> (inits_of (gs_gw x) sy)"
proof -
  let ?x1 = "goto i (Ensuring sy None 0) (gs_gw x) x"
  have s1: "gateway_step pfx x ?x1" by (rule gateway_step.subscribe_asks [OF assms(1)])
  let ?r = "subscribe_pubsub_symbol True (event_channel pfx sy) (gs_gw ?x1)"
  let ?b = "begin_initialization i sy (snd ?r)"
  let ?x2 = "goto i (Fetching sy None (fst ?b)) (snd ?b) ?x1"
  have ok: "fst ?r" using assms(2) by (simp add: subscribe_pubsub_symbol_def Let_def)
  have s2: "gateway_step pfx ?x1 ?x2"
    by (rule gateway_step.ensure_confirms [OF _ _ refl ok refl], simp, simp)
  from s1 s2 have "(gateway_step pfx)\<^sup>*\<^sup>* x ?x2"
    by (meson converse_rtranclp_into_rtranclp rtranclp.rtrancl_refl)
  with ok assms show ?thesis
    by (intro exI [of _ ?x2] exI [of _ "fst ?b"]) (auto simp: views)
qed

lemma fetching_beside_subscriber:
  "\<exists>x flt k ini. (gateway_step pfx)\<^sup>*\<^sup>* start_sys x \<and> gs_pc x = [0 \<mapsto> Ready, 1 \<mapsto> Fetching sy flt k] \<and>
     subs_of (gs_gw x) sy = {0} \<and> gw_active (gs_gw x) = {event_channel pfx sy} \<and>
     subscribed (gs_gw x) 1 \<noteq> None \<and> dict_get (inits_of (gs_gw x) sy) 1 = Some ini \<and> in_id ini = k \<and>
     \<not> in_overflowed ini"
proof -
  let ?ch = "event_channel pfx sy"
  let ?c0 = "connect_session ''a'' JSON RAW (Fin 0) (gs_gw start_sys)"
  let ?x1 = "(goto (fst ?c0) Ready (snd ?c0) start_sys)\<lparr>gs_phase := (gs_phase start_sys)(fst ?c0 := DispatchRuns)\<rparr>"
  have s1: "gateway_step pfx start_sys ?x1" by (rule gateway_step.connects [OF refl])
  have n0: "fst ?c0 = 0" by (simp add: views start_sys_def new_gateway_def)
  let ?c1 = "connect_session ''b'' JSON RAW (Fin 0) (gs_gw ?x1)"
  let ?x2 = "(goto (fst ?c1) Ready (snd ?c1) ?x1)\<lparr>gs_phase := (gs_phase ?x1)(fst ?c1 := DispatchRuns)\<rparr>"
  have s2: "gateway_step pfx ?x1 ?x2" by (rule gateway_step.connects [OF refl])
  have n1: "fst ?c1 = 1" by (simp add: views start_sys_def new_gateway_def)
  have v2: "gs_pc ?x2 = [0 \<mapsto> Ready, 1 \<mapsto> Ready]" "subs_of (gs_gw ?x2) t = {}" "inits_of (gs_gw ?x2) t = []"
    "gw_active (gs_gw ?x2) = {}" "gw_confirmed (gs_gw ?x2) = {}" "gw_pubsub (gs_gw ?x2) = None"
    "gs_fan ?x2 = FanWaiting" "subscribed (gs_gw ?x2) 0 = Some {}" "subscribed (gs_gw ?x2) 1 = Some {}"
    "gw_next (gs_gw ?x2) = 2" for t
    using n0 n1 by (auto simp: views start_sys_def new_gateway_def subs_of_def inits_of_def)
  have r2: "(gateway_step pfx)\<^sup>*\<^sup>* start_sys ?x2"
    using s1 s2 by (meson converse_rtranclp_into_rtranclp rtranclp.rtrancl_refl)
  obtain x2 where r2: "(gateway_step pfx)\<^sup>*\<^sup>* start_sys x2" and v2:
    "gs_pc x2 = [0 \<mapsto> Ready, 1 \<mapsto> Ready]" "\<And>t. subs_of (gs_gw x2) t = {}" "\<And>t. inits_of (gs_gw x2) t = []"
    "gw_active (gs_gw x2) = {}" "gw_confirmed (gs_gw x2) = {}" "gw_pubsub (gs_gw x2) = None"
    "gs_fan x2 = FanWaiting" "subscribed (gs_gw x2) 0 = Some {}" "subscribed (gs_gw x2) 1 = Some {}"
    "gw_next (gs_gw x2) = 2"
    using r2 v2 by blast
  have pc2: "gs_pc x2 0 = Some Ready" by (simp add: v2)
  let ?x3 = "goto 0 (Ensuring sy None 0) (gs_gw x2) x2"
  have s3: "gateway_step pfx x2 ?x3" by (rule gateway_step.subscribe_asks [OF pc2])
  let ?r = "subscribe_pubsub_symbol True ?ch (gs_gw ?x3)"
  have no: "\<not> fst ?r" by (simp add: subscribe_pubsub_symbol_def Let_def v2)
  let ?x4 = "goto 0 (Ensuring sy None (0 + 1)) (snd ?r) ?x3"
  have s4: "gateway_step pfx ?x3 ?x4" by (rule gateway_step.ensure_fails [OF _ _ refl no], simp, simp)
  let ?w4 = "?x4\<lparr>gs_fan := FanWoken\<rparr>"
  have w4: "gateway_step pfx ?x4 ?w4" by (rule gateway_step.fan_wakes) (simp_all add: views v2)
  let ?o = "open_pubsub True (gs_gw ?w4)"
  let ?x5 = "?w4\<lparr>gs_gw := snd ?o, gs_fan := (if fst ?o then FanListening 2 else FanSleeping 2)\<rparr>"
  have s5: "gateway_step pfx ?w4 ?x5"
    by (rule gateway_step.fan_opens [OF _ refl]) (simp_all add: views v2)
  have conf: "fst ?o" by (simp add: open_pubsub_def subscribe_desired_channels_def)
  let ?r5 = "subscribe_pubsub_symbol True ?ch (gs_gw ?x5)"
  let ?b = "begin_initialization 0 sy (snd ?r5)"
  let ?x6 = "goto 0 (Fetching sy None (fst ?b)) (snd ?b) ?x5"
  have ok5: "fst ?r5" using conf by (simp add: subscribe_pubsub_symbol_def Let_def views)
  have s6: "gateway_step pfx ?x5 ?x6"
    by (rule gateway_step.ensure_confirms [OF _ _ refl ok5 refl], simp, simp)
  let ?g = "snd (finish_subscription 0 sy (fst ?b) None (Inr None) (gs_gw ?x6))"
  let ?x7 = "goto 0 (removal_pc sy ?g) ?g ?x6"
  have s7: "gateway_step pfx ?x6 ?x7" by (rule gateway_step.subscribe_ends [OF _ refl]) simp
  have ok7: "fst (finish_subscription 0 sy (fst ?b) None (Inr None) (gs_gw ?x6))"
    by (rule finish_without_snapshot [where ini = "\<lparr>in_id = 3, in_events = [], in_overflowed = False\<rparr>"])
      (simp_all add: views v2)
  have pc7: "gs_pc ?x7 = [0 \<mapsto> Ready, 1 \<mapsto> Ready]"
    using ok7 by (auto simp: removal_pc_def channel_in_use_def views v2)
  have v7: "subs_of (gs_gw ?x7) sy = {0}" "gw_active (gs_gw ?x7) = {?ch}" "gw_confirmed (gs_gw ?x7) = {?ch}"
    "subscribed (gs_gw ?x7) 1 \<noteq> None"
    using ok7 ok5 conf by (simp_all add: views v2 v2(9) [unfolded One_nat_def])
  have r7: "(gateway_step pfx)\<^sup>*\<^sup>* start_sys ?x7"
    using r2 s3 s4 w4 s5 s6 s7 by (meson rtranclp.rtrancl_into_rtrancl)
  have pc7': "gs_pc ?x7 1 = Some Ready" using pc7 by simp
  obtain y k where y: "(gateway_step pfx)\<^sup>*\<^sup>* ?x7 y" "gs_pc y = (gs_pc ?x7)(1 \<mapsto> Fetching sy None k)"
    "subs_of (gs_gw y) sy = subs_of (gs_gw ?x7) sy" "gw_active (gs_gw y) = gw_active (gs_gw ?x7)"
    "subscribed (gs_gw y) = subscribed (gs_gw ?x7)"
    "inits_of (gs_gw y) sy =
      dict_set 1 \<lparr>in_id = k, in_events = [], in_overflowed = False\<rparr> (inits_of (gs_gw ?x7) sy)"
    using reaches_fetching [OF pc7', of pfx sy] v7 by (metis insertI1 order_refl)
  from r7 y(1) have "(gateway_step pfx)\<^sup>*\<^sup>* start_sys y" by (rule rtranclp_trans)
  with y(2-) v7 pc7 show ?thesis
    by (intro exI [of _ y] exI [of _ None] exI [of _ k]
        exI [of _ "\<lparr>in_id = k, in_events = [], in_overflowed = False\<rparr>"]) simp
qed

section \<open>From the snapshot to the stream\<close>

lemma fold_buffer_event:
  "fold buffer_event es \<lparr>in_id = k, in_events = take 500 fs, in_overflowed = 500 < length fs\<rparr> =
     \<lparr>in_id = k, in_events = take 500 (fs @ es), in_overflowed = 500 < length (fs @ es)\<rparr>"
proof (induction es arbitrary: fs)
  case (Cons e es)
  have "buffer_event e \<lparr>in_id = k, in_events = take 500 fs, in_overflowed = 500 < length fs\<rparr> =
    \<lparr>in_id = k, in_events = take 500 (fs @ [e]), in_overflowed = 500 < length (fs @ [e])\<rparr>"
    by (auto simp: buffer_event_def INITIALIZATION_BUFFER_MAX_SIZE_def)
  with Cons.IH [of "fs @ [e]"] show ?case by simp
qed simp

lemma fold_fanout_views:
  "subs_of (fold fanout_event es g) sy = subs_of g sy"
  "dict_get (inits_of (fold fanout_event es g) sy) i =
     map_option (fold buffer_event (filter (\<lambda>e. ev_symbol e = sy) es)) (dict_get (inits_of g sy) i)"
  by (induction es arbitrary: g)
    (auto simp: views dict_get_map_values option.map_comp comp_def option.map_ident option.map_id)

lemma fold_fanout_heap:
  "\<forall>e \<in> set es. i \<notin> subs_of g (ev_symbol e) \<Longrightarrow> gw_heap (fold fanout_event es g) i = gw_heap g i"
proof (induction es arbitrary: g)
  case (Cons e es)
  have "gw_heap (fanout_event e g) i = gw_heap g i" using Cons.prems by (simp add: fanout_event_def Let_def)
  with Cons show ?case by (simp add: views)
qed simp

definition handed_over ::
  "string \<Rightarrow> subscription_filter option \<Rightarrow> snapshot_data \<Rightarrow> market_event list \<Rightarrow> client_session \<Rightarrow> client_session" where
  \<comment> \<open>a session that has queued the snapshot, at the end of its subscription\<close>
  "handed_over sy flt sn fs s =
     (let s1 = set_filter sy flt (replay_events (Some sn) fs (set_last_price sy (sn_bid sn) (set_last_seq sy (sn_seq sn) s)))
      in s1\<lparr>cs_subscriptions := insert sy (cs_subscriptions s1)\<rparr>)"

lemma fold_push_event_frame:
  "fold push_event es s = s\<lparr>cs_aggregator := map_option (fold push es) (cs_aggregator s)\<rparr>"
  by (induction es arbitrary: s)
    (simp_all add: push_event_def option.map_comp comp_def option.map_ident option.map_id)

lemma handed_over_simps [simp]:
  "cs_subscriptions (handed_over sy flt sn fs s) = insert sy (cs_subscriptions s)"
  "cs_queue (handed_over sy flt sn fs s) = cs_queue s"
  "cs_last_seq (handed_over sy flt sn fs s) = (cs_last_seq s)(sy \<mapsto> sn_seq sn)"
  "cs_filters (handed_over sy flt sn fs s) = (cs_filters s)(sy := flt)"
  "cs_disconnected (handed_over sy flt sn fs s) = cs_disconnected s"
  "cs_aggregator (handed_over sy flt sn fs s) = map_option
     (fold push (filter (\<lambda>e. sn_seq sn < ev_seq e) (sort_key ev_seq fs))) (cs_aggregator s)"
  by (simp_all add: handed_over_def replay_events_def fold_push_event_frame set_filter_def set_last_price_def
      set_last_seq_def Let_def)

lemma hand_over:
  assumes "begin_initialization i sy g = (k, g1)" "gw_heap g i = Some s"
    "\<forall>e \<in> set es. i \<notin> subs_of g (ev_symbol e)"
    "finish_subscription i sy k flt (Inr (Some sn)) (fold fanout_event es g1) = (ok, g2)"
    "fs = filter (\<lambda>e. ev_symbol e = sy) es"
  shows "(ok \<longleftrightarrow> length fs \<le> 500 \<and> fst (enqueue (snapshot_message sn) s)) \<and>
    (ok \<longrightarrow> gw_heap g2 i = Some (handed_over sy flt sn fs (snd (enqueue (snapshot_message sn) s))) \<and>
       (\<forall>t. i \<in> subs_of g2 t \<longleftrightarrow> t = sy \<or> i \<in> subs_of g t))"
proof -
  let ?g = "fold fanout_event es g1"
  note b = begin_initialization_views [of i sy g, unfolded assms(1), simplified]
  have heap: "gw_heap ?g i = Some s"
    using assms(1-3) fold_fanout_heap [of es i g1] b(2)
    by (auto simp: begin_initialization_def Let_def)
  have "dict_get (inits_of g1 sy) i = Some \<lparr>in_id = k, in_events = [], in_overflowed = False\<rparr>"
    using b(1,3) by (simp add: b)
  with fold_buffer_event [of fs k "[]"] assms(5)
  have ini: "dict_get (inits_of ?g sy) i =
      Some \<lparr>in_id = k, in_events = take 500 fs, in_overflowed = 500 < length fs\<rparr>"
    by (simp add: fold_fanout_views)
  obtain q s1 where e: "enqueue (snapshot_message sn) s = (q, s1)" by (cases "enqueue (snapshot_message sn) s")
  have agg: "cs_aggregator s1 = cs_aggregator s" using enqueue_frame [of "snapshot_message sn" s] e by simp
  show ?thesis
  proof (cases "length fs \<le> 500 \<and> q")
    case True
    let ?s2 = "set_last_price sy (sn_bid sn) (set_last_seq sy (sn_seq sn) s1)"
    have "complete_subscription i sy k flt (Some sn) ?g = (True, register_with i sy flt (Some sn) fs ?s2 ?g)"
      using True heap ini e by (simp add: complete_subscription_def)
    then have g2: "g2 = drop_initialization i sy (register_with i sy flt (Some sn) fs ?s2 ?g)" "ok"
      using assms(4) by (auto simp: finish_subscription_def)
    have "gw_heap g2 i = Some (handed_over sy flt sn fs s1)"
      using g2 by (simp add: views register_with_def register_session_def update_session_def handed_over_def Let_def)
    moreover have "i \<in> subs_of g2 t \<longleftrightarrow> t = sy \<or> i \<in> subs_of g t" for t
      using g2 by (simp add: views register_with_views fold_fanout_views b)
    ultimately show ?thesis using True g2(2) e by simp
  next
    case False
    then have "\<exists>g'. complete_subscription i sy k flt (Some sn) ?g = (False, g')"
      using heap ini e by (auto simp: complete_subscription_def)
    then have "\<not> ok" using assms(4) by (auto simp: finish_subscription_def)
    with False e show ?thesis by auto
  qed
qed

text \<open>
  C8. A subscription misses nothing between its snapshot and its stream. Take the events
  fanned out while the client waits for the snapshot, of which those for its symbol are
  \<open>fs\<close>. The subscription succeeds exactly where they fit the initialization buffer and
  the queue takes the snapshot; then the snapshot is the queue's last message, its number
  the client's boundary, every later event of \<open>fs\<close> stands in the client's aggregator, in
  the order of the sequence numbers, and the client is registered for what follows.
\<close>

theorem subscription_hands_over_without_gap:
  assumes "begin_initialization i sy g = (k, g1)" "gw_heap g i = Some s"
    "\<forall>e \<in> set es. i \<notin> subs_of g (ev_symbol e)"
    "finish_subscription i sy k flt (Inr (Some sn)) (fold fanout_event es g1) = (ok, g2)"
    "fs = filter (\<lambda>e. ev_symbol e = sy) es"
  shows "(ok \<longleftrightarrow> length fs \<le> 500 \<and> fst (enqueue (snapshot_message sn) s)) \<and>
    (ok \<longrightarrow> (\<exists>s'. gw_heap g2 i = Some s' \<and> i \<in> subs_of g2 sy \<and> sy \<in> cs_subscriptions s' \<and>
       cs_queue s' = cs_queue (snd (enqueue (snapshot_message sn) s)) \<and>
       cs_last_seq s' sy = Some (sn_seq sn) \<and>
       cs_aggregator s' = map_option
         (fold push (filter (\<lambda>e. sn_seq sn < ev_seq e) (sort_key ev_seq fs))) (cs_aggregator s)))"
  using hand_over [OF assms] enqueue_frame [of "snapshot_message sn" s] by auto

theorem channels_follow_demand_witness:
  "\<exists>x. (gateway_step [])\<^sup>*\<^sup>* start_sys x \<and> gw_active (gs_gw x) = {event_channel [] ''A''} \<and>
     gw_demand (gs_gw x)"
proof -
  obtain x where x: "(gateway_step [])\<^sup>*\<^sup>* start_sys x" "gw_active (gs_gw x) = {event_channel [] ''A''}"
    using fetching_beside_subscriber [of "[]" "''A''"] by blast
  with channels_follow_demand [OF x(1)] show ?thesis by auto
qed

theorem registry_consistent_witness:
  "\<exists>x s. (gateway_step [])\<^sup>*\<^sup>* start_sys x \<and> 0 \<in> subs_of (gs_gw x) ''A'' \<and>
     gw_heap (gs_gw x) 0 = Some s \<and> ''A'' \<in> cs_subscriptions s"
proof -
  obtain x where x: "(gateway_step [])\<^sup>*\<^sup>* start_sys x" "subs_of (gs_gw x) ''A'' = {0}"
    using fetching_beside_subscriber [of "[]" "''A''"] by blast
  with registry_consistent [OF x(1), of 0 "''A''"] show ?thesis by auto
qed

theorem subscription_hands_over_without_gap_witness:
  "\<exists>ok g2 s'. finish_subscription 0 ''A'' 1 None (Inr (Some (sample_snapshot 5)))
       (fold fanout_event [sample_event ''A'' 7, sample_event ''A'' 5, sample_event ''A'' 6]
         (snd (begin_initialization 0 ''A'' (snd (connect_session ''c'' JSON RAW (Fin 0) new_gateway))))) = (ok, g2) \<and>
     ok \<and> gw_heap g2 0 = Some s' \<and> cs_last_seq s' ''A'' = Some 5 \<and>
     map_option (\<lambda>ag. q_items (ag_output ag)) (cs_aggregator s') =
       Some [sample_event ''A'' 6, sample_event ''A'' 7]"
proof -
  let ?g = "snd (connect_session ''c'' JSON RAW (Fin 0) new_gateway)"
  let ?es = "[sample_event ''A'' 7, sample_event ''A'' 5, sample_event ''A'' 6]"
  let ?s = "start_writer ((new_session ''c'' DROP_OLDEST JSON (Fin 0))
      \<lparr>cs_aggregator := Some (start_aggregator (new_aggregation_buffer RAW 100))\<rparr>)"
  obtain g1 where b: "begin_initialization 0 ''A'' ?g = (1, g1)"
    by (simp add: begin_initialization_def connect_session_def new_gateway_def Let_def)
  obtain ok g2 where f: "finish_subscription 0 ''A'' 1 None (Inr (Some (sample_snapshot 5)))
      (fold fanout_event ?es g1) = (ok, g2)"
    by (metis surj_pair)
  have heap: "gw_heap ?g 0 = Some ?s" by (simp add: connect_session_def new_gateway_def Let_def)
  have none: "\<forall>e \<in> set ?es. 0 \<notin> subs_of ?g (ev_symbol e)"
    by (simp add: views) (simp add: subs_of_def new_gateway_def)
  have enq: "fst (enqueue (snapshot_message (sample_snapshot 5)) ?s)"
    by (simp add: enqueue_def new_session_def start_writer_def put_nowait_def queue_full_def new_queue_def
        QUEUE_MAX_SIZE_def)
  have agg: "map_option (\<lambda>ag. q_items (ag_output ag)) (map_option
      (fold push [sample_event ''A'' 6, sample_event ''A'' 7]) (cs_aggregator ?s)) =
      Some [sample_event ''A'' 6, sample_event ''A'' 7]"
    by (simp add: start_writer_def new_session_def start_aggregator_def new_aggregation_buffer_def push_def
        put_latest_def put_nowait_def queue_full_def new_queue_def OUTPUT_MAX_SIZE_def)
  have fs: "filter (\<lambda>e. sn_seq (sample_snapshot 5) < ev_seq e)
      (sort_key ev_seq (filter (\<lambda>e. ev_symbol e = ''A'') ?es)) = [sample_event ''A'' 6, sample_event ''A'' 7]"
    by (simp add: sort_key_def)
  note h = subscription_hands_over_without_gap [OF b heap none f refl, unfolded fs]
  have "ok" using h enq by simp
  with h obtain s' where "gw_heap g2 0 = Some s'" "cs_last_seq s' ''A'' = Some 5"
    "cs_aggregator s' = map_option (fold push [sample_event ''A'' 6, sample_event ''A'' 7]) (cs_aggregator ?s)"
    by auto
  with f b agg \<open>ok\<close> show ?thesis by (intro exI [of _ ok] exI [of _ g2] exI [of _ s']) (simp only: snd_conv simp_thms)
qed

section \<open>The registry as a table\<close>

text \<open>
  What the registry promises, with one table from connected clients to the symbols they
  are subscribed to: clients join with no subscription, add and drop single symbols, and
  leave with everything they have. The code keeps it twice, by symbol in \<open>subscriptions\<close>
  and by client in the sessions.
\<close>

inductive table_step :: "(nat \<rightharpoonup> string set) \<Rightarrow> (nat \<rightharpoonup> string set) \<Rightarrow> bool" where
  silent: "table_step T T"
| joins: "T i = None \<Longrightarrow> table_step T (T(i \<mapsto> {}))"
| adds: "T i = Some S \<Longrightarrow> table_step T (T(i \<mapsto> insert sy S))"
| drops: "T i = Some S \<Longrightarrow> table_step T (T(i \<mapsto> S - {sy}))"
| departs: "T i = Some S \<Longrightarrow> table_step T (T(i := None))"

definition table_of :: "gateway_sys \<Rightarrow> nat \<rightharpoonup> string set" where
  "table_of x i = (if registered (gs_pc x i) then subscribed (gs_gw x) i else None)"

lemma table_silent: "(\<And>j. table_of y j = table_of x j) \<Longrightarrow> table_step (table_of x) (table_of y)"
proof -
  assume "\<And>j. table_of y j = table_of x j"
  then have "table_of y = table_of x" by (simp add: fun_eq_iff)
  then show ?thesis by (simp add: table_step.silent)
qed

lemma table_step_eq: "table_step T U \<Longrightarrow> V = U \<Longrightarrow> table_step T V"
  by simp

lemma table_simulation:
  assumes "inv_ids x" "gateway_step pfx x y"
  shows "table_step (table_of x) (table_of y)"
  using assms(2)
proof cases
  case (connects c cid enc mode now)
  have new: "table_of x (gw_next (gs_gw x)) = None"
    using inv_idsD(3) [OF assms(1), of "gw_next (gs_gw x)"] by (simp add: table_of_def)
  show ?thesis
    by (rule table_step_eq [OF table_step.joins [where T = "table_of x" and i = "gw_next (gs_gw x)", OF new]])
      (auto simp: connects table_of_def fun_eq_iff views)
next
  case (subscribe_ends i sy flt k g fetched)
  obtain S where S: "subscribed (gs_gw x) i = Some S" using inv_idsD(1) [OF assms(1) subscribe_ends(2)] by blast
  then have t: "table_of x i = Some S" using subscribe_ends(2) by (simp add: table_of_def)
  show ?thesis
  proof (cases "fst (finish_subscription i sy k flt fetched (gs_gw x))")
    case True
    with S show ?thesis
      by (intro table_step_eq [OF table_step.adds [where T = "table_of x" and i = i and S = S and sy = sy, OF t]])
        (auto simp: subscribe_ends table_of_def fun_eq_iff views removal_pc_def)
  next
    case False
    with S subscribe_ends show ?thesis
      by (intro table_silent) (auto simp: table_of_def views removal_pc_def)
  qed
next
  case (unsubscribes i d sy)
  obtain S where S: "subscribed (gs_gw x) i = Some S" using inv_idsD(1) [OF assms(1) unsubscribes(2)] by blast
  then have "table_of x i = Some S" using unsubscribes(2) by (simp add: table_of_def)
  from table_step.drops [where T = "table_of x" and i = i and S = S and sy = sy, OF this] S show ?thesis
    by (rule_tac table_step_eq)
      (auto simp: unsubscribes table_of_def fun_eq_iff views simp del: update_session_views(10))
next
  case (leaves i s sys c)
  obtain S where S: "subscribed (gs_gw x) i = Some S" using inv_idsD(1) [OF assms(1) leaves(2)] by blast
  then have "table_of x i = Some S" using leaves(2) by (simp add: table_of_def)
  from table_step.departs [where T = "table_of x" and i = i and S = S, OF this] S show ?thesis
    by (rule_tac table_step_eq)
      (auto simp: leaves table_of_def fun_eq_iff views simp del: update_session_views(10))
qed (auto intro!: table_silent simp: table_of_def views removal_pc_def simp del: update_session_views(10)
     split: if_splits)

text \<open>
  C11. The gateway implements a subscription table. In every reachable state the sets kept by
  symbol are the table read the other way round, and every step of any task changes the
  table by at most one of its operations: a client joins, adds or drops one symbol, or
  leaves with all of them at once.
\<close>

theorem gateway_refines_table:
  assumes "(gateway_step pfx)\<^sup>*\<^sup>* start_sys x" "gateway_step pfx x y"
  shows "table_step (table_of x) (table_of y) \<and>
    (\<forall>sy. subs_of (gs_gw y) sy = {i. \<exists>S. table_of y i = Some S \<and> sy \<in> S})"
proof -
  have "gateway_inv pfx x" "gateway_inv pfx y"
    using gw.reachable_inv [OF refl assms(1)] gw.step_inv assms(2) by auto
  then have "inv_ids x" "inv_registry y" by (simp_all add: gateway_inv_def)
  from table_simulation [OF this(1) assms(2)] this(2) show ?thesis
    by (auto simp: inv_registry_def table_of_def split: if_splits)
qed

theorem gateway_refines_table_witness:
  "\<exists>x y. (gateway_step [])\<^sup>*\<^sup>* start_sys x \<and> gateway_step [] x y \<and> table_of x 0 = None \<and>
     table_step (table_of x) (table_of y) \<and> table_of y 0 = Some {}"
proof -
  let ?c = "connect_session ''a'' JSON RAW (Fin 0) (gs_gw start_sys)"
  let ?y = "(goto (fst ?c) Ready (snd ?c) start_sys)\<lparr>gs_phase := (gs_phase start_sys)(fst ?c := DispatchRuns)\<rparr>"
  have s: "gateway_step [] start_sys ?y" by (rule gateway_step.connects [OF refl])
  have n: "fst ?c = 0" by (simp add: views start_sys_def new_gateway_def)
  have "table_of ?y 0 = Some {}" using n by (simp add: table_of_def views start_sys_def new_gateway_def)
  moreover have "table_of start_sys 0 = None" by (simp add: table_of_def start_sys_def)
  moreover have "(gateway_step [])\<^sup>*\<^sup>* start_sys start_sys" by simp
  ultimately show ?thesis using s gateway_refines_table [OF _ s] by blast
qed

end
