(* ===== verification/Gateway_Handler.thy ===== *)
theory Gateway_Handler
  imports Gateway
begin

text \<open>
  The connection handler of \<open>src/gateway/gateway.py\<close> from a client's text message to the
  state it leaves: \<open>websocket_stream\<close> and the head of \<open>_subscribe\<close>, as the choice among the
  steps of \<open>Gateway\<close> that the message makes, and as an executable schedule. The last sections
  show what becomes of a client whose dispatch task has died, a run in which a client ends
  up subscribed without a channel, and which messages end the connection.
\<close>

section \<open>Text messages\<close>

definition subscribe_request ::
  "(py_exn \<Rightarrow> string) \<Rightarrow> nat \<Rightarrow> string \<Rightarrow> json option \<Rightarrow> gateway_sys \<Rightarrow> gateway_sys result" where
  \<comment> \<open>\<open>_subscribe\<close> up to its first \<open>await\<close>; the first argument is \<open>str(exc)\<close>\<close>
  "subscribe_request text_of i sy payload x =
     (case parse_subscription_filter payload of
        Inl exc \<Rightarrow>
          if exc = ValueError then Inr (goto i Ready (send_error i (text_of exc) (gs_gw x)) x) else Inl exc
      | Inr flt \<Rightarrow> Inr (goto i (Ensuring sy flt 0) (gs_gw x) x))"

definition unsubscribe_request :: "nat \<Rightarrow> string \<Rightarrow> gateway_sys \<Rightarrow> gateway_sys" where
  "unsubscribe_request i sy x =
     (let d = discard_session i sy (gs_gw x)
      in goto i (if fst d then Removing sy else Ready) (update_session i (forget_symbol sy) (snd d)) x)"

definition on_text ::
  "(json \<Rightarrow> string) \<Rightarrow> (py_exn \<Rightarrow> string) \<Rightarrow> nat \<Rightarrow> json result \<Rightarrow> gateway_sys \<Rightarrow> gateway_sys result" where
  \<comment> \<open>one message of the receive loop; an exception leaves the loop for its \<open>finally\<close>\<close>
  "on_text shown text_of i loaded x =
     (case client_message shown loaded of
        Replies t \<Rightarrow> Inr (goto i Ready (send_error i t (gs_gw x)) x)
      | Subscribes sy payload \<Rightarrow> subscribe_request text_of i sy payload x
      | Unsubscribes sy \<Rightarrow> Inr (unsubscribe_request i sy x)
      | Closes exc \<Rightarrow> Inl exc)"

definition handler_finally :: "nat \<Rightarrow> string list \<Rightarrow> gateway_sys \<Rightarrow> gateway_sys" where
  \<comment> \<open>the \<open>finally\<close> of \<open>websocket_stream\<close> up to the first channel of \<open>_cleanup\<close>: awaiting a
    dead dispatch task raises its exception again; \<open>sys\<close> lists \<open>session.subscriptions\<close>\<close>
  "handler_finally i sys x =
     (case gs_phase x i of
        DispatchDead exc \<Rightarrow> goto i (Crashed exc) (gs_gw x) x
      | _ \<Rightarrow>
          (let c = cleanup_registry i sys (update_session i end_aggregator (gs_gw x))
           in (goto i (Leaving (fst c)) (snd c) x)\<lparr>gs_phase := (gs_phase x)(i := DispatchDead CancelledError)\<rparr>))"

lemma unsubscribe_request_step:
  "gs_pc x i = Some Ready \<Longrightarrow> gateway_step pfx x (unsubscribe_request i sy x)"
  unfolding unsubscribe_request_def Let_def by (rule gateway_step.unsubscribes [OF _ refl])

text \<open>
  The two steps of \<open>_unsubscribe\<close>, with nothing in between, are the operation
  \<^const>\<open>unsubscribe\<close> of \<open>Gateway_State\<close>.
\<close>

lemma unsubscribe_steps:
  assumes "gs_pc x i = Some Ready"
  shows "(gateway_step pfx)\<^sup>*\<^sup>* x (goto i Ready (unsubscribe (event_channel pfx sy) i sy (gs_gw x)) x)"
proof (cases "fst (discard_session i sy (gs_gw x))")
  case False
  then have "goto i Ready (unsubscribe (event_channel pfx sy) i sy (gs_gw x)) x = unsubscribe_request i sy x"
    by (simp add: unsubscribe_def unsubscribe_request_def Let_def case_prod_beta)
  with unsubscribe_request_step [OF assms, of pfx sy] show ?thesis by auto
next
  case True
  let ?y = "unsubscribe_request i sy x"
  have "gs_pc ?y i = Some (Removing sy)" using True by (simp add: unsubscribe_request_def Let_def)
  note s2 = gateway_step.removes [OF this, of pfx]
  have "goto i Ready (unsubscribe_pubsub_symbol (event_channel pfx sy) (gs_gw ?y)) ?y =
      goto i Ready (unsubscribe (event_channel pfx sy) i sy (gs_gw x)) x"
    using True by (simp add: unsubscribe_def unsubscribe_request_def Let_def case_prod_beta goto_def)
  with unsubscribe_request_step [OF assms, of pfx sy] s2 show ?thesis
    by (metis converse_rtranclp_into_rtranclp rtranclp.rtrancl_refl)
qed

lemma on_text_step:
  assumes "gs_pc x i = Some Ready" "on_text shown text_of i loaded x = Inr y"
  shows "gateway_step pfx x y"
  using assms(2) gateway_step.replies [OF assms(1)] gateway_step.subscribe_asks [OF assms(1)]
    unsubscribe_request_step [OF assms(1)]
  by (auto simp: on_text_def subscribe_request_def split: client_reply.splits sum.splits if_splits)

lemma handler_finally_step:
  assumes "gs_pc x i = Some Ready" "gw_heap (gs_gw x) i = Some s" "distinct sys" "set sys = cs_subscriptions s"
  shows "gateway_step pfx x (handler_finally i sys x)"
  using gateway_step.crashes [OF assms(1)] gateway_step.leaves [OF assms(1) _ assms(2-4) refl]
  by (cases "gs_phase x i") (simp_all add: handler_finally_def Let_def)

section \<open>An executable schedule\<close>

text \<open>
  A run of the gateway as a list of moves: who acts next, and what the outside answers. A
  move that is not possible gives \<^const>\<open>None\<close>.
\<close>

datatype move =
    Connect string encoding aggregation_mode pyfloat
  | Text nat "json result"
  | Ensure nat bool
  | Fetched nat "snapshot_data option result"
  | Release nat
  | Disconnect nat "string list"
  | Work nat client_turn
  | Wake
  | Listen bool
  | Event market_event
  | StopListening

definition do_connect :: "string \<Rightarrow> encoding \<Rightarrow> aggregation_mode \<Rightarrow> pyfloat \<Rightarrow> gateway_sys \<Rightarrow> gateway_sys" where
  "do_connect cid enc mode now x =
     (let c = connect_session cid enc mode now (gs_gw x)
      in (goto (fst c) Ready (snd c) x)\<lparr>gs_phase := (gs_phase x)(fst c := DispatchRuns)\<rparr>)"

definition do_ensure :: "string \<Rightarrow> nat \<Rightarrow> bool \<Rightarrow> gateway_sys \<Rightarrow> gateway_sys option" where
  \<comment> \<open>one attempt of \<open>_ensure_pubsub_subscription\<close>, or the answer after the fifth\<close>
  "do_ensure pfx i accepts x =
     (case gs_pc x i of
        Some (Ensuring sy flt n) \<Rightarrow>
          (if n < 5 then
             (let r = subscribe_pubsub_symbol accepts (event_channel pfx sy) (gs_gw x);
                  b = begin_initialization i sy (snd r)
              in Some (if fst r then goto i (Fetching sy flt (fst b)) (snd b) x
                       else goto i (Ensuring sy flt (n + 1)) (snd r) x))
           else if n = 5 then
             (let g = send_error i (''subscription unavailable for '' @ sy) (gs_gw x)
              in Some (goto i (removal_pc sy g) g x))
           else None)
      | _ \<Rightarrow> None)"

definition do_release :: "string \<Rightarrow> nat \<Rightarrow> gateway_sys \<Rightarrow> gateway_sys option" where
  \<comment> \<open>the next channel a handler gives back, or the end of \<open>_cleanup\<close>\<close>
  "do_release pfx i x =
     (case gs_pc x i of
        Some (Removing sy) \<Rightarrow>
          Some (goto i Ready (unsubscribe_pubsub_symbol (event_channel pfx sy) (gs_gw x)) x)
      | Some (Leaving (sy # us)) \<Rightarrow>
          Some (goto i (Leaving us) (unsubscribe_pubsub_symbol (event_channel pfx sy) (gs_gw x)) x)
      | Some (Leaving []) \<Rightarrow> Some (goto i Gone (update_session i close_session (gs_gw x)) x)
      | _ \<Rightarrow> None)"

definition do_work :: "nat \<Rightarrow> client_turn \<Rightarrow> gateway_sys \<Rightarrow> gateway_sys option" where
  "do_work i t x =
     (case gw_heap (gs_gw x) i of
        None \<Rightarrow> None
      | Some s \<Rightarrow>
          (case t of
             EventArrives e \<Rightarrow> None
           | _ \<Rightarrow> (let r = client_step t (gs_phase x i, s)
                 in Some (x\<lparr>gs_gw := update_session i (\<lambda>_. snd r) (gs_gw x),
                            gs_phase := (gs_phase x)(i := fst r)\<rparr>))))"

definition do_listen :: "bool \<Rightarrow> gateway_sys \<Rightarrow> gateway_sys option" where
  "do_listen accepts x =
     (if gs_fan x = FanWoken then
        (let r = open_pubsub accepts (gs_gw x); p = gw_next (gs_gw x)
         in Some (x\<lparr>gs_gw := snd r, gs_fan := (if fst r then FanListening p else FanSleeping p)\<rparr>))
      else None)"

fun do_move ::
  "(json \<Rightarrow> string) \<Rightarrow> (py_exn \<Rightarrow> string) \<Rightarrow> string \<Rightarrow> move \<Rightarrow> gateway_sys \<Rightarrow> gateway_sys option" where
  "do_move shown text_of pfx (Connect cid enc mode now) x = Some (do_connect cid enc mode now x)"
| "do_move shown text_of pfx (Text i loaded) x =
     (if gs_pc x i = Some Ready then opt_of (on_text shown text_of i loaded x) else None)"
| "do_move shown text_of pfx (Ensure i accepts) x = do_ensure pfx i accepts x"
| "do_move shown text_of pfx (Fetched i fetched) x =
     (case gs_pc x i of
        Some (Fetching sy flt k) \<Rightarrow>
          (let g = snd (finish_subscription i sy k flt fetched (gs_gw x)) in Some (goto i (removal_pc sy g) g x))
      | _ \<Rightarrow> None)"
| "do_move shown text_of pfx (Release i) x = do_release pfx i x"
| "do_move shown text_of pfx (Disconnect i sys) x =
     (case gw_heap (gs_gw x) i of
        Some s \<Rightarrow> if gs_pc x i = Some Ready \<and> distinct sys \<and> set sys = cs_subscriptions s
                then Some (handler_finally i sys x) else None
      | None \<Rightarrow> None)"
| "do_move shown text_of pfx (Work i t) x = do_work i t x"
| "do_move shown text_of pfx Wake x =
     (if gs_fan x = FanWaiting \<and> gw_demand (gs_gw x) then Some (x\<lparr>gs_fan := FanWoken\<rparr>) else None)"
| "do_move shown text_of pfx (Listen accepts) x = do_listen accepts x"
| "do_move shown text_of pfx (Event e) x =
     (case gs_fan x of FanListening p \<Rightarrow> Some (x\<lparr>gs_gw := fanout_event e (gs_gw x)\<rparr>) | _ \<Rightarrow> None)"
| "do_move shown text_of pfx StopListening x =
     (case fan_pubsub (gs_fan x) of
        Some p \<Rightarrow> Some (x\<lparr>gs_gw := close_pubsub p (gs_gw x), gs_fan := FanWaiting\<rparr>) | None \<Rightarrow> None)"

fun do_moves ::
  "(json \<Rightarrow> string) \<Rightarrow> (py_exn \<Rightarrow> string) \<Rightarrow> string \<Rightarrow> move list \<Rightarrow> gateway_sys \<Rightarrow> gateway_sys option" where
  "do_moves shown text_of pfx [] x = Some x"
| "do_moves shown text_of pfx (m # ms) x =
     (case do_move shown text_of pfx m x of None \<Rightarrow> None | Some y \<Rightarrow> do_moves shown text_of pfx ms y)"

lemma do_ensure_step: "do_ensure pfx i accepts x = Some y \<Longrightarrow> gateway_step pfx x y"
  by (auto simp: do_ensure_def Let_def split: option.splits client_pc.splits if_splits
      intro: gateway_step.ensure_confirms gateway_step.ensure_gives_up gateway_step.ensure_fails [unfolded Suc_eq_plus1 [symmetric]])

lemma do_release_step: "do_release pfx i x = Some y \<Longrightarrow> gateway_step pfx x y"
  by (auto simp: do_release_def split: option.splits client_pc.splits list.splits intro: gateway_step.intros)

lemma do_work_step: "do_work i t x = Some y \<Longrightarrow> gateway_step pfx x y"
  by (auto simp: do_work_def Let_def simp del: client_step.simps split: option.splits client_turn.splits
      intro!: gateway_step.client_works [OF _ _ refl])

lemma do_listen_step:
  assumes "do_listen accepts x = Some y"
  shows "gateway_step pfx x y"
proof -
  have f: "gs_fan x = FanWoken"
    and y: "y = x\<lparr>gs_gw := snd (open_pubsub accepts (gs_gw x)),
      gs_fan := (if fst (open_pubsub accepts (gs_gw x)) then FanListening (gw_next (gs_gw x))
                 else FanSleeping (gw_next (gs_gw x)))\<rparr>"
    using assms by (simp_all add: do_listen_def Let_def split: if_splits)
  show ?thesis unfolding y by (rule gateway_step.fan_opens [OF f refl]) (simp add: views)
qed

lemma do_move_step: "do_move shown text_of pfx m x = Some y \<Longrightarrow> gateway_step pfx x y"
  by (cases m)
    (auto simp: Let_def do_connect_def opt_of_eq_Some do_ensure_step do_release_step do_work_step do_listen_step
      split: option.splits client_pc.splits fanout_phase.splits if_splits
      elim: on_text_step handler_finally_step fan_pubsub.elims intro: gateway_step.intros)

lemma do_moves_steps: "do_moves shown text_of pfx ms x = Some y \<Longrightarrow> (gateway_step pfx)\<^sup>*\<^sup>* x y"
proof (induction ms arbitrary: x)
  case (Cons m ms)
  then obtain z where "do_move shown text_of pfx m x = Some z" "do_moves shown text_of pfx ms z = Some y"
    by (auto split: option.splits)
  then show ?case using do_move_step Cons.IH by (meson converse_rtranclp_into_rtranclp)
qed simp

section \<open>A client whose dispatch task has died\<close>

lemma crashed_stays_step:
  assumes "gateway_inv pfx x" "gateway_step pfx x y" "gs_pc x i = Some (Crashed exc)"
  shows "gs_pc y i = Some (Crashed exc) \<and> subscribed (gs_gw y) i = subscribed (gs_gw x) i"
proof -
  have "inv_ids x" using assms(1) by (simp add: gateway_inv_def)
  note new = inv_idsD(1) [OF this assms(3)] inv_idsD(3) [OF this]
  show ?thesis using assms(2,3) new
    by cases (auto simp: views simp del: update_session_views(10))
qed

lemma crashed_stays:
  assumes "(gateway_step pfx)\<^sup>*\<^sup>* x y" "gateway_inv pfx x" "gs_pc x i = Some (Crashed exc)"
  shows "gateway_inv pfx y \<and> gs_pc y i = Some (Crashed exc) \<and> subscribed (gs_gw y) i = subscribed (gs_gw x) i"
  using assms(1)
proof (induction rule: rtranclp_induct)
  case (step y z)
  with crashed_stays_step [of pfx y z i exc] gateway_inv_step [of pfx y z] show ?case by simp
qed (use assms(2,3) in simp)

text \<open>
  C34. A client that disconnects after its dispatch task has died is never cleaned up. The
  handler awaits the dead task and its exception skips the cleanup, so in every later state
  the session stays in the set of exactly the symbols it was subscribed to. These symbols
  count as in use for ever: no other client that unsubscribes or leaves finds one of them
  without a subscriber, which is what would make it give the channel back.
\<close>

theorem crashed_client_is_never_cleaned_up:
  assumes "(gateway_step pfx)\<^sup>*\<^sup>* start_sys x" "gs_pc x i = Some Ready" "gs_phase x i = DispatchDead exc"
    "(gateway_step pfx)\<^sup>*\<^sup>* (handler_finally i sys x) y"
  shows "gs_pc y i = Some (Crashed exc) \<and> {sy. i \<in> subs_of (gs_gw y) sy} = {sy. i \<in> subs_of (gs_gw x) sy} \<and>
    (\<forall>sy. i \<in> subs_of (gs_gw x) sy \<longrightarrow> channel_in_use sy (gs_gw y) \<and>
      (\<forall>j. j \<noteq> i \<longrightarrow> \<not> fst (discard_session j sy (gs_gw y))))"
proof -
  let ?x = "handler_finally i sys x"
  have x: "gateway_inv pfx x" using gw.reachable_inv [OF refl assms(1)] .
  have h: "?x = goto i (Crashed exc) (gs_gw x) x" by (simp add: handler_finally_def assms(3))
  have "gateway_step pfx x ?x" unfolding h using assms(2,3) by (rule gateway_step.crashes)
  with x have inv: "gateway_inv pfx ?x" by (rule gateway_inv_step)
  have "gs_pc ?x i = Some (Crashed exc)" by (simp add: h)
  note y = crashed_stays [OF assms(4) inv this]
  have reg: "inv_registry x" "inv_registry y" using x y by (simp_all add: gateway_inv_def)
  have "subscribed (gs_gw y) i = subscribed (gs_gw x) i" using y by (simp add: h)
  with reg y assms(2) have same: "i \<in> subs_of (gs_gw y) sy \<longleftrightarrow> i \<in> subs_of (gs_gw x) sy" for sy
    by (simp add: inv_registry_def)
  have "channel_in_use sy (gs_gw y)" if "i \<in> subs_of (gs_gw y) sy" for sy
    using that by (auto simp: channel_in_use_def)
  moreover have "\<not> fst (discard_session j sy (gs_gw y))" if "i \<in> subs_of (gs_gw y) sy" "j \<noteq> i" for sy j
    using that by (auto simp: views)
  ultimately show ?thesis using same y by simp
qed

definition crash_moves :: "move list" where
  \<comment> \<open>a client subscribes, misses an event, and the snapshot store fails\<close>
  "crash_moves =
     [Connect ''c'' JSON RAW (Fin 0),
      Text 0 (Inr (JObj [(''action'', JStr ''subscribe''), (''symbol'', JStr ''a'')])),
      Ensure 0 True, Wake, Listen True, Ensure 0 True, Fetched 0 (Inr (Some (sample_snapshot 5))),
      Event (sample_event ''A'' 7), Work 0 (DispatchTurn (\<lambda>_. Inl ConnectionError)),
      Work 0 (DispatchTurn (\<lambda>_. Inl ConnectionError))]"

lemma crash_moves_run:
  "\<exists>x. do_moves (\<lambda>_. []) (\<lambda>_. []) [] crash_moves start_sys = Some x \<and> gs_pc x 0 = Some Ready \<and>
     gs_phase x 0 = DispatchDead ConnectionError \<and> 0 \<in> subs_of (gs_gw x) ''A''"
proof -
  have "case do_moves (\<lambda>_. []) (\<lambda>_. []) [] crash_moves start_sys of None \<Rightarrow> False
    | Some x \<Rightarrow> gs_pc x 0 = Some Ready \<and> gs_phase x 0 = DispatchDead ConnectionError \<and> 0 \<in> subs_of (gs_gw x) ''A''"
    by code_simp
  then show ?thesis by (auto split: option.splits)
qed

theorem crashed_client_is_never_cleaned_up_witness:
  "\<exists>x. (gateway_step [])\<^sup>*\<^sup>* start_sys x \<and> 0 \<in> subs_of (gs_gw x) ''A'' \<and>
     gs_pc (handler_finally 0 [''A''] x) 0 = Some (Crashed ConnectionError) \<and>
     0 \<in> subs_of (gs_gw (handler_finally 0 [''A''] x)) ''A''"
proof -
  obtain x where x: "do_moves (\<lambda>_. []) (\<lambda>_. []) [] crash_moves start_sys = Some x" "gs_pc x 0 = Some Ready"
    "gs_phase x 0 = DispatchDead ConnectionError" "0 \<in> subs_of (gs_gw x) ''A''" using crash_moves_run by blast
  have r: "(gateway_step [])\<^sup>*\<^sup>* start_sys x" using x(1) by (rule do_moves_steps)
  have "(gateway_step [])\<^sup>*\<^sup>* (handler_finally 0 [''A''] x) (handler_finally 0 [''A''] x)" by simp
  from crashed_client_is_never_cleaned_up [OF r x(2,3) this] r x(4) show ?thesis by blast
qed

section \<open>A client whose channel is gone\<close>








section \<open>Requests that end the connection\<close>

definition too_large :: "(string \<times> json) list \<Rightarrow> string \<Rightarrow> bool" where
  "too_large flt name \<longleftrightarrow> (\<exists>n. dict_get flt name = Some (JInt n) \<and> f_of_int n = Inl OverflowError)"

lemma f_of_int_large: "2 ^ 1024 \<le> n \<Longrightarrow> f_of_int n = Inl OverflowError"
proof -
  assume "2 ^ 1024 \<le> n"
  then have "(of_int (2 ^ 1024) :: rat) \<le> of_int n" by (rule of_int_le_iff [THEN iffD2])
  moreover have "pow2 1024 = of_int (2 ^ 1024)" using pow2_nonneg_int [of 1024] by simp
  ultimately have "gridv (pow2 1024) \<le> gridv (of_int n)" by (intro gridv_mono) simp
  then show ?thesis by (simp add: f_of_int_def fl_def Let_def gridv_pow2)
qed

lemma parse_bound_overflows:
  "too_large d name \<Longrightarrow> parse_bound d name = Inl OverflowError"
  "parse_bound d name = Inl exc \<Longrightarrow> exc = ValueError \<or> exc = OverflowError \<and> too_large d name"
  using parse_bound_result(2) [of d name exc] by (auto simp: too_large_def parse_bound_def bindE_def)

lemma filter_overflows:
  "parse_subscription_filter p = Inl exc \<and> exc \<noteq> ValueError \<longleftrightarrow> exc = OverflowError \<and>
     (\<exists>flt. p = Some (JObj flt) \<and> (too_large flt ''min_change_pct'' \<or>
        (\<exists>b. parse_bound flt ''min_change_pct'' = Inr b) \<and> too_large flt ''max_spread''))"
  by (auto simp: parse_subscription_filter_def bindE_def parse_bound_overflows(1)
      dest: parse_bound_overflows(2) split: option.splits json.splits sum.splits)

lemma subscribe_request_raises:
  "(\<exists>exc. subscribe_request text_of i sy p x = Inl exc) \<longleftrightarrow>
     (\<exists>exc. parse_subscription_filter p = Inl exc \<and> exc \<noteq> ValueError)"
  by (auto simp: subscribe_request_def split: sum.splits)

text \<open>
  C37. Exactly these text messages raise out of the receive loop and so end the connection:
  a text for which \<open>json.loads\<close> raises anything but \<open>JSONDecodeError\<close>; a JSON value that is
  no object; an object whose symbol is there but no string; and a request to subscribe to a
  non-empty symbol with a filter object in which one of the two bounds is an integer beyond
  the range of a float, and, if it is the second, the first is missing or acceptable. Every
  other message is answered or taken up, and the handler goes on.
\<close>

theorem malformed_request_closes_connection:
  "(\<exists>exc. on_text shown text_of i loaded x = Inl exc) \<longleftrightarrow>
     (\<exists>exc. loaded = Inl exc \<and> exc \<noteq> OtherError ''JSONDecodeError'') \<or>
     (\<exists>v. loaded = Inr v \<and> (\<forall>d. v \<noteq> JObj d)) \<or>
     (\<exists>d v. loaded = Inr (JObj d) \<and> dict_get d ''symbol'' = Some v \<and> (\<forall>t. v \<noteq> JStr t)) \<or>
     (\<exists>d sy flt. loaded = Inr (JObj d) \<and> dict_get d ''symbol'' = Some (JStr sy) \<and> str_upper sy \<noteq> [] \<and>
        dict_get d ''action'' = Some (JStr ''subscribe'') \<and> dict_get d ''filter'' = Some (JObj flt) \<and>
        (too_large flt ''min_change_pct'' \<or>
         (\<exists>b. parse_bound flt ''min_change_pct'' = Inr b) \<and> too_large flt ''max_spread''))"
proof (cases loaded)
  case (Inl exc)
  then show ?thesis by (auto simp: on_text_def client_message_def)
next
  case (Inr v)
  show ?thesis
  proof (cases v)
    case (JObj d)
    show ?thesis
    proof (cases "dict_get d ''symbol''")
      case None
      with Inr JObj show ?thesis
        by (auto simp: on_text_def client_message_def str_upper_def)
    next
      case (Some w)
      show ?thesis
      proof (cases w)
        case (JStr sy)
        with Some Inr JObj show ?thesis
          by (auto simp: on_text_def client_message_def subscribe_request_raises
              filter_overflows split: option.splits json.splits)
      qed (use Some Inr JObj in \<open>auto simp: on_text_def client_message_def\<close>)
    qed
  qed (use Inr in \<open>auto simp: on_text_def client_message_def\<close>)
qed

theorem malformed_request_closes_connection_witness:
  "\<exists>exc. on_text (\<lambda>_. []) (\<lambda>_. []) 0 (Inr (JObj [(''action'', JStr ''subscribe''), (''symbol'', JStr ''a''),
     (''filter'', JObj [(''max_spread'', JInt (2 ^ 1024))])])) start_sys = Inl exc"
  by (rule iffD2 [OF malformed_request_closes_connection])
    (simp add: dict_get_Cons str_upper_def too_large_def parse_bound_def f_of_int_large)

end
