(* ===== verification/Session_Turns.thy ===== *)
theory Session_Turns
  imports Gateway
begin

text \<open>
  Everything that happens to one client session of \<open>src/gateway/gateway.py\<close>, in one step
  function: the turns of its own tasks and of the fanout (\<^const>\<open>client_step\<close>), and what
  its connection handler does to it: error replies, the end of a subscription, unsubscribing,
  and the two ends of a connection. Every step of the gateway changes a session by such
  turns, so what holds for all their sequences holds for every client: the order of the
  sequence numbers it receives, and its silence once its dispatch task is dead.
\<close>

section \<open>Turns\<close>

datatype session_turn =
    TaskTurn client_turn
  | Reply string
  | Subscribed string "subscription_filter option" "snapshot_data option" "market_event list"
  | Unsubscribed string
  | Leaves
  | Closed

definition fresh_session ::
  "string \<Rightarrow> slow_consumer_policy \<Rightarrow> encoding \<Rightarrow> aggregation_mode \<Rightarrow> pyfloat \<Rightarrow> client_session" where
  \<comment> \<open>the session \<open>websocket_stream\<close> makes\<close>
  "fresh_session cid pol enc mode now =
     start_writer ((new_session cid pol enc now)
       \<lparr>cs_aggregator := Some (start_aggregator (new_aggregation_buffer mode 100))\<rparr>)"

definition enter_symbol ::
  "string \<Rightarrow> subscription_filter option \<Rightarrow> snapshot_data option \<Rightarrow> market_event list \<Rightarrow>
   client_session \<Rightarrow> client_session" where
  "enter_symbol sy flt snap es s =
     (let s1 = set_filter sy flt (replay_events snap es s)
      in s1\<lparr>cs_subscriptions := insert sy (cs_subscriptions s1)\<rparr>)"

definition subscribe_session ::
  "string \<Rightarrow> subscription_filter option \<Rightarrow> snapshot_data option \<Rightarrow> market_event list \<Rightarrow>
   client_session \<Rightarrow> client_session" where
  \<comment> \<open>the locked section of \<open>_subscribe\<close>, as the session sees it\<close>
  "subscribe_session sy flt snap es s =
     (case snap of
        None \<Rightarrow> enter_symbol sy flt None es s
      | Some sn \<Rightarrow>
          (case enqueue (snapshot_message sn) s of
             (False, s1) \<Rightarrow> s1
           | (True, s1) \<Rightarrow>
               enter_symbol sy flt (Some sn) es (set_last_price sy (sn_bid sn) (set_last_seq sy (sn_seq sn) s1))))"

fun session_step :: "session_turn \<Rightarrow> dispatch_phase \<times> client_session \<Rightarrow> dispatch_phase \<times> client_session" where
  "session_step (TaskTurn t) x = client_step t x"
| "session_step (Reply t) (ph, s) = (ph, snd (enqueue (error_message t) s))"
| "session_step (Subscribed sy flt snap es) (ph, s) = (ph, subscribe_session sy flt snap es s)"
| "session_step (Unsubscribed sy) (ph, s) = (ph, forget_symbol sy s)"
| "session_step Leaves (ph, s) =
     (case ph of DispatchDead exc \<Rightarrow> (ph, s) | _ \<Rightarrow> (DispatchDead CancelledError, end_aggregator s))"
| "session_step Closed (ph, s) = (ph, close_session s)"

fun sent_in :: "session_turn \<Rightarrow> client_session \<Rightarrow> message list" where
  "sent_in (TaskTurn t) s = sent_by t s"
| "sent_in _ s = []"

fun run_session :: "session_turn list \<Rightarrow> dispatch_phase \<times> client_session \<Rightarrow>
   message list \<times> dispatch_phase \<times> client_session" where
  \<comment> \<open>the messages sent over a sequence of turns, and where it ends\<close>
  "run_session [] x = ([], x)"
| "run_session (t # ts) x =
     (case run_session ts (session_step t x) of (ms, y) \<Rightarrow> (sent_in t (snd x) @ ms, y))"

section \<open>The turns of a gateway step\<close>

lemma snd_run_session: "snd (run_session ts x) = fold session_step ts x"
  by (induction ts arbitrary: x) (auto simp: case_prod_beta)

lemma connected_session:
  "gw_heap (snd (connect_session cid enc mode now g)) (gw_next g) = Some (fresh_session cid DROP_OLDEST enc mode now)"
  by (simp add: connect_session_def fresh_session_def Let_def)

lemma cleanup_registry_heap: "gw_heap (snd (cleanup_registry i sys g)) = gw_heap g"
proof -
  have a: "gw_heap (snd (cleanup_inits i us g)) = gw_heap g" for us g
    using cleanup_inits_views [of i us g] by (cases "cleanup_inits i us g") auto
  have b: "gw_heap (snd (cleanup_subs i us g)) = gw_heap g" for us g
    using cleanup_subs_views [of i us g] by (cases "cleanup_subs i us g") auto
  show ?thesis by (simp add: cleanup_registry_def case_prod_beta a b)
qed

lemma heap_frame [simp]:
  "gw_heap (snd (subscribe_pubsub_symbol a ch g)) = gw_heap g"
  "gw_heap (unsubscribe_pubsub_symbol ch g) = gw_heap g"
  "gw_heap (snd (begin_initialization i sy g)) = gw_heap g"
  "gw_heap (snd (discard_session i sy g)) = gw_heap g"
  "gw_heap (snd (open_pubsub a g)) = gw_heap g" "gw_heap (close_pubsub p g) = gw_heap g"
  "gw_heap (snd (cleanup_registry i sys g)) = gw_heap g"
  "gw_heap (update_session i f g) j = (if j = i then map_option f (gw_heap g i) else gw_heap g j)"
  by (simp_all add: subscribe_pubsub_symbol_def unsubscribe_pubsub_symbol_def begin_initialization_def
      discard_session_def open_pubsub_def subscribe_desired_channels_def close_pubsub_def Let_def
      cleanup_registry_heap update_session_def)

definition buffered_for :: "gateway \<Rightarrow> nat \<Rightarrow> session_turn \<Rightarrow> bool" where
  \<comment> \<open>a subscription replays what its initialization has buffered, and an event comes from
    the symbol's sessions in the registry\<close>
  "buffered_for g i t \<longleftrightarrow>
     (case t of
        Subscribed sy flt snap es \<Rightarrow> \<exists>ini. dict_get (inits_of g sy) i = Some ini \<and> es = in_events ini
      | TaskTurn (EventArrives e) \<Rightarrow> i \<in> subs_of g (ev_symbol e)
      | _ \<Rightarrow> True)"

definition turned :: "gateway \<Rightarrow> nat \<Rightarrow> session_turn list \<Rightarrow> dispatch_phase \<times> client_session \<Rightarrow>
   dispatch_phase \<times> client_session \<Rightarrow> bool" where
  "turned g i ts x y \<longleftrightarrow> fold session_step ts x = y \<and> list_all (buffered_for g i) ts"

lemma finish_subscription_other:
  "j \<noteq> i \<Longrightarrow> gw_heap (snd (finish_subscription i sy k flt fetched g)) j = gw_heap g j"
  by (auto simp: finish_subscription_def complete_subscription_def send_error_def register_with_def
      register_session_def views split: sum.split option.split prod.split bool.split)

lemma finish_subscription_turns:
  assumes "gw_heap g i = Some s"
  shows "\<exists>ts s'. gw_heap (snd (finish_subscription i sy k flt fetched g)) i = Some s' \<and> turned g i ts (ph, s) (ph, s')"
proof -
  let ?r = "Reply (''subscription failed for '' @ sy)"
  let ?fails = "\<lambda>g1. drop_initialization i sy (send_error i (''subscription failed for '' @ sy) g1)"
  have fails: "\<exists>ts s'. gw_heap (?fails g1) i = Some s' \<and> turned g i ts (ph, s) (ph, s')"
    if "gw_heap g1 i = Some s1" "fold session_step us (ph, s) = (ph, s1)" "list_all (buffered_for g i) us" for g1 s1 us
  proof -
    have "turned g i (us @ [?r]) (ph, s) (ph, snd (enqueue (error_message (''subscription failed for '' @ sy)) s1))"
      using that(2,3) by (simp add: turned_def buffered_for_def)
    with that(1) show ?thesis by (intro exI conjI) (auto simp: views send_error_def)
  qed
  show ?thesis
  proof (cases fetched)
    case (Inl exc)
    with fails [of g s "[]"] assms show ?thesis by (simp add: finish_subscription_def)
  next
    case (Inr snap)
    note fetched = this
    show ?thesis
    proof (cases "dict_get (inits_of g sy) i")
      case None
      with fails [of g s "[]"] assms fetched show ?thesis
        by (simp add: finish_subscription_def complete_subscription_def)
    next
      case (Some ini)
      have b: "buffered_for g i (Subscribed sy flt snap (in_events ini))" using Some by (simp add: buffered_for_def)
      show ?thesis
      proof (cases "in_id ini \<noteq> k \<or> in_overflowed ini")
        case True
        with fails [of g s "[]"] assms fetched Some show ?thesis
          by (simp add: finish_subscription_def complete_subscription_def)
      next
        case False
        show ?thesis
        proof (cases "complete_subscription i sy k flt snap g")
          case (Pair ok g1)
          have ok: "gw_heap g1 i = Some (subscribe_session sy flt snap (in_events ini) s)"
            using Pair assms Some False
            by (auto simp: complete_subscription_def subscribe_session_def enter_symbol_def register_with_def
                register_session_def views Let_def set_filter_def split: option.splits prod.splits bool.splits)
          show ?thesis
          proof (cases ok)
            case True
            with Pair fetched ok b show ?thesis
              by (intro exI [of _ "[Subscribed sy flt snap (in_events ini)]"])
                (simp add: finish_subscription_def turned_def views)
          next
            case False
            with Pair fetched ok b fails [OF ok, of "[Subscribed sy flt snap (in_events ini)]"] show ?thesis
              by (simp add: finish_subscription_def)
          qed
        qed
      qed
    qed
  qed
qed

lemma turned_none: "turned g i [] x x"
  by (simp add: turned_def)

text \<open>Every step of the gateway changes a session by turns.\<close>

lemma gateway_step_turns:
  assumes "gateway_step pfx x y" "inv_ids x" "gw_heap (gs_gw x) i = Some s"
  shows "\<exists>ts s'. gw_heap (gs_gw y) i = Some s' \<and> turned (gs_gw x) i ts (gs_phase x i, s) (gs_phase y i, s')"
proof -
  let ?P = "\<lambda>ts. \<exists>s'. gw_heap (gs_gw y) i = Some s' \<and> turned (gs_gw x) i ts (gs_phase x i, s) (gs_phase y i, s')"
  have idle: "?P []" if "gw_heap (gs_gw y) i = gw_heap (gs_gw x) i" "gs_phase y i = gs_phase x i"
    using that assms(3) by (simp add: turned_none)
  show ?thesis
    using assms(1)
  proof cases
    case (connects c cid enc mode now)
    have "subscribed (gs_gw x) i \<noteq> None" using assms(3) by (simp add: subscribed_def)
    then have "i \<noteq> gw_next (gs_gw x)" using inv_idsD(3) [OF assms(2)] by auto
    with connects idle show ?thesis by (auto simp: connect_session_def Let_def)
  next
    case (replies j t)
    show ?thesis
    proof (cases "j = i")
      case True
      with replies assms(3) show ?thesis
        by (intro exI [of _ "[Reply t]"]) (simp add: send_error_def turned_def buffered_for_def)
    qed (use replies idle in \<open>auto simp: send_error_def\<close>)
  next
    case (ensure_gives_up j sy flt g)
    show ?thesis
    proof (cases "j = i")
      case True
      with ensure_gives_up assms(3) show ?thesis
        by (intro exI [of _ "[Reply (''subscription unavailable for '' @ sy)]"])
          (simp add: send_error_def turned_def buffered_for_def)
    qed (use ensure_gives_up idle in \<open>auto simp: send_error_def\<close>)
  next
    case (subscribe_ends j sy flt k g fetched)
    show ?thesis
    proof (cases "j = i")
      case True
      with subscribe_ends finish_subscription_turns [OF assms(3)] show ?thesis by simp
    next
      case False
      have "?P []" using False subscribe_ends by (intro idle) (simp_all add: finish_subscription_other)
      then show ?thesis by blast
    qed
  next
    case (unsubscribes j d sy)
    show ?thesis
    proof (cases "j = i")
      case True
      with unsubscribes assms(3) show ?thesis
        by (intro exI [of _ "[Unsubscribed sy]"]) (simp add: turned_def buffered_for_def)
    qed (use unsubscribes idle in auto)
  next
    case (leaves j s0 sys c)
    show ?thesis
    proof (cases "j = i")
      case True
      have "gs_phase x i \<noteq> DispatchDead exc" for exc using leaves(3) True by simp
      then have "session_step Leaves (gs_phase x i, s) = (DispatchDead CancelledError, end_aggregator s)"
        by (cases "gs_phase x i") auto
      with leaves True assms(3) show ?thesis
        by (intro exI [of _ "[Leaves]"]) (simp add: turned_def buffered_for_def del: session_step.simps)
    qed (use leaves idle in auto)
  next
    case (left j)
    show ?thesis
    proof (cases "j = i")
      case True
      with left assms(3) show ?thesis
        by (intro exI [of _ "[Closed]"]) (simp add: turned_def buffered_for_def)
    qed (use left idle in auto)
  next
    case (client_works j s0 t r)
    show ?thesis
    proof (cases "j = i")
      case True
      with client_works assms(3) show ?thesis
        by (intro exI [of _ "[TaskTurn t]"]) (simp add: turned_def buffered_for_def split: client_turn.split)
    qed (use client_works idle in auto)
  next
    case (fan_event p e)
    show ?thesis
    proof (cases "i \<in> subs_of (gs_gw x) (ev_symbol e)")
      case True
      with fan_event assms(3) show ?thesis
        by (intro exI [of _ "[TaskTurn (EventArrives e)]"])
          (simp add: turned_def buffered_for_def fanout_event_def Let_def)
    qed (use fan_event idle in \<open>auto simp: fanout_event_def Let_def\<close>)
  qed (use idle in auto)
qed

fun own_events :: "session_turn \<Rightarrow> bool" where
  "own_events (Subscribed sy flt snap es) = (\<forall>e \<in> set es. ev_symbol e = sy)"
| "own_events t = True"

definition own_buffers :: "gateway \<Rightarrow> bool" where
  "own_buffers g \<longleftrightarrow> (\<forall>sy i ini. dict_get (inits_of g sy) i = Some ini \<longrightarrow> (\<forall>e \<in> set (in_events ini). ev_symbol e = sy))"

lemma buffer_event_events: "e' \<in> set (in_events (buffer_event e ini)) \<Longrightarrow> e' = e \<or> e' \<in> set (in_events ini)"
  by (auto simp: buffer_event_def split: if_splits)

lemma own_buffersD: "own_buffers g \<Longrightarrow> dict_get (inits_of g sy) i = Some ini \<Longrightarrow> e \<in> set (in_events ini) \<Longrightarrow> ev_symbol e = sy"
  by (auto simp: own_buffers_def)

lemma own_buffers_step:
  assumes "gateway_step pfx x y" "own_buffers (gs_gw x)"
  shows "own_buffers (gs_gw y)"
  unfolding own_buffers_def using assms(1)
  by cases (auto simp: views dict_get_map_values dict_get_pop dict_get_set dest!: buffer_event_events
      split: if_splits dest: own_buffersD [OF assms(2)])

lemma own_buffers_start: "own_buffers (gs_gw start_sys)"
  by (simp add: own_buffers_def start_sys_def new_gateway_def inits_of_def)

fun entered :: "session_turn \<Rightarrow> string set" where
  "entered (Subscribed sy flt snap es) = {sy}"
| "entered t = {}"

fun only_subscribed :: "string set \<Rightarrow> session_turn list \<Rightarrow> bool" where
  \<comment> \<open>events come only of symbols that have been subscribed to\<close>
  "only_subscribed S [] = True"
| "only_subscribed S (t # ts) =
     ((\<forall>e. t = TaskTurn (EventArrives e) \<longrightarrow> ev_symbol e \<in> S) \<and> only_subscribed (S \<union> entered t) ts)"

lemma only_subscribed_append:
  "only_subscribed S (ts @ us) \<longleftrightarrow> only_subscribed S ts \<and> only_subscribed (S \<union> \<Union> (entered ` set ts)) us"
  by (induction ts arbitrary: S) (auto simp: Un_assoc)

lemma only_subscribedI:
  "\<forall>t \<in> set ts. \<forall>e. t = TaskTurn (EventArrives e) \<longrightarrow> ev_symbol e \<in> S \<Longrightarrow> only_subscribed S ts"
  by (induction ts arbitrary: S) auto

lemma subscribe_session_subscriptions:
  "cs_subscriptions (subscribe_session sy flt snap es s) \<subseteq> insert sy (cs_subscriptions s)"
proof (cases snap)
  case None
  then show ?thesis by (simp add: subscribe_session_def enter_symbol_def)
next
  case (Some sn)
  obtain ok s1 where e: "enqueue (snapshot_message sn) s = (ok, s1)" by (cases "enqueue (snapshot_message sn) s")
  have "cs_subscriptions s1 = cs_subscriptions s" using enqueue_subscriptions [of "snapshot_message sn" s] e by simp
  with Some e show ?thesis by (cases ok) (auto simp: subscribe_session_def enter_symbol_def)
qed

lemma session_step_subscriptions:
  "cs_subscriptions (snd (session_step t (ph, s))) \<subseteq> cs_subscriptions s \<union> entered t"
  using subscribe_session_subscriptions
  by (cases t; cases ph) (auto simp: forget_symbol_def end_aggregator_def)

lemma run_subscriptions:
  "cs_subscriptions (snd (fold session_step ts x)) \<subseteq> cs_subscriptions (snd x) \<union> \<Union> (entered ` set ts)"
proof (induction ts arbitrary: x)
  case (Cons t ts)
  from Cons.IH [of "session_step t x"] session_step_subscriptions [of t "fst x" "snd x"] show ?case
    by (simp add: subset_iff) blast
qed simp

text \<open>
  So does every run of the gateway; a subscription replays events of its own symbol only,
  and no event reaches a session before it has been subscribed to the event's symbol.
\<close>

lemma gateway_run_turns:
  assumes "(gateway_step pfx)\<^sup>*\<^sup>* start_sys x" "(gateway_step pfx)\<^sup>*\<^sup>* x y" "gw_heap (gs_gw x) i = Some s"
  shows "\<exists>ts s'. gw_heap (gs_gw y) i = Some s' \<and> fold session_step ts (gs_phase x i, s) = (gs_phase y i, s') \<and>
    list_all own_events ts \<and> only_subscribed (cs_subscriptions s) ts"
  using assms(2)
proof (induction rule: rtranclp_induct)
  case base
  from assms(3) show ?case by (intro exI [of _ "[]"]) simp
next
  case (step y z)
  then obtain ts s1 where y: "gw_heap (gs_gw y) i = Some s1" "list_all own_events ts"
    "fold session_step ts (gs_phase x i, s) = (gs_phase y i, s1)" "only_subscribed (cs_subscriptions s) ts" by blast
  have r: "(gateway_step pfx)\<^sup>*\<^sup>* start_sys y" using assms(1) step.hyps(1) by (rule rtranclp_trans)
  have own: "own_buffers (gs_gw y)"
    using r by (induction rule: rtranclp_induct) (auto intro: own_buffers_step own_buffers_start)
  have inv: "inv_ids y" "inv_registry y" using gw.reachable_inv [OF refl r] by (simp_all add: gateway_inv_def)
  from gateway_step_turns [OF step.hyps(2) inv(1) y(1)] obtain us s2 where
    z: "gw_heap (gs_gw z) i = Some s2" "fold session_step us (gs_phase y i, s1) = (gs_phase z i, s2)"
      "list_all (buffered_for (gs_gw y) i) us" by (auto simp: turned_def)
  have "own_events t" if "buffered_for (gs_gw y) i t" for t
    using that own_buffersD [OF own] by (cases t) (auto simp: buffered_for_def)
  with z(3) have o: "list_all own_events us" by (auto simp: list_all_iff)
  have sub: "cs_subscriptions s1 \<subseteq> cs_subscriptions s \<union> \<Union> (entered ` set ts)"
    using run_subscriptions [of ts "(gs_phase x i, s)"] y(3) by simp
  have "sy \<in> cs_subscriptions s1" if "i \<in> subs_of (gs_gw y) sy" for sy
    using that inv(2) y(1) by (auto simp: inv_registry_def subscribed_def)
  moreover have "i \<in> subs_of (gs_gw y) (ev_symbol e)" if "TaskTurn (EventArrives e) \<in> set us" for e
    using that z(3) by (auto simp: list_all_iff buffered_for_def dest: bspec)
  ultimately have "only_subscribed (cs_subscriptions s \<union> \<Union> (entered ` set ts)) us"
    using sub by (intro only_subscribedI) blast
  with y z o show ?case by (intro exI [of _ "ts @ us"]) (simp add: only_subscribed_append)
qed

section \<open>What a session holds of a symbol\<close>

definition waiting_events :: "client_session \<Rightarrow> market_event set" where
  \<comment> \<open>what the aggregator has for the dispatch task\<close>
  "waiting_events s =
     (case cs_aggregator s of
        None \<Rightarrow> {}
      | Some ag \<Rightarrow> set (dict_values (ag_buffer ag)) \<union> set (q_items (ag_output ag)))"

definition untouched :: "string \<Rightarrow> dispatch_phase \<Rightarrow> client_session \<Rightarrow> bool" where
  "untouched sy ph s \<longleftrightarrow> ph \<noteq> DispatchAwaits sy \<and> (\<forall>e \<in> waiting_events s. ev_symbol e \<noteq> sy)"

lemma put_nowait_items: "put_nowait x q = Some q' \<Longrightarrow> q_items q' = q_items q @ [x]"
  by (auto simp: put_nowait_def split: if_splits)

lemma get_nowait_items: "get_nowait q = Some (x, q') \<Longrightarrow> q_items q = x # q_items q'"
  by (auto simp: get_nowait_def split: list.splits)

lemma set_put_latest: "set (q_items (put_latest e q)) \<subseteq> insert e (set (q_items q))"
  by (auto simp: put_latest_def Let_def dest!: put_nowait_items get_nowait_items split: option.splits)

lemma set_fold_put_latest: "set (q_items (fold put_latest es q)) \<subseteq> set es \<union> set (q_items q)"
proof (induction es arbitrary: q)
  case (Cons e es)
  from Cons.IH [of "put_latest e q"] set_put_latest [of e q] show ?case by auto
qed simp

lemma dict_values_set: "set (dict_values (dict_set k v d)) \<subseteq> insert v (set (dict_values d))"
  by (induction d) (auto simp: dict_values_def dict_set_def)

lemma waiting_push: "waiting_events (push_event e s) \<subseteq> insert e (waiting_events s)"
  by (auto simp: waiting_events_def push_event_def push_def
      dest!: subsetD [OF set_put_latest] subsetD [OF dict_values_set] split: option.splits)

lemma waiting_fold_push: "waiting_events (fold push_event es s) \<subseteq> set es \<union> waiting_events s"
proof (induction es arbitrary: s)
  case (Cons e es)
  from Cons.IH [of "push_event e s"] waiting_push [of e s] show ?case by auto
qed simp

lemma waiting_flush: "waiting_events (flush_client s) \<subseteq> waiting_events s"
  by (auto simp: waiting_events_def flush_client_def flush_window_def dict_values_def
      dest!: subsetD [OF set_fold_put_latest] split: option.splits)

lemma waiting_frame [simp]:
  "waiting_events (set_last_seq sy n s) = waiting_events s" "waiting_events (set_last_price sy p s) = waiting_events s"
  "waiting_events (bump_gaps s) = waiting_events s" "waiting_events (mark_delivered e s) = waiting_events s"
  "waiting_events (snd (enqueue m s)) = waiting_events s" "waiting_events (forget_symbol sy s) = waiting_events s"
  "waiting_events (end_aggregator s) = waiting_events s" "waiting_events (close_session s) = waiting_events s"
  "waiting_events (set_filter sy flt s) = waiting_events s"
  "waiting_events (snd (writer_turn o' time s)) = waiting_events s"
  by (auto simp: waiting_events_def set_last_seq_def set_last_price_def bump_gaps_def mark_delivered_def enqueue_frame
      forget_symbol_def end_aggregator_def stop_aggregator_def close_session_def set_filter_def writer_turn_def Let_def
      record_latency_def bump_sent_def split: option.splits send_outcome.splits sum.splits)

lemma next_event_waiting:
  assumes "cs_aggregator s = Some ag" "next_event ag = Some (e, ag1)"
  shows "e \<in> waiting_events s \<and> waiting_events (s\<lparr>cs_aggregator := Some ag1\<rparr>) \<subseteq> waiting_events s"
  using assms by (auto simp: waiting_events_def next_event_def dest!: get_nowait_items split: option.splits)

lemma enqueue_keeps:
  "enqueue m s = (ok, s1) \<Longrightarrow> waiting_events s1 = waiting_events s \<and> cs_last_seq s1 = cs_last_seq s"
  using waiting_frame(5) [of m s] enqueue_frame(1) [of m s] by (metis snd_conv)

lemma last_seq_set: "cs_last_seq (set_last_seq sy n s) = (cs_last_seq s)(sy \<mapsto> n)"
  by (simp add: set_last_seq_def)

lemma deliver_event_keeps:
  assumes "deliver_event e s = (ph, s')"
  shows "waiting_events s' = waiting_events s \<and> cs_last_seq s' = cs_last_seq s \<and> ph \<noteq> DispatchAwaits sy"
proof -
  obtain ok s1 where e: "enqueue (event_to_dict e) s = (ok, s1)" by (cases "enqueue (event_to_dict e) s")
  note k = enqueue_keeps [OF e, THEN conjunct1] enqueue_keeps [OF e, THEN conjunct2]
  have "s' = s \<or> s' = s1 \<or> s' = mark_delivered e s1" "ph \<noteq> DispatchAwaits sy"
    using assms e by (auto simp: deliver_event_def split: sum.splits if_splits)
  then show ?thesis by (elim disjE) (simp_all add: k)
qed

lemma dispatch_event_keeps:
  assumes "dispatch_event raw e s = (ph, s')" "ev_symbol e \<noteq> sy"
  shows "waiting_events s' = waiting_events s \<and> cs_last_seq s' sy = cs_last_seq s sy \<and> ph \<noteq> DispatchAwaits sy"
  using assms deliver_event_keeps [of e "set_last_seq (ev_symbol e) (ev_seq e) s" ph s' sy]
  by (auto simp: dispatch_event_def classify_sequence_def bump_gaps_def set_last_seq_def waiting_events_def
      split: option.splits if_splits)

lemma dispatch_snapshot_keeps:
  assumes "dispatch_snapshot t fetched s = (ph, s')" "t \<noteq> sy"
  shows "waiting_events s' = waiting_events s \<and> cs_last_seq s' sy = cs_last_seq s sy \<and> ph \<noteq> DispatchAwaits sy"
proof (cases fetched)
  case (Inr snap)
  show ?thesis
  proof (cases snap)
    case (Some sn)
    obtain ok s1 where e: "enqueue (snapshot_message sn) s = (ok, s1)" by (cases "enqueue (snapshot_message sn) s")
    note k = enqueue_keeps [OF e, THEN conjunct1] enqueue_keeps [OF e, THEN conjunct2]
    have "s' = s \<or> s' = s1 \<or> s' = set_last_price t (sn_bid sn) (set_last_seq t (sn_seq sn) s1)"
      "ph \<noteq> DispatchAwaits sy"
      using assms(1) Inr Some e by (auto simp: dispatch_snapshot_def split: if_splits)
    then show ?thesis by (elim disjE) (simp_all add: k last_seq_set assms(2) not_sym [OF assms(2)])
  qed (use assms Inr in \<open>auto simp: dispatch_snapshot_def\<close>)
qed (use assms in \<open>auto simp: dispatch_snapshot_def\<close>)

text \<open>A task that has nothing of a symbol to do leaves the symbol's boundary alone.\<close>

lemma client_step_untouched:
  assumes "client_step t (ph, s) = (ph', s')" "untouched sy ph s" "\<And>e. t = EventArrives e \<Longrightarrow> ev_symbol e \<noteq> sy"
  shows "untouched sy ph' s' \<and> cs_last_seq s' sy = cs_last_seq s sy"
proof (cases t)
  case (DispatchTurn store)
  show ?thesis
  proof (cases ph)
    case DispatchRuns
    with DispatchTurn assms(1) have "dispatch_turn s = (ph', s')" by simp
    then consider (idle) "s' = s" "ph' \<noteq> DispatchAwaits sy" | (event) ag e ag1 where "cs_aggregator s = Some ag"
        "next_event ag = Some (e, ag1)" "dispatch_event (ag_mode ag = RAW) e (s\<lparr>cs_aggregator := Some ag1\<rparr>) = (ph', s')"
      by (auto simp: dispatch_turn_def split: option.splits)
    then show ?thesis
    proof cases
      case idle
      with assms(2) show ?thesis by (simp add: untouched_def)
    next
      case (event ag e ag1)
      note w = next_event_waiting [OF event(1,2)]
      with assms(2) have "ev_symbol e \<noteq> sy" by (auto simp: untouched_def)
      from dispatch_event_keeps [OF event(3) this] w assms(2) show ?thesis by (auto simp: untouched_def)
    qed
  next
    case (DispatchAwaits u)
    with assms DispatchTurn dispatch_snapshot_keeps [of u "store u" s ph' s' sy] show ?thesis
      by (auto simp: untouched_def)
  next
    case (DispatchDead exc)
    with assms DispatchTurn show ?thesis by simp
  qed
next
  case (WriterTurn o' time)
  then have "ph' = ph" "s' = snd (writer_turn o' time s)" using assms(1) by auto
  moreover have "cs_last_seq (snd (writer_turn o' time s)) = cs_last_seq s"
    by (auto simp: writer_turn_def Let_def record_latency_def bump_sent_def
        split: option.splits send_outcome.splits sum.splits)
  ultimately show ?thesis using assms(2) by (simp add: untouched_def)
next
  case WindowTurn
  with assms waiting_flush [of s] show ?thesis by (auto simp: untouched_def flush_client_def)
next
  case (EventArrives e)
  with assms waiting_push [of e s] show ?thesis by (auto simp: untouched_def push_event_def)
qed

section \<open>The order of a symbol's messages\<close>

definition spoken :: "string \<Rightarrow> message list \<Rightarrow> client_session \<Rightarrow> bool" where
  \<comment> \<open>what has been put in the queue for a symbol increases and ends at its boundary\<close>
  "spoken sy hist s \<longleftrightarrow> sorted_wrt (<) (seqs_for sy hist) \<and>
     (\<forall>n \<in> set (seqs_for sy hist). grows (Some n) (cs_last_seq s sy))"

definition tracks :: "string \<Rightarrow> bool \<Rightarrow> message list \<Rightarrow> dispatch_phase \<times> client_session \<Rightarrow> bool" where
  \<comment> \<open>a subscribed symbol is in order; one not yet subscribed to has no trace in the session\<close>
  "tracks sy joined hist x \<longleftrightarrow> wf_session (snd x) \<and>
     (if joined then spoken sy hist (snd x) else seqs_for sy hist = [] \<and> untouched sy (fst x) (snd x))"

lemma grows_trans: "grows x y \<Longrightarrow> grows y z \<Longrightarrow> grows x z"
  by (cases x; cases y; cases z) auto

lemma spoken_quiet:
  assumes "spoken sy hist s" "grows (cs_last_seq s sy) (cs_last_seq s' sy)"
  shows "spoken sy hist s'"
  using assms grows_trans by (auto simp: spoken_def)

lemma spoken_speaks:
  assumes "spoken sy hist s" "\<forall>t. msg_seq t m = (if t = u then Some n else None)"
    "above (cs_last_seq s u) n" "cs_last_seq s' = (cs_last_seq s)(u \<mapsto> n)"
  shows "spoken sy (hist @ [m]) s'"
proof (cases "u = sy")
  case False
  with assms show ?thesis by (simp add: spoken_def)
next
  case True
  have old: "j < n" if "j \<in> set (seqs_for sy hist)" for j
  proof -
    from that assms(1) have "grows (Some j) (cs_last_seq s sy)" by (simp add: spoken_def)
    with assms(3) True show ?thesis by (cases "cs_last_seq s sy") auto
  qed
  then show ?thesis using assms(1,2,4) True by (auto simp: spoken_def sorted_wrt_append less_imp_le)
qed

definition carries_on ::
  "string \<Rightarrow> message list \<Rightarrow> message list \<Rightarrow> dispatch_phase \<times> client_session \<Rightarrow>
   dispatch_phase \<times> client_session \<Rightarrow> bool \<Rightarrow> bool" where
  \<comment> \<open>a turn that sends \<open>ms\<close> keeps the symbol in order, whatever has been queued before\<close>
  "carries_on sy hist ms x y c \<longleftrightarrow> (\<exists>new. tracks sy c (hist @ new) y \<and>
     subseq (ms @ q_items (cs_queue (snd y))) (q_items (cs_queue (snd x)) @ new))"

lemma carries_onI:
  "tracks sy c (hist @ new) y \<Longrightarrow> subseq (ms @ q_items (cs_queue (snd y))) (q_items (cs_queue (snd x)) @ new) \<Longrightarrow>
   carries_on sy hist ms x y c"
  by (auto simp: carries_on_def)

lemma task_carries_on:
  assumes "tracks sy b hist (ph, s)" "honest t" "\<And>e. t = EventArrives e \<Longrightarrow> ev_symbol e = sy \<Longrightarrow> b"
  shows "carries_on sy hist (sent_by t s) (ph, s) (client_step t (ph, s)) b"
proof -
  obtain ph' s' where st: "client_step t (ph, s) = (ph', s')" by (cases "client_step t (ph, s)")
  have wf: "wf_session s" using assms(1) by (simp add: tracks_def)
  have same: "untouched sy ph' s' \<and> cs_last_seq s' sy = cs_last_seq s sy" if "\<not> b"
    using client_step_untouched [OF st] assms(1,3) that by (auto simp: tracks_def)
  from client_step_effect [OF wf st assms(2)] show ?thesis
  proof
    assume q: "quiet (sent_by t s) s s'"
    then have "tracks sy b (hist @ []) (ph', s')"
      using assms(1) same spoken_quiet [of sy hist s s'] by (auto simp: tracks_def quiet_def)
    with q show ?thesis unfolding st by (intro carries_onI [where new = "[]"]) (auto simp: quiet_def)
  next
    assume "sent_by t s = [] \<and> speaks s s'"
    then obtain m u n where sp: "sent_by t s = []" "wf_session s'"
      "subseq (q_items (cs_queue s')) (q_items (cs_queue s) @ [m])"
      "\<forall>t. msg_seq t m = (if t = u then Some n else None)" "above (cs_last_seq s u) n"
      "cs_last_seq s' = (cs_last_seq s)(u \<mapsto> n)" by (auto simp: speaks_def)
    have "u \<noteq> sy" if "\<not> b" using same [OF that] sp(5,6) by (cases "cs_last_seq s u") auto
    then have "tracks sy b (hist @ [m]) (ph', s')"
      using assms(1) same sp(2,4) spoken_speaks [OF _ sp(4-6), of sy hist] by (auto simp: tracks_def)
    with sp(1,3) show ?thesis unfolding st by (intro carries_onI) auto
  qed
qed

fun honest_turn :: "session_turn \<Rightarrow> bool" where
  \<comment> \<open>the snapshot store and the initialization buffer answer for the symbol they are asked about\<close>
  "honest_turn (TaskTurn t) = honest t"
| "honest_turn (Subscribed sy flt snap es) =
     ((\<forall>sn. snap = Some sn \<longrightarrow> sn_symbol sn = sy) \<and> (\<forall>e \<in> set es. ev_symbol e = sy))"
| "honest_turn t = True"

fun subscribes_to :: "string \<Rightarrow> session_turn \<Rightarrow> bool" where
  "subscribes_to sy (Subscribed u flt snap es) = (u = sy)"
| "subscribes_to sy t = False"

fun in_order :: "string \<Rightarrow> bool \<Rightarrow> session_turn \<Rightarrow> bool" where
  "in_order sy joined (TaskTurn t) = (case t of EventArrives e \<Rightarrow> ev_symbol e = sy \<longrightarrow> joined | _ \<Rightarrow> True)"
| "in_order sy joined (Subscribed u flt snap es) = (u = sy \<longrightarrow> \<not> joined)"
| "in_order sy joined (Unsubscribed u) = (u \<noteq> sy)"
| "in_order sy joined t = True"

fun orderly :: "string \<Rightarrow> bool \<Rightarrow> session_turn list \<Rightarrow> bool" where
  \<comment> \<open>the symbol is subscribed to at most once, its events arrive only afterwards, and it is
    never unsubscribed; the flag says whether the subscription is already there\<close>
  "orderly sy joined [] = True"
| "orderly sy joined (t # ts) = (in_order sy joined t \<and> orderly sy (joined \<or> subscribes_to sy t) ts)"

text \<open>The registry's discipline leaves it to the client.\<close>

lemma orderlyI:
  "only_subscribed S ts \<Longrightarrow> (sy \<in> S \<longrightarrow> b) \<Longrightarrow> length (filter (subscribes_to sy) ts) + (if b then 1 else 0) \<le> 1 \<Longrightarrow>
   \<forall>t \<in> set ts. t \<noteq> Unsubscribed sy \<Longrightarrow> orderly sy b ts"
proof (induction ts arbitrary: S b)
  case (Cons t ts)
  have "in_order sy b t" using Cons.prems by (cases t) (auto split: client_turn.splits if_splits)
  moreover have "orderly sy (b \<or> subscribes_to sy t) ts"
    using Cons.prems by (intro Cons.IH [of "S \<union> entered t"]) (cases t; auto split: if_splits)+
  ultimately show ?case by simp
qed simp

lemma wf_push_event: "wf_session s \<Longrightarrow> wf_session (push_event e s)"
  by (auto simp: push_event_def wf_session_def wf_push split: option.splits)

lemma wf_fold_push_event: "wf_session s \<Longrightarrow> wf_session (fold push_event es s)"
  by (induction es arbitrary: s) (auto simp: wf_push_event)

lemma enter_symbol_frame:
  "cs_queue (enter_symbol sy flt snap es s) = cs_queue s" "cs_last_seq (enter_symbol sy flt snap es s) = cs_last_seq s"
  "wf_session s \<Longrightarrow> wf_session (enter_symbol sy flt snap es s)"
  "waiting_events (enter_symbol sy flt snap es s) \<subseteq> set es \<union> waiting_events s"
proof -
  obtain l where l: "replay_events snap es s = fold push_event l s" "set l \<subseteq> set es"
    by (auto simp: replay_events_def)
  show "cs_queue (enter_symbol sy flt snap es s) = cs_queue s" "cs_last_seq (enter_symbol sy flt snap es s) = cs_last_seq s"
    by (simp_all add: enter_symbol_def l(1) fold_push_event_frame set_filter_def)
  show "wf_session s \<Longrightarrow> wf_session (enter_symbol sy flt snap es s)"
    using wf_fold_push_event [of s l] by (simp add: enter_symbol_def l(1) set_filter_def wf_session_def)
  have "waiting_events (enter_symbol sy flt snap es s) = waiting_events (fold push_event l s)"
    by (simp add: enter_symbol_def l(1) set_filter_def waiting_events_def)
  with waiting_fold_push [of l s] l(2) show "waiting_events (enter_symbol sy flt snap es s) \<subseteq> set es \<union> waiting_events s"
    by blast
qed

lemma seqs_for_Nil [simp]: "seqs_for sy [] = []"
  by (simp add: seqs_for_def map_filter_def)

lemma enqueue_tracks:
  assumes "tracks sy b hist (ph, s)" "enqueue m s = (ok, s1)" "msg_seq sy m = None"
  shows "tracks sy b (hist @ (if ok then [m] else [])) (ph, s1)"
proof -
  note k = enqueue_keeps [OF assms(2), THEN conjunct1] enqueue_keeps [OF assms(2), THEN conjunct2]
  have "wf_session s1" using assms(1,2) enqueue_queue [of s m ok s1] by (simp add: tracks_def)
  with assms(1,3) show ?thesis by (auto simp: tracks_def spoken_def untouched_def k)
qed

lemma subscribe_carries_on:
  assumes "tracks sy b hist (ph, s)" "honest_turn (Subscribed u flt snap es)" "u = sy \<longrightarrow> \<not> b"
  shows "carries_on sy hist [] (ph, s) (ph, subscribe_session u flt snap es s) (b \<or> u = sy)"
proof -
  have wf: "wf_session s" using assms(1) by (simp add: tracks_def)
  have first: "seqs_for sy hist = []" if "u = sy" using assms(1,3) that by (simp add: tracks_def)
  have enters: "tracks sy (b \<or> u = sy) hist' (ph, enter_symbol u flt snap es s1)"
    if "if u = sy then wf_session s1 \<and> spoken sy hist' s1 else tracks sy b hist' (ph, s1)" for hist' s1
    using that enter_symbol_frame(1,2) [of u flt snap es s1] enter_symbol_frame(3) [of s1 u flt snap es]
      enter_symbol_frame(4) [of u flt snap es s1] assms(2)
    by (auto simp: tracks_def spoken_def untouched_def split: if_splits)
  show ?thesis
  proof (cases snap)
    case None
    have "tracks sy (b \<or> u = sy) (hist @ []) (ph, enter_symbol u flt snap es s)"
      by (rule enters) (use assms(1) wf first in \<open>auto simp: spoken_def\<close>)
    with None show ?thesis
      by (intro carries_onI [where new = "[]"]) (simp_all add: subscribe_session_def enter_symbol_frame)
  next
    case (Some sn)
    have sn: "sn_symbol sn = u" using Some assms(2) by simp
    obtain ok s1 where e: "enqueue (snapshot_message sn) s = (ok, s1)" by (cases "enqueue (snapshot_message sn) s")
    note q = enqueue_queue [OF wf e]
    show ?thesis
    proof (cases ok)
      case False
      have "tracks sy (b \<or> u = sy) (hist @ []) (ph, s1)"
      proof (cases "u = sy")
        case True
        with q first show ?thesis by (simp add: tracks_def spoken_def)
      next
        case neq: False
        with enqueue_tracks [OF assms(1) e] sn False show ?thesis by simp
      qed
      with q e Some False show ?thesis
        by (intro carries_onI [where new = "[]"]) (simp_all add: subscribe_session_def)
    next
      case True
      let ?s2 = "set_last_price u (sn_bid sn) (set_last_seq u (sn_seq sn) s1)"
      have "tracks sy (b \<or> u = sy) (hist @ [snapshot_message sn]) (ph, enter_symbol u flt snap es ?s2)"
      proof (rule enters)
        show "if u = sy then wf_session ?s2 \<and> spoken sy (hist @ [snapshot_message sn]) ?s2
          else tracks sy b (hist @ [snapshot_message sn]) (ph, ?s2)"
          using q first sn enqueue_tracks [OF assms(1) e] True
          by (auto simp: spoken_def last_seq_set wf_session_frame tracks_def untouched_def)
      qed
      with q e Some True show ?thesis
        by (intro carries_onI [where new = "[snapshot_message sn]"]) (simp_all add: subscribe_session_def enter_symbol_frame)
    qed
  qed
qed

lemma turn_carries_on:
  assumes "tracks sy b hist (ph, s)" "honest_turn t" "in_order sy b t"
  shows "carries_on sy hist (sent_in t s) (ph, s) (session_step t (ph, s)) (b \<or> subscribes_to sy t)"
proof (cases t)
  case (TaskTurn c)
  have "ev_symbol e = sy \<Longrightarrow> b" if "c = EventArrives e" for e using assms(3) TaskTurn that by simp
  with assms(2) TaskTurn task_carries_on [OF assms(1), of c] show ?thesis by simp
next
  case (Reply m)
  obtain ok s1 where e: "enqueue (error_message m) s = (ok, s1)" by (cases "enqueue (error_message m) s")
  have wf: "wf_session s" using assms(1) by (simp add: tracks_def)
  from enqueue_tracks [OF assms(1) e] enqueue_queue [OF wf e] e Reply show ?thesis
    by (intro carries_onI [where new = "if ok then [error_message m] else []"]) auto
next
  case (Subscribed u flt snap es)
  with assms subscribe_carries_on [of sy b hist ph s u flt snap es] show ?thesis by simp
next
  case (Unsubscribed u)
  have "wf_session (forget_symbol u s) = wf_session s" by (simp add: wf_session_def forget_symbol_def)
  with assms Unsubscribed show ?thesis
    by (intro carries_onI [where new = "[]"])
      (auto simp: tracks_def spoken_def untouched_def, simp_all add: forget_symbol_def)
next
  case Leaves
  have "wf_session (end_aggregator s)" if "wf_session s"
    using that by (auto simp: wf_session_def end_aggregator_def stop_aggregator_def wf_aggregator_def split: option.splits)
  moreover have "cs_queue (end_aggregator s) = cs_queue s" "cs_last_seq (end_aggregator s) = cs_last_seq s"
    by (simp_all add: end_aggregator_def)
  ultimately show ?thesis using assms Leaves
    by (intro carries_onI [where new = "[]"])
      (auto simp: tracks_def spoken_def untouched_def split: dispatch_phase.splits)
next
  case Closed
  have "wf_session (close_session s) = wf_session s" "cs_last_seq (close_session s) = cs_last_seq s"
    "cs_queue (close_session s) = cs_queue s"
    by (simp_all add: wf_session_def close_session_def)
  with assms Closed show ?thesis
    by (intro carries_onI [where new = "[]"]) (auto simp: tracks_def spoken_def untouched_def)
qed

lemma run_session_tracks:
  "tracks sy b hist (ph, s) \<Longrightarrow> list_all honest_turn ts \<Longrightarrow> orderly sy b ts \<Longrightarrow>
   subseq (past @ q_items (cs_queue s)) hist \<Longrightarrow> run_session ts (ph, s) = (sent, ph', s') \<Longrightarrow>
     \<exists>hist' c. tracks sy c hist' (ph', s') \<and> subseq (past @ sent @ q_items (cs_queue s')) hist'"
proof (induction ts arbitrary: b ph s hist past sent)
  case Nil
  then show ?case by auto
next
  case (Cons t ts)
  obtain ph1 s1 where st: "session_step t (ph, s) = (ph1, s1)" by (cases "session_step t (ph, s)")
  with Cons.prems(5) obtain sent2 where r: "run_session ts (ph1, s1) = (sent2, ph', s')"
    "sent = sent_in t s @ sent2" by (auto split: prod.splits)
  have t: "honest_turn t" "in_order sy b t" "list_all honest_turn ts" "orderly sy (b \<or> subscribes_to sy t) ts"
    using Cons.prems(2,3) by auto
  from turn_carries_on [OF Cons.prems(1) t(1,2)] st obtain new where
    n: "tracks sy (b \<or> subscribes_to sy t) (hist @ new) (ph1, s1)"
      "subseq (sent_in t s @ q_items (cs_queue s1)) (q_items (cs_queue s) @ new)" by (auto simp: carries_on_def)
  have "subseq (past @ sent_in t s @ q_items (cs_queue s1)) ((past @ q_items (cs_queue s)) @ new)"
    using n(2) by (metis append.assoc list_emb_append_mono subseq_order.order_refl)
  also have "subseq \<dots> (hist @ new)" using Cons.prems(4) by (intro list_emb_append_mono) auto
  finally have "subseq ((past @ sent_in t s) @ q_items (cs_queue s1)) (hist @ new)" by simp
  from Cons.IH [OF n(1) t(3,4) this r(1)] r(2) show ?case by simp
qed

lemma fresh_tracks: "tracks sy False [] (DispatchRuns, fresh_session cid pol enc mode now)"
  by (simp add: tracks_def fresh_session_def start_writer_def wf_session_def untouched_def waiting_events_def
      start_aggregator_def new_aggregation_buffer_def seqs_for_def map_filter_def dict_values_def new_queue_def
      wf_aggregator_def wf_queue_def new_session_def new_client_stats_def)

lemma fresh_sequences_increase:
  assumes "list_all honest_turn ts" "only_subscribed {} ts"
    "length (filter (subscribes_to sy) ts) \<le> 1" "Unsubscribed sy \<notin> set ts"
    "run_session ts (DispatchRuns, fresh_session cid pol enc mode now) = (sent, ph', s')"
  shows "sorted_wrt (<) (seqs_for sy sent)"
proof -
  have q: "q_items (cs_queue (fresh_session cid pol enc mode now)) = []"
    by (simp add: fresh_session_def start_writer_def new_session_def new_queue_def)
  have "orderly sy False ts" using assms(3,4) by (intro orderlyI [OF assms(2)]) auto
  from run_session_tracks [OF fresh_tracks assms(1) this _ assms(5), of "[]"] q obtain hist c where
    h: "tracks sy c hist (ph', s')" "subseq (sent @ q_items (cs_queue s')) hist" by auto
  have "sorted_wrt (<) (seqs_for sy hist)" using h(1) by (simp add: tracks_def spoken_def split: if_splits)
  with seqs_for_subseq [OF h(2)] have "sorted_wrt (<) (seqs_for sy (sent @ q_items (cs_queue s')))"
    using sorted_wrt_subseq by blast
  then show ?thesis by (simp add: sorted_wrt_append)
qed

text \<open>
  C3. A client receives increasing sequence numbers: from its connection on, over any
  interleaving of events fanned out to it, ends of its aggregation windows, turns of its
  dispatch task with whatever the snapshot store answers, sends that succeed or fail, and
  what its handler does (error replies, subscriptions, unsubscribing, leaving), the messages
  sent to it for one symbol, snapshots and increments together, carry strictly increasing
  sequence numbers, in RAW mode and in aggregated mode, under either slow-consumer policy,
  provided that it subscribes to that symbol at most once and never unsubscribes from it: a
  second subscription sends a snapshot of any number, and unsubscribing drops the boundary.
  The first two hypotheses are the gateway's part: the snapshot store answers for the symbol
  asked for, and events come only of symbols subscribed to (\<open>gateway_run_turns\<close>).
\<close>

theorem client_receives_increasing_sequences:
  assumes "list_all honest_turn ts" "only_subscribed {} ts"
    "length (filter (subscribes_to sy) ts) \<le> 1" "Unsubscribed sy \<notin> set ts"
    "run_session ts (DispatchRuns, fresh_session cid pol enc mode now) = (sent, ph', s')"
  shows "sorted_wrt (<) (seqs_for sy sent)"
  by (rule fresh_sequences_increase [OF assms])

section \<open>A client whose dispatch task is dead\<close>

fun handler_messages :: "session_turn \<Rightarrow> message list" where
  "handler_messages (Reply t) = [error_message t]"
| "handler_messages (Subscribed sy flt (Some sn) es) = [snapshot_message sn]"
| "handler_messages t = []"

lemma dead_task_quiet:
  assumes "wf_session s"
  shows "fst (client_step t (DispatchDead exc, s)) = DispatchDead exc \<and>
    quiet (sent_by t s) s (snd (client_step t (DispatchDead exc, s)))"
proof (cases t)
  case (WriterTurn o' time)
  with writer_effect [OF assms, of o' time] show ?thesis by simp
next
  case WindowTurn
  with assms show ?thesis
    by (auto simp: quiet_def flush_client_def wf_session_def wf_flush_window split: option.splits)
next
  case (EventArrives e)
  with assms show ?thesis by (auto simp: quiet_def push_event_def wf_session_def wf_push split: option.splits)
qed (use assms in \<open>simp add: quiet_def\<close>)

lemma dead_turn:
  assumes "wf_session s" "session_step t (DispatchDead exc, s) = (ph, s')"
  shows "ph = DispatchDead exc \<and> wf_session s' \<and>
    subseq (sent_in t s @ q_items (cs_queue s')) (q_items (cs_queue s) @ handler_messages t)"
proof (cases t)
  case (TaskTurn c)
  with dead_task_quiet [OF assms(1), of c exc] assms(2) show ?thesis by (simp add: quiet_def)
next
  case (Reply m)
  obtain ok s1 where e: "enqueue (error_message m) s = (ok, s1)" by (cases "enqueue (error_message m) s")
  from enqueue_queue [OF assms(1) e] e Reply assms(2) show ?thesis
    by (cases ok) (auto intro: subseq_order.trans)
next
  case (Subscribed u flt snap es)
  show ?thesis
  proof (cases snap)
    case None
    with Subscribed assms show ?thesis by (auto simp: subscribe_session_def enter_symbol_frame)
  next
    case (Some sn)
    obtain ok s1 where e: "enqueue (snapshot_message sn) s = (ok, s1)" by (cases "enqueue (snapshot_message sn) s")
    from enqueue_queue [OF assms(1) e] e Some Subscribed assms(2) show ?thesis
      by (cases ok) (auto simp: subscribe_session_def enter_symbol_frame wf_session_frame intro: subseq_order.trans)
  qed
qed (use assms in \<open>auto simp: forget_symbol_def close_session_def wf_session_def\<close>)

lemma dead_run:
  "run_session ts (DispatchDead exc, s) = (sent, ph', s') \<Longrightarrow> wf_session s \<Longrightarrow> ph' = DispatchDead exc \<and>
     subseq (sent @ q_items (cs_queue s')) (q_items (cs_queue s) @ concat (map handler_messages ts))"
proof (induction ts arbitrary: s sent)
  case (Cons t ts)
  obtain ph1 s1 where st: "session_step t (DispatchDead exc, s) = (ph1, s1)"
    by (cases "session_step t (DispatchDead exc, s)")
  note d = dead_turn [OF Cons.prems(2) st]
  from Cons.prems(1) st obtain sent2 where
    r: "run_session ts (ph1, s1) = (sent2, ph', s')" "sent = sent_in t s @ sent2" by (auto split: prod.splits)
  from Cons.IH [of s1 sent2] r(1) d have ih: "ph' = DispatchDead exc"
    "subseq (sent2 @ q_items (cs_queue s')) (q_items (cs_queue s1) @ concat (map handler_messages ts))" by auto
  have "subseq (sent_in t s @ sent2 @ q_items (cs_queue s'))
      ((sent_in t s @ q_items (cs_queue s1)) @ concat (map handler_messages ts))"
    using ih(2) by (metis append.assoc list_emb_append_mono subseq_order.order_refl)
  also have "subseq \<dots> ((q_items (cs_queue s) @ handler_messages t) @ concat (map handler_messages ts))"
    using d by (metis list_emb_append_mono subseq_order.order_refl)
  finally show ?case using ih(1) r(2) by simp
qed simp

text \<open>
  C33. A store failure during recovery silences the client: when \<open>snapshot_store.get\<close> raises
  while a gap is being recovered, the dispatch task is dead for good, and whatever happens
  afterwards no event and no recovered snapshot is put in the client's queue again. What it
  is still sent, or has in its queue, was queued before or answers its own requests: the
  error replies and the snapshots of later subscriptions, each at most once and in order.
\<close>

theorem store_error_silences_client:
  assumes "wf_session s" "store sy = Inl exc"
    "run_session (TaskTurn (DispatchTurn store) # ts) (DispatchAwaits sy, s) = (sent, ph', s')"
  shows "ph' = DispatchDead exc \<and>
    subseq (sent @ q_items (cs_queue s')) (q_items (cs_queue s) @ concat (map handler_messages ts))"
proof -
  have "run_session ts (DispatchDead exc, s) = (sent, ph', s')"
    using assms(2,3) by (simp add: dispatch_snapshot_def split: prod.splits)
  from dead_run [OF this assms(1)] show ?thesis .
qed

section \<open>Witnesses\<close>

definition sample_turns :: "session_turn list" where
  "sample_turns =
     [Reply ''invalid json'', Subscribed ''A'' None (Some (sample_snapshot 5)) [sample_event ''A'' 6],
      TaskTurn (EventArrives (sample_event ''A'' 7)), TaskTurn (DispatchTurn (\<lambda>_. Inr None)),
      TaskTurn (DispatchTurn (\<lambda>_. Inr None)), TaskTurn (WriterTurn SendOk (Fin 2)),
      TaskTurn (WriterTurn SendOk (Fin 2)), TaskTurn (WriterTurn SendOk (Fin 2))]"

lemma record_latency_none: "dict_get m ''event_ts'' = None \<Longrightarrow> record_latency t m s = s"
  by (simp add: record_latency_def)

lemma sample_turns_sent:
  "fst (run_session sample_turns (DispatchRuns, fresh_session ''c'' DROP_OLDEST JSON RAW (Fin 0))) =
     [error_message ''invalid json'', snapshot_message (sample_snapshot 5), event_to_dict (sample_event ''A'' 6)]"
  by (simp add: sample_turns_def fresh_session_def start_writer_def start_aggregator_def subscribe_session_def
      enter_symbol_def replay_events_def set_filter_def push_event_def push_def put_latest_def put_nowait_def
      queue_full_def new_queue_def new_aggregation_buffer_def OUTPUT_MAX_SIZE_def dispatch_turn_def next_event_def
      get_nowait_def dispatch_event_def classify_sequence_def deliver_event_def should_deliver_def enqueue_def
      new_session_def QUEUE_MAX_SIZE_def writer_turn_def set_last_seq_def mark_delivered_def set_last_price_def
      bump_sent_def record_latency_none error_message_def snapshot_message_def dict_get_Cons)

lemma sample_turns_ok: "list_all honest_turn sample_turns" "only_subscribed {} sample_turns"
    "length (filter (subscribes_to sy) sample_turns) \<le> 1" "Unsubscribed sy \<notin> set sample_turns"
  by (auto simp: sample_turns_def sample_event_def)

theorem client_receives_increasing_sequences_witness:
  "\<exists>sent ph' s'. run_session sample_turns (DispatchRuns, fresh_session ''c'' DROP_OLDEST JSON RAW (Fin 0)) =
     (sent, ph', s') \<and> seqs_for ''A'' sent = [5, 6] \<and> sorted_wrt (<) (seqs_for ''A'' sent)"
proof -
  let ?s = "fresh_session ''c'' DROP_OLDEST JSON RAW (Fin 0)"
  obtain sent ph' s' where r: "run_session sample_turns (DispatchRuns, ?s) = (sent, ph', s')"
    by (cases "run_session sample_turns (DispatchRuns, ?s)") auto
  have "seqs_for ''A'' sent = [5, 6]"
    using sample_turns_sent unfolding r by (simp add: seqs_for_def map_filter_def)
  with r client_receives_increasing_sequences [OF sample_turns_ok r] show ?thesis by blast
qed

theorem store_error_silences_client_witness:
  "\<exists>sent s'. run_session [TaskTurn (DispatchTurn (\<lambda>_. Inl ConnectionError)),
       TaskTurn (EventArrives (sample_event ''A'' 6)), TaskTurn (DispatchTurn (\<lambda>_. Inr None)), Reply ''invalid json'']
       (DispatchAwaits ''A'', sample_client) = (sent, DispatchDead ConnectionError, s')
     \<and> subseq (sent @ q_items (cs_queue s')) [error_message ''invalid json'']"
proof -
  let ?store = "\<lambda>_ :: string. Inl ConnectionError :: snapshot_data option result"
  let ?ts = "[TaskTurn (EventArrives (sample_event ''A'' 6)), TaskTurn (DispatchTurn (\<lambda>_. Inr None)), Reply ''invalid json'']"
  obtain sent ph' s' where r: "run_session (TaskTurn (DispatchTurn ?store) # ?ts) (DispatchAwaits ''A'', sample_client)
      = (sent, ph', s')"
    by (cases "run_session (TaskTurn (DispatchTurn ?store) # ?ts) (DispatchAwaits ''A'', sample_client)") auto
  from store_error_silences_client [OF wf_sample_client(1) refl r] r show ?thesis by auto
qed

end
