(* ===== verification/Gateway_Http.thy ===== *)
theory Gateway_Http
  imports Gateway_State History_Store
begin

text \<open>
  The HTTP endpoints of \<open>src/gateway/gateway.py\<close>: health, snapshot, the three metrics
  endpoints and the tick history. A handler is a function from the shared state and from
  what Redis, the database and the clock answered to a response; \<open>Fails\<close> is an exception
  that leaves the handler. JSON bodies are values of \<open>json\<close>, the Prometheus body is text.
\<close>

datatype http_response =
    Respond int json
  | RespondText string
  | Fails py_exn

definition error_body :: "string \<Rightarrow> json" where
  "error_body t = JObj [(''error'', JStr t)]"

definition of_result :: "('a \<Rightarrow> http_response) \<Rightarrow> 'a result \<Rightarrow> http_response" where
  "of_result f r = (case r of Inl exc \<Rightarrow> Fails exc | Inr x \<Rightarrow> f x)"

lemma of_result_simps [simp]:
  "of_result f (Inl exc) = Fails exc"
  "of_result f (Inr x) = f x"
  by (simp_all add: of_result_def)

section \<open>Health and snapshots\<close>

definition get_health :: "string \<Rightarrow> unit result \<Rightarrow> http_response" where
  \<comment> \<open>the arguments are \<open>INSTANCE_ID\<close> and the outcome of \<open>ping\<close>\<close>
  "get_health instance_id ping =
     (case ping of
        Inl exc \<Rightarrow>
          if exc = CancelledError then Fails exc
          else Respond 503 (JObj [(''status'', JStr ''degraded''), (''reason'', JStr ''redis unreachable'')])
      | Inr _ \<Rightarrow> Respond 200 (JObj [(''status'', JStr ''ok''), (''instance'', JStr instance_id)]))"

definition get_snapshot :: "(string \<Rightarrow> snapshot_data option result) \<Rightarrow> string \<Rightarrow> http_response" where
  "get_snapshot store symbol =
     (let sy = str_upper symbol
      in of_result (\<lambda>data. case data of
             None \<Rightarrow> Respond 404 (error_body (''No snapshot for '' @ sy))
           | Some sn \<Rightarrow> Respond 200 (JObj (snapshot_to_dict sn))) (store sy))"

section \<open>Metrics\<close>

definition sessions_of :: "gateway \<Rightarrow> (string \<times> client_session) list" where
  \<comment> \<open>\<open>all_sessions.items()\<close>\<close>
  "sessions_of g = List.map_filter (\<lambda>(cid, i). map_option (Pair cid) (gw_heap g i)) (gw_all g)"

definition throughput :: "pyfloat \<Rightarrow> nat \<Rightarrow> pyfloat result" where
  "throughput elapsed dispatched =
     bindE (f_of_int (int dispatched)) (\<lambda>n.
     bindE (f_div n (f_max elapsed (Fin 1))) (\<lambda>q. Inr (f_round 1 q)))"

fun map_items :: "('a \<Rightarrow> 'b result) \<Rightarrow> (string \<times> 'a) list \<Rightarrow> (string \<times> 'b) list result" where
  \<comment> \<open>\<open>{k: f(v) for k, v in items}\<close>\<close>
  "map_items f [] = Inr []"
| "map_items f ((k, v) # kvs) = bindE (f v) (\<lambda>w. bindE (map_items f kvs) (\<lambda>rest. Inr ((k, w) # rest)))"

definition get_metrics ::
  "(string set \<Rightarrow> string list) \<Rightarrow> pyfloat \<Rightarrow> pyfloat \<Rightarrow> gateway \<Rightarrow> http_response" where
  \<comment> \<open>\<open>elapsed\<close> is the time since \<open>_fanout_start_time\<close>, \<open>now\<close> the sessions' clock\<close>
  "get_metrics listing elapsed now g =
     of_result (\<lambda>eps.
       of_result (\<lambda>clients.
         Respond 200 (JObj
           [(''system'', JObj
              [(''total_dispatched'', JInt (int (gw_dispatched g))),
               (''uptime_sec'', JFloat (f_round 1 elapsed)),
               (''throughput_eps'', JFloat eps),
               (''connected_clients'', JInt (int (length clients)))]),
            (''clients'', JObj clients)]))
         (map_items (\<lambda>s. bindE (stats_dict listing now s) (\<lambda>d. Inr (JObj d))) (sessions_of g)))
       (throughput elapsed (gw_dispatched g))"

text \<open>
  \<open>sum\<close> of floats as of Python 3.12 (the README asks for it): compensated summation. The
  second component carries the low-order bits that the plain sum lost.
\<close>

fun sum_loop :: "pyfloat \<Rightarrow> pyfloat \<Rightarrow> pyfloat list \<Rightarrow> pyfloat \<times> pyfloat" where
  "sum_loop acc c [] = (acc, c)"
| "sum_loop acc c (x # xs) =
     (let t = f_add acc x;
          d = (if f_le (f_abs x) (f_abs acc) then f_add (f_sub acc t) x else f_add (f_sub x t) acc)
      in sum_loop t (f_add c d) xs)"

definition py_sum :: "pyfloat list \<Rightarrow> pyfloat" where
  "py_sum xs =
     (case sum_loop (Fin 0) (Fin 0) xs of
        (acc, c) \<Rightarrow> if c \<noteq> Fin 0 \<and> f_is_finite c then f_add acc c else acc)"

definition summary_percentile :: "pyfloat list \<Rightarrow> int \<Rightarrow> json result" where
  \<comment> \<open>the local function \<open>percentile\<close>; the integer 0 for an empty list\<close>
  "summary_percentile xs p =
     (if xs = [] then Inr (JInt 0)
      else let ordered = sort xs
           in bindE (f_int_div (int (length ordered) * p) 100) (\<lambda>x.
              bindE (f_int x) (\<lambda>i.
              bindE (py_index ordered (min i (int (length ordered) - 1))) (\<lambda>v.
                Inr (JFloat (f_round 2 v))))))"

fun map_result :: "('a \<Rightarrow> 'b result) \<Rightarrow> 'a list \<Rightarrow> 'b list result" where
  "map_result f [] = Inr []"
| "map_result f (x # xs) = bindE (f x) (\<lambda>y. bindE (map_result f xs) (\<lambda>ys. Inr (y # ys)))"

definition average :: "(latency_tracker \<Rightarrow> pyfloat result) \<Rightarrow> client_session list \<Rightarrow> json result" where
  "average f ss =
     (if ss = [] then Inr (JInt 0)
      else bindE (map_result (\<lambda>s. f (st_latency (cs_stats s))) ss) (\<lambda>xs.
           bindE (f_of_int (int (length ss))) (\<lambda>n.
           bindE (f_div (py_sum xs) n) (\<lambda>q. Inr (JFloat (f_round 2 q))))))"

definition latency_sessions :: "client_session list \<Rightarrow> client_session list" where
  "latency_sessions ss = filter (\<lambda>s. 0 < sample_count (st_latency (cs_stats s))) ss"

definition latency_samples :: "client_session list \<Rightarrow> pyfloat list" where
  "latency_samples ss = concat (map (\<lambda>s. lt_samples (st_latency (cs_stats s))) (latency_sessions ss))"

definition total_of :: "(client_stats \<Rightarrow> nat) \<Rightarrow> client_session list \<Rightarrow> nat" where
  "total_of f ss = sum_list (map (\<lambda>s. f (cs_stats s)) ss)"

definition get_metrics_summary :: "gateway \<Rightarrow> http_response" where
  "get_metrics_summary g =
     (let ss = map snd (sessions_of g); ls = latency_sessions ss; samples = latency_samples ss
      in if ss = [] then Respond 200 (JObj [(''message'', JStr ''no connected clients'')])
         else of_result (Respond 200 \<circ> JObj)
           (bindE (summary_percentile samples 50) (\<lambda>a.
            bindE (summary_percentile samples 99) (\<lambda>b.
            bindE (average p50 ls) (\<lambda>c.
            bindE (average p99 ls) (\<lambda>d. Inr
              [(''clients'', JInt (int (length ss))),
               (''overall_p50_ms'', a), (''overall_p99_ms'', b),
               (''average_client_p50_ms'', c), (''average_client_p99_ms'', d),
               (''latency_samples'', JInt (int (length samples))),
               (''total_sent'', JInt (int (total_of st_sent ss))),
               (''total_dropped'', JInt (int (total_of st_dropped ss)))]))))))"

section \<open>Prometheus text\<close>

definition escape_char :: "char \<Rightarrow> string" where
  \<comment> \<open>the two \<open>replace\<close> calls: the second meets no character the first has inserted\<close>
  "escape_char c = (if c = CHR 0x5C \<or> c = CHR 0x22 then [CHR 0x5C, c] else [c])"

definition client_label :: "string \<Rightarrow> string" where
  "client_label cid = ''client_id='' @ [CHR 0x22] @ concat (map escape_char cid) @ [CHR 0x22]"

definition append_metric_family ::
  "string list \<Rightarrow> string \<Rightarrow> string \<Rightarrow> string \<Rightarrow> string list \<Rightarrow> string list" where
  "append_metric_family lns name help kind samples =
     lns @ [''# HELP '' @ name @ '' '' @ help, ''# TYPE '' @ name @ '' '' @ kind] @ samples @ [[]]"

definition client_sample :: "string \<Rightarrow> client_session \<Rightarrow> string \<Rightarrow> string" where
  "client_sample name s val = name @ ''{'' @ client_label (cs_client_id s) @ ''} '' @ val"

fun join_lines :: "string list \<Rightarrow> string" where
  "join_lines [] = []"
| "join_lines [l] = l"
| "join_lines (l # ls) = l @ [CHR 0x0A] @ join_lines ls"

definition rstrip :: "string \<Rightarrow> string" where
  "rstrip s = rev (dropWhile is_space (rev s))"

definition latency_lines ::
  "(pyfloat \<Rightarrow> string) \<Rightarrow> client_session list \<Rightarrow> string list \<Rightarrow> string list result" where
  "latency_lines fstr ls lns =
     (if ls = [] then Inr lns
      else bindE (map_result (\<lambda>s. bindE (p50 (st_latency (cs_stats s)))
               (\<lambda>x. Inr (client_sample ''market_data_client_latency_p50_ms'' s (fstr x)))) ls) (\<lambda>as.
           bindE (map_result (\<lambda>s. bindE (p99 (st_latency (cs_stats s)))
               (\<lambda>x. Inr (client_sample ''market_data_client_latency_p99_ms'' s (fstr x)))) ls) (\<lambda>bs.
             Inr (append_metric_family
               (append_metric_family lns ''market_data_client_latency_p50_ms''
                  ''Rolling p50 dispatch latency in ms'' ''gauge'' as)
               ''market_data_client_latency_p99_ms'' ''Rolling p99 dispatch latency in ms'' ''gauge'' bs))))"

definition prometheus_metrics_text :: "(pyfloat \<Rightarrow> string) \<Rightarrow> pyfloat \<Rightarrow> gateway \<Rightarrow> string result" where
  "prometheus_metrics_text fstr elapsed g =
     bindE (throughput elapsed (gw_dispatched g)) (\<lambda>eps.
       let ss = map snd (sessions_of g);
           l1 = append_metric_family [] ''market_data_connected_clients''
             ''Current number of connected WebSocket clients'' ''gauge''
             [''market_data_connected_clients '' @ str_of_int (int (length ss))];
           l2 = append_metric_family l1 ''market_data_events_dispatched_total''
             ''Total events dispatched since startup'' ''counter''
             [''market_data_events_dispatched_total '' @ str_of_int (int (gw_dispatched g))];
           l3 = append_metric_family l2 ''market_data_throughput_events_per_sec''
             ''Current fanout throughput'' ''gauge''
             [''market_data_throughput_events_per_sec '' @ fstr eps];
           l4 = append_metric_family l3 ''market_data_client_sent_total''
             ''Total messages sent per client'' ''counter''
             (map (\<lambda>s. client_sample ''market_data_client_sent_total'' s
                (str_of_int (int (st_sent (cs_stats s))))) ss);
           l5 = append_metric_family l4 ''market_data_client_dropped_total''
             ''Total messages dropped per client'' ''counter''
             (map (\<lambda>s. client_sample ''market_data_client_dropped_total'' s
                (str_of_int (int (st_dropped (cs_stats s))))) ss)
       in bindE (if ss = [] then Inr l3 else latency_lines fstr (latency_sessions ss) l5) (\<lambda>lns.
            Inr (rstrip (join_lines lns) @ [CHR 0x0A])))"

definition get_metrics_prometheus :: "(pyfloat \<Rightarrow> string) \<Rightarrow> pyfloat \<Rightarrow> gateway \<Rightarrow> http_response" where
  "get_metrics_prometheus fstr elapsed g = of_result RespondText (prometheus_metrics_text fstr elapsed g)"

section \<open>History\<close>

definition parse_int_params ::
  "string \<Rightarrow> string \<Rightarrow> string option \<Rightarrow> (int \<times> int \<times> int) result" where
  "parse_int_params from_ts to_ts lmt =
     bindE (int_of_str from_ts) (\<lambda>a.
     bindE (int_of_str to_ts) (\<lambda>b.
     bindE (case lmt of None \<Rightarrow> Inr DEFAULT_HISTORY_LIMIT | Some l \<Rightarrow> int_of_str l) (\<lambda>n.
       Inr (a, b, n))))"

definition parse_history_params ::
  "string option \<Rightarrow> string option \<Rightarrow> string option \<Rightarrow> http_response + (int \<times> int \<times> int)" where
  "parse_history_params from_ts to_ts lmt =
     (case (from_ts, to_ts) of
        (Some f, Some t) \<Rightarrow>
          (case parse_int_params f t lmt of
             Inl _ \<Rightarrow> Inl (Respond 400 (error_body ''from_ts, to_ts, and limit must be integers''))
           | Inr (a, b, n) \<Rightarrow>
               if b < a then Inl (Respond 400 (error_body ''from_ts must be <= to_ts''))
               else case bindE (ms_to_datetime a) (\<lambda>_. ms_to_datetime b) of
                 Inl exc \<Rightarrow>
                   if exc \<in> {OverflowError, OSError, ValueError}
                   then Inl (Respond 400 (error_body ''from_ts and to_ts must be valid Unix milliseconds''))
                   else Inl (Fails exc)
               | Inr _ \<Rightarrow>
                   if n \<le> 0 then Inl (Respond 400 (error_body ''limit must be positive''))
                   else Inr (a, b, n))
      | _ \<Rightarrow> Inl (Respond 400 (error_body ''from_ts and to_ts required'')))"

definition tick_json :: "history_tick \<Rightarrow> json" where
  "tick_json t =
     JObj [(''seq'', JInt (ht_seq t)), (''event_ts'', JInt (ht_event_ts t)),
       (''bid'', JFloat (ht_bid t)), (''ask'', JFloat (ht_ask t)),
       (''bid_size'', JInt (ht_bid_size t)), (''ask_size'', JInt (ht_ask_size t))]"

definition history_reply :: "string \<Rightarrow> int \<Rightarrow> int \<Rightarrow> history_tick list result \<Rightarrow> http_response" where
  "history_reply sy a b fetched =
     (case fetched of
        Inl PyTimeoutError \<Rightarrow> Respond 504 (error_body ''history query timed out'')
      | Inl HistoryStoreUnavailable \<Rightarrow> Respond 503 (error_body ''history database unavailable'')
      | Inl exc \<Rightarrow> Fails exc
      | Inr ticks \<Rightarrow>
          if ticks = [] then Respond 404 (error_body (''No history for '' @ sy))
          else Respond 200 (JObj
            [(''symbol'', JStr sy), (''from_ts'', JInt a), (''to_ts'', JInt b),
             (''count'', JInt (int (length ticks))), (''ticks'', JList (map tick_json ticks))]))"

definition get_history ::
  "py_exn option \<Rightarrow> py_exn option \<Rightarrow> string \<Rightarrow> string option \<Rightarrow> string option \<Rightarrow> string option \<Rightarrow>
   history_store \<Rightarrow> database \<Rightarrow> http_response \<times> history_store" where
  \<comment> \<open>the first two arguments are what the connection pool and the query raise, if anything\<close>
  "get_history pool_raises fetch_raises symbol from_ts to_ts lmt h db =
     (let sy = str_upper symbol
      in case parse_history_params from_ts to_ts lmt of
           Inl response \<Rightarrow> (response, h)
         | Inr (a, b, n) \<Rightarrow>
             (case fetch_ticks pool_raises fetch_raises sy a b n h db of
                (fetched, h1) \<Rightarrow> (history_reply sy a b fetched, h1)))"

section \<open>Requests for history\<close>





definition decimal :: "int \<Rightarrow> bool" where
  "decimal n \<longleftrightarrow> 0 \<le> n \<and> n < 2 ^ 42"

lemma decimal_parses: "decimal n \<Longrightarrow> int_of_str (str_of_int n) = Inr n"
proof -
  have "(2::int) ^ 42 \<le> 10 ^ 13" by simp
  also have "(10::int) ^ 13 \<le> 10 ^ max_str_digits" by (rule power_increasing) (simp_all add: max_str_digits_def)
  finally show "decimal n \<Longrightarrow> int_of_str (str_of_int n) = Inr n" by (intro int_of_str_of_int) (auto simp: decimal_def)
qed

lemma decimal_request:
  assumes "decimal f" "decimal t" "f \<le> t" "0 < n" "decimal n"
  shows "parse_history_params (Some (str_of_int f)) (Some (str_of_int t)) (Some (str_of_int n)) = Inr (f, t, n)"
  using assms ms_to_datetime_exact [of f] ms_to_datetime_exact [of t]
  by (simp add: parse_history_params_def parse_int_params_def decimal_parses) (simp add: decimal_def)

text \<open>
  C22. From storage to the client: ticks inserted into an empty table come back from the
  history endpoint. A request for their symbol, in either case of letters, whose window is
  given in decimal, is answered 404 if no tick lies in the window, and otherwise 200 with
  each of them exactly once, as it was inserted.
\<close>

theorem history_serves_inserted_ticks:
  assumes "events \<noteq> []" "list_all storable events" "distinct (map event_key events)"
    "length events \<le> 10000" "insert_ticks None DbRuns events h (Some []) = (r, h1, db1)"
    "decimal f" "decimal t" "f \<le> t"
    "es = filter (\<lambda>e. ev_symbol e = str_upper symbol \<and> f \<le> ev_event_ts e \<and> ev_event_ts e \<le> t) events"
  shows "\<exists>ticks. mset ticks = image_mset tick_of_event (mset es) \<and>
    fst (get_history None None symbol (Some (str_of_int f)) (Some (str_of_int t)) (Some (str_of_int 10000)) h1 db1) =
      (if es = [] then Respond 404 (error_body (''No history for '' @ str_upper symbol))
       else Respond 200 (JObj [(''symbol'', JStr (str_upper symbol)), (''from_ts'', JInt f),
         (''to_ts'', JInt t), (''count'', JInt (int (length es))), (''ticks'', JList (map tick_json ticks))]))"
proof -
  have "0 \<le> f" "f < 2 ^ 42" "0 \<le> t" "t < 2 ^ 42" using assms(6,7) by (auto simp: decimal_def)
  from fetch_inserted [OF assms(1-5) this, of "str_upper symbol"] obtain ts where
    ts: "fetch_ticks None None (str_upper symbol) f t 10000 h1 db1 = (Inr ts, h1)"
      "mset ts = image_mset tick_of_event (mset es)" unfolding assms(9) by blast
  have "parse_history_params (Some (str_of_int f)) (Some (str_of_int t)) (Some (str_of_int 10000))
      = Inr (f, t, 10000)"
    using assms(6-8) by (intro decimal_request) (simp_all add: decimal_def)
  moreover have "length ts = length es" using arg_cong [OF ts(2), of size] by simp
  moreover from this have "ts = [] \<longleftrightarrow> es = []" by auto
  ultimately show ?thesis using ts
    by (intro exI [of _ ts]) (simp add: get_history_def Let_def history_reply_def)
qed

section \<open>Metrics\<close>

text \<open>The three percentile functions compute the same: here those of summary and tracker.\<close>

lemma summary_percentile_tracker:
  "summary_percentile xs p =
     (if xs = [] then Inr (JInt 0)
      else bindE (percentile \<lparr>lt_samples = xs, lt_max_samples = m\<rparr> p) (\<lambda>v. Inr (JFloat v)))"
  by (auto simp: summary_percentile_def percentile_def percentile_index_def bindE_def Let_def split: sum.split)

lemma map_result_all: "\<forall>x \<in> set xs. \<exists>y. f x = Inr y \<Longrightarrow> \<exists>ys. map_result f xs = Inr ys"
  by (induction xs) auto

lemma average_answers:
  assumes "\<forall>s \<in> set ss. \<exists>x. f (st_latency (cs_stats s)) = Inr x" "ss \<noteq> []" "length ss < 2 ^ 30"
  shows "\<exists>x. average f ss = Inr (JFloat x)"
proof -
  from map_result_all [OF assms(1)] obtain xs where
    "map_result (\<lambda>s. f (st_latency (cs_stats s))) ss = Inr xs" by blast
  moreover have "f_of_int (int (length ss)) = Inr (Fin (of_int (int (length ss))))"
    using assms(3) by (intro f_of_int_small) auto
  moreover obtain q where "f_div (py_sum xs) (Fin (of_int (int (length ss)))) = Inr q"
    using assms(2) by (cases "py_sum xs") auto
  ultimately show ?thesis using assms(2) by (simp add: average_def)
qed

lemma sum_list_bounded: "\<forall>x \<in> set xs. x \<le> (b :: nat) \<Longrightarrow> sum_list xs \<le> length xs * b"
  by (induction xs) auto

lemma latency_sessions_known:
  assumes "\<forall>s \<in> set ss. wf_session s" "s \<in> set (latency_sessions ss)"
  shows "wf_latency (st_latency (cs_stats s))" "lt_samples (st_latency (cs_stats s)) \<noteq> []"
  using assms by (auto simp: latency_sessions_def wf_session_def sample_count_def)

text \<open>The four values of the summary: floats once there is a latency, the integer 0 before.\<close>

lemma summary_values:
  assumes "\<forall>s \<in> set ss. wf_session s" "length ss < 2 ^ 30"
  shows "\<exists>a b c d. summary_percentile (latency_samples ss) 50 = Inr a \<and>
    summary_percentile (latency_samples ss) 99 = Inr b \<and>
    average p50 (latency_sessions ss) = Inr c \<and> average p99 (latency_sessions ss) = Inr d \<and>
    (if latency_samples ss = [] then a = JInt 0 \<and> b = JInt 0 \<and> c = JInt 0 \<and> d = JInt 0
     else \<exists>x y u v. x \<le> y \<and> a = JFloat x \<and> b = JFloat y \<and> c = JFloat u \<and> d = JFloat v)"
proof -
  let ?ls = "latency_sessions ss" and ?xs = "latency_samples ss"
  note known = latency_sessions_known [OF assms(1)]
  have nil: "?xs = [] \<longleftrightarrow> ?ls = []"
    using known(2) by (cases ?ls) (auto simp: latency_samples_def)
  have len: "length ?ls < 2 ^ 30"
    using assms(2) length_filter_le [of _ ss] by (metis latency_sessions_def le_less_trans)
  have "length ?xs \<le> length ?ls * 1000"
    using sum_list_bounded [of "map (\<lambda>s. length (lt_samples (st_latency (cs_stats s)))) ?ls" 1000] known(1)
    by (auto simp: latency_samples_def length_concat comp_def wf_latency_def)
  then have n: "int (length ?xs) * 99 < 2 ^ 53" using len by simp
  let ?lt = "\<lparr>lt_samples = ?xs, lt_max_samples = 1000\<rparr>"
  have client: "\<exists>v. percentile (st_latency (cs_stats s)) p = Inr v"
    if "s \<in> set ?ls" "0 \<le> p" "p \<le> 100" for s p
  proof -
    have "int (length (lt_samples (st_latency (cs_stats s)))) * p \<le> 1000 * 100"
      using known(1) [OF that(1)] that(2,3) by (intro mult_mono) (auto simp: wf_latency_def)
    then show ?thesis using percentile_sample [OF known(2) [OF that(1)] that(2,3)] by auto
  qed
  show ?thesis
  proof (cases "?xs = []")
    case True
    with nil have "?ls = []" by simp
    with True show ?thesis by (simp add: summary_percentile_def average_def)
  next
    case False
    with percentile_mono [of ?lt 50 99] n obtain x y where
      xy: "percentile ?lt 50 = Inr x" "percentile ?lt 99 = Inr y" "x \<le> y" by auto
    have "?ls \<noteq> []" using False nil by simp
    then obtain c d where "average p50 ?ls = Inr (JFloat c)" "average p99 ?ls = Inr (JFloat d)"
      using average_answers [of ?ls p50] average_answers [of ?ls p99] client len
      unfolding p50_def p99_def by fastforce
    with xy False show ?thesis by (simp add: summary_percentile_tracker [where m = 1000])
  qed
qed

text \<open>
  C25. The summary always answers: with fewer than \<open>2 ^ 30\<close> clients, each with its window of
  at most 1000 latencies, no index computed through floating point leaves its list and no
  division fails, so the response is 200: a message if no client is connected; zeros for the
  four latency figures while no client has a latency, as right after connecting; and
  otherwise floats, the overall median not above the overall 99th percentile.
\<close>

theorem metrics_summary_answers:
  assumes "\<forall>s \<in> set (map snd (sessions_of g)). wf_session s" "length (sessions_of g) < 2 ^ 30"
  shows "\<exists>a b c d. get_metrics_summary g = Respond 200 (JObj
    (if sessions_of g = [] then [(''message'', JStr ''no connected clients'')]
     else [(''clients'', JInt (int (length (sessions_of g)))),
       (''overall_p50_ms'', a), (''overall_p99_ms'', b),
       (''average_client_p50_ms'', c), (''average_client_p99_ms'', d),
       (''latency_samples'', JInt (int (length (latency_samples (map snd (sessions_of g)))))),
       (''total_sent'', JInt (int (total_of st_sent (map snd (sessions_of g))))),
       (''total_dropped'', JInt (int (total_of st_dropped (map snd (sessions_of g)))))])) \<and>
    (if latency_samples (map snd (sessions_of g)) = [] then a = JInt 0 \<and> b = JInt 0 \<and> c = JInt 0 \<and> d = JInt 0
     else \<exists>x y u v. x \<le> y \<and> a = JFloat x \<and> b = JFloat y \<and> c = JFloat u \<and> d = JFloat v)"
proof -
  have len: "length (map snd (sessions_of g)) < 2 ^ 30" using assms(2) by simp
  obtain a b c d where v: "summary_percentile (latency_samples (map snd (sessions_of g))) 50 = Inr a"
    "summary_percentile (latency_samples (map snd (sessions_of g))) 99 = Inr b"
    "average p50 (latency_sessions (map snd (sessions_of g))) = Inr c"
    "average p99 (latency_sessions (map snd (sessions_of g))) = Inr d"
    and z: "if latency_samples (map snd (sessions_of g)) = [] then a = JInt 0 \<and> b = JInt 0 \<and> c = JInt 0 \<and> d = JInt 0
     else \<exists>x y u v. x \<le> y \<and> a = JFloat x \<and> b = JFloat y \<and> c = JFloat u \<and> d = JFloat v"
    using summary_values [OF assms(1) len] by blast
  from v have "get_metrics_summary g = Respond 200 (JObj
    (if sessions_of g = [] then [(''message'', JStr ''no connected clients'')]
     else [(''clients'', JInt (int (length (sessions_of g)))),
       (''overall_p50_ms'', a), (''overall_p99_ms'', b),
       (''average_client_p50_ms'', c), (''average_client_p99_ms'', d),
       (''latency_samples'', JInt (int (length (latency_samples (map snd (sessions_of g)))))),
       (''total_sent'', JInt (int (total_of st_sent (map snd (sessions_of g))))),
       (''total_dropped'', JInt (int (total_of st_dropped (map snd (sessions_of g)))))]))"
    by (simp add: get_metrics_summary_def Let_def)
  with z show ?thesis by (intro exI conjI)
qed

section \<open>Labels\<close>

fun read_quoted :: "string \<Rightarrow> (string \<times> string) option" where
  \<comment> \<open>reads a quoted label value as the exposition format defines it: up to the first quote
    that no backslash precedes, and what is left behind it\<close>
  "read_quoted [] = None"
| "read_quoted (c # cs) =
     (if c = CHR 0x22 then Some ([], cs)
      else if c = CHR 0x5C then
        (case cs of [] \<Rightarrow> None | d # ds \<Rightarrow> map_option (\<lambda>(v, rest). (d # v, rest)) (read_quoted ds))
      else map_option (\<lambda>(v, rest). (c # v, rest)) (read_quoted cs))"

text \<open>
  A client's label survives the exposition format: whatever characters the identifier
  holds, reading the label back gives the identifier and leaves exactly what follows the
  label. Distinct clients have distinct labels.
\<close>

theorem client_label_reads_back:
  "\<exists>body. client_label cid @ rest = ''client_id='' @ [CHR 0x22] @ body \<and> read_quoted body = Some (cid, rest)"
proof -
  have "read_quoted (concat (map escape_char cid) @ [CHR 0x22] @ rest) = Some (cid, rest)"
    by (induction cid) (auto simp: escape_char_def)
  then show ?thesis by (simp add: client_label_def)
qed

section \<open>Witnesses\<close>


theorem history_serves_inserted_ticks_witness:
  "\<exists>ticks. length ticks = 2 \<and>
     fst (get_history None None ''a'' (Some (str_of_int 0)) (Some (str_of_int 5000)) (Some (str_of_int 10000))
       ((new_history_store None None)\<lparr>hs_pool := True\<rparr>)
       (Some (map exact_row [sample_event ''A'' 2, sample_event ''A'' 1]))) =
     Respond 200 (JObj [(''symbol'', JStr ''A''), (''from_ts'', JInt 0), (''to_ts'', JInt 5000),
       (''count'', JInt 2), (''ticks'', JList (map tick_json ticks))])"
proof -
  let ?es = "[sample_event ''A'' 2, sample_event ''A'' 1]"
  have up: "str_upper ''a'' = ''A''" by code_simp
  have es: "?es = filter (\<lambda>e. ev_symbol e = str_upper ''a'' \<and> 0 \<le> ev_event_ts e \<and> ev_event_ts e \<le> 5000) ?es"
    by (simp add: up) (simp add: sample_event_def)
  from history_serves_inserted_ticks [OF _ sample_events_ok _ sample_insert _ _ _ es]
  obtain ticks where "mset ticks = image_mset tick_of_event (mset ?es)"
    "fst (get_history None None ''a'' (Some (str_of_int 0)) (Some (str_of_int 5000)) (Some (str_of_int 10000))
       ((new_history_store None None)\<lparr>hs_pool := True\<rparr>) (Some (map exact_row ?es))) =
     Respond 200 (JObj [(''symbol'', JStr ''A''), (''from_ts'', JInt 0), (''to_ts'', JInt 5000),
       (''count'', JInt 2), (''ticks'', JList (map tick_json ticks))])"
    by (auto simp: decimal_def up)
  moreover from this(1) have "length ticks = 2" by (metis length_Cons list.size(3) mset_map numeral_2_eq_2 length_map mset_eq_length)
  ultimately show ?thesis by blast
qed

definition sample_metrics_gateway :: "pyfloat list \<Rightarrow> gateway" where
  \<comment> \<open>a gateway with one client whose latencies are given\<close>
  "sample_metrics_gateway xs = new_gateway\<lparr>gw_all := [(''c'', 0)],
     gw_heap := [0 \<mapsto> (new_session ''c'' DROP_OLDEST JSON (Fin 0))
       \<lparr>cs_stats := (new_client_stats (Fin 0))\<lparr>st_latency := \<lparr>lt_samples = xs, lt_max_samples = 1000\<rparr>\<rparr>\<rparr>]\<rparr>"

lemma sample_metrics_session:
  "sessions_of (sample_metrics_gateway xs) = [(''c'', (new_session ''c'' DROP_OLDEST JSON (Fin 0))
       \<lparr>cs_stats := (new_client_stats (Fin 0))\<lparr>st_latency := \<lparr>lt_samples = xs, lt_max_samples = 1000\<rparr>\<rparr>\<rparr>)]"
  by (simp add: sessions_of_def sample_metrics_gateway_def map_filter_def)

theorem metrics_summary_answers_witness:
  "(\<exists>x y kvs. x \<le> y \<and> get_metrics_summary (sample_metrics_gateway [Fin 3, Fin 1]) = Respond 200 (JObj kvs) \<and>
     dict_get kvs ''overall_p50_ms'' = Some (JFloat x) \<and> dict_get kvs ''overall_p99_ms'' = Some (JFloat y)) \<and>
   (\<exists>kvs. get_metrics_summary (sample_metrics_gateway []) = Respond 200 (JObj kvs) \<and>
     dict_get kvs ''average_client_p99_ms'' = Some (JInt 0))"
proof -
  have wf: "\<forall>s \<in> set (map snd (sessions_of (sample_metrics_gateway xs))). wf_session s" if "length xs \<le> 1000" for xs
    using wf_new_session [of "''c''" DROP_OLDEST JSON "Fin 0"] that
    by (simp add: sample_metrics_session) (simp add: wf_session_def wf_latency_def new_client_stats_def)
  have len: "length (sessions_of (sample_metrics_gateway xs)) < 2 ^ 30" for xs by (simp add: sample_metrics_session)
  have ne: "latency_samples (map snd (sessions_of (sample_metrics_gateway xs))) = [] \<longleftrightarrow> xs = []" for xs
    by (auto simp: sample_metrics_session latency_samples_def latency_sessions_def sample_count_def)
  from metrics_summary_answers [OF wf len, of "[Fin 3, Fin 1]"] metrics_summary_answers [OF wf len, of "[]"]
  show ?thesis unfolding ne by (force simp: dict_get_Cons sample_metrics_session)
qed

end
