(* ===== verification/Feed_Simulator.thy ===== *)
theory Feed_Simulator
  imports Session
begin

text \<open>
  \<open>src/feed/simulator.py\<close>: the producer of synthetic quotes. Each symbol has a price that
  walks randomly and a counter of its own. The random draws, the clock and the Kafka client
  are arguments: a \<open>draw\<close> holds what one call of \<open>_make_event\<close> and one of
  \<open>produce\<close> get from them.
\<close>

definition INITIAL_PRICES :: "(string, pyfloat) dict" where
  "INITIAL_PRICES =
     [(''AAPL'', Fin 189), (''TSLA'', Fin 175), (''GOOGL'', Fin 175), (''MSFT'', Fin 420),
      (''BTCUSD'', Fin 68000)]"

record simulator =
  sm_prices :: "(string, pyfloat) dict"
  sm_seq :: "(string, int) dict"

definition new_simulator :: simulator where
  "new_simulator = \<lparr>sm_prices = INITIAL_PRICES, sm_seq = map (\<lambda>(s, _). (s, 1)) INITIAL_PRICES\<rparr>"

record draw =
  dr_gauss :: pyfloat
  dr_bid_size :: int
  dr_ask_size :: int
  dr_time :: pyfloat
  dr_produce :: "unit result"

definition f_0_0002 :: pyfloat where "f_0_0002 = fl (2 / 10000)"

definition half :: "pyfloat \<Rightarrow> pyfloat" where
  \<comment> \<open>\<open>x / 2\<close>, which never raises\<close>
  "half x = (case f_div x (Fin 2) of Inr h \<Rightarrow> h | Inl _ \<Rightarrow> NaN)"

definition next_price :: "pyfloat \<Rightarrow> string \<Rightarrow> simulator \<Rightarrow> (pyfloat \<times> pyfloat) result \<times> simulator" where
  "next_price gauss symbol sm =
     (case dict_get (sm_prices sm) symbol of
        None \<Rightarrow> (Inl KeyError, sm)
      | Some price \<Rightarrow>
          (let mid = f_round 2 (f_mul price (f_add (Fin 1) gauss));
               spread = f_round 2 (f_mul mid f_0_0002);
               bid = f_round 2 (f_sub mid (half spread));
               ask = f_round 2 (f_add mid (half spread))
           in (Inr (bid, ask), sm\<lparr>sm_prices := dict_set symbol mid (sm_prices sm)\<rparr>)))"

definition make_event :: "draw \<Rightarrow> string \<Rightarrow> simulator \<Rightarrow> market_event result \<times> simulator" where
  "make_event d symbol sm =
     (case next_price (dr_gauss d) symbol sm of
        (Inl exc, sm1) \<Rightarrow> (Inl exc, sm1)
      | (Inr (bid, ask), sm1) \<Rightarrow>
          (case now_ms (dr_time d) of
             Inl exc \<Rightarrow> (Inl exc, sm1)
           | Inr now \<Rightarrow>
               (case dict_get (sm_seq sm1) symbol of
                  None \<Rightarrow> (Inl KeyError, sm1)
                | Some n \<Rightarrow>
                    (Inr \<lparr>ev_symbol = symbol, ev_bid = bid, ev_ask = ask, ev_bid_size = dr_bid_size d,
                       ev_ask_size = dr_ask_size d, ev_event_ts = now, ev_server_ts = now, ev_seq = n,
                       ev_type = QUOTE, ev_last_price = Fin 0, ev_last_size = 0\<rparr>,
                     sm1\<lparr>sm_seq := dict_set symbol (n + 1) (sm_seq sm1)\<rparr>))))"

text \<open>
  One pass of \<open>for symbol in symbols\<close> with one draw per symbol: the records produced (key
  and event), whether it raised, the simulator. The passes of \<open>run\<close> follow each other
  until one raises.
\<close>

fun feed_pass ::
  "(draw \<times> string) list \<Rightarrow> simulator \<Rightarrow> (string \<times> market_event) list \<times> unit result \<times> simulator" where
  "feed_pass [] sm = ([], Inr (), sm)"
| "feed_pass ((d, symbol) # ps) sm =
     (case make_event d symbol sm of
        (Inl exc, sm1) \<Rightarrow> ([], Inl exc, sm1)
      | (Inr e, sm1) \<Rightarrow>
          (case dr_produce d of
             Inl exc \<Rightarrow> ([], Inl exc, sm1)
           | Inr _ \<Rightarrow> (case feed_pass ps sm1 of (sent, r, sm2) \<Rightarrow> ((symbol, e) # sent, r, sm2))))"

fun run_feed ::
  "draw list list \<Rightarrow> simulator \<Rightarrow> (string \<times> market_event) list \<times> unit result \<times> simulator" where
  "run_feed [] sm = ([], Inr (), sm)"
| "run_feed (ds # dss) sm =
     (case feed_pass (zip ds (dict_keys INITIAL_PRICES)) sm of
        (sent, Inl exc, sm1) \<Rightarrow> (sent, Inl exc, sm1)
      | (sent, Inr _, sm1) \<Rightarrow> (case run_feed dss sm1 of (sent', r, sm2) \<Rightarrow> (sent @ sent', r, sm2)))"

section \<open>Quotes\<close>

text \<open>In the linear order on floats NaN is the greatest, so \<open>Fin 0 \<le> x\<close> says: not negative.\<close>

lemma f_round_nonneg: "Fin 0 \<le> x \<Longrightarrow> Fin 0 \<le> f_round 2 x"
  using f_round_mono_all [of "Fin 0" x 2] rne_of_int [of 0] by simp

lemma f_mul_nonneg: "Fin 0 \<le> x \<Longrightarrow> Fin 0 \<le> y \<Longrightarrow> Fin 0 \<le> f_mul x y"
  using fl_mono [of 0] by (cases x; cases y) (auto simp: f_sgn_inf_def)

lemma half_nonneg: "Fin 0 \<le> x \<Longrightarrow> Fin 0 \<le> half x"
  using fl_mono [of 0] by (cases x) (auto simp: half_def f_sgn_inf_def)

lemma not_f_lt: "x \<le> y \<Longrightarrow> \<not> f_lt y x"
  by (cases x; cases y) auto

lemma quotes_not_crossed:
  assumes "Fin 0 \<le> mid" "Fin 0 \<le> h"
  shows "\<not> f_lt (f_round 2 (f_add mid h)) (f_round 2 (f_sub mid h))"
proof (cases mid; cases h)
  fix m k assume mk: "mid = Fin m" "h = Fin k"
  with assms have "f_sub mid h \<le> f_add mid h" by (simp add: fl_mono)
  then show ?thesis by (intro not_f_lt f_round_mono_all)
qed (use assms in \<open>auto simp: f_sub_def\<close>)

lemma f_0_0002_nonneg: "Fin 0 \<le> f_0_0002"
  using fl_mono [of 0 "2 / 10000"] by (simp add: f_0_0002_def)

definition prices_ok :: "simulator \<Rightarrow> bool" where
  "prices_ok sm \<longleftrightarrow> (\<forall>s p. dict_get (sm_prices sm) s = Some p \<longrightarrow> Fin 0 \<le> p)"

definition gauss_ok :: "draw \<Rightarrow> bool" where
  \<comment> \<open>the price does not fall by more than it is\<close>
  "gauss_ok d \<longleftrightarrow> (\<exists>g. dr_gauss d = Fin g \<and> - 1 \<le> g)"

lemma make_event_effect:
  assumes "make_event d symbol sm = (r, sm')"
  shows "(\<forall>e. r = Inr e \<longrightarrow> ev_symbol e = symbol \<and> ev_event_ts e = ev_server_ts e \<and>
      dict_get (sm_seq sm) symbol = Some (ev_seq e) \<and>
      dict_get (sm_seq sm') = (dict_get (sm_seq sm))(symbol \<mapsto> ev_seq e + 1)) \<and>
    (\<forall>exc. r = Inl exc \<longrightarrow> sm_seq sm' = sm_seq sm)"
  using assms
  by (auto simp: make_event_def next_price_def Let_def dict_get_set split: option.splits sum.splits prod.splits)

lemma make_event_quotes:
  assumes "make_event d symbol sm = (r, sm')" "prices_ok sm" "gauss_ok d"
  shows "prices_ok sm' \<and> (\<forall>e. r = Inr e \<longrightarrow> \<not> f_lt (ev_ask e) (ev_bid e))"
proof (cases "dict_get (sm_prices sm) symbol")
  case None
  with assms show ?thesis by (auto simp: make_event_def next_price_def)
next
  case (Some price)
  define mid where "mid = f_round 2 (f_mul price (f_add (Fin 1) (dr_gauss d)))"
  have "Fin 0 \<le> f_add (Fin 1) (dr_gauss d)"
    using assms(3) fl_mono [of 0] by (auto simp: gauss_ok_def)
  moreover have "Fin 0 \<le> price" using assms(2) Some by (auto simp: prices_ok_def)
  ultimately have mid: "Fin 0 \<le> mid" unfolding mid_def by (intro f_round_nonneg f_mul_nonneg)
  then have "Fin 0 \<le> half (f_round 2 (f_mul mid f_0_0002))"
    by (intro half_nonneg f_round_nonneg f_mul_nonneg f_0_0002_nonneg)
  note quotes = quotes_not_crossed [OF mid this]
  have "sm_prices sm' = dict_set symbol mid (sm_prices sm)"
    using assms(1) Some by (auto simp: make_event_def next_price_def Let_def mid_def split: option.splits sum.splits)
  with mid assms(2) have "prices_ok sm'" by (auto simp: prices_ok_def dict_get_set)
  moreover have "r = Inr e \<Longrightarrow> ev_bid e = f_round 2 (f_sub mid (half (f_round 2 (f_mul mid f_0_0002)))) \<and>
      ev_ask e = f_round 2 (f_add mid (half (f_round 2 (f_mul mid f_0_0002))))" for e
    using assms(1) Some by (auto simp: make_event_def next_price_def Let_def mid_def split: option.splits sum.splits)
  ultimately show ?thesis using quotes by auto
qed

section \<open>The stream of a symbol\<close>

text \<open>
  What a stretch of the feed sends for a symbol, against the counter before and after: its
  numbers follow each other from the counter on. Where the stretch ends with an exception,
  the counter may be one ahead.
\<close>

definition sent_for :: "string \<Rightarrow> (string \<times> market_event) list \<Rightarrow> market_event list" where
  "sent_for sy sent = filter (\<lambda>e. ev_symbol e = sy) (map snd sent)"

definition continues :: "string \<Rightarrow> simulator \<Rightarrow> (string \<times> market_event) list \<Rightarrow> unit result \<Rightarrow> simulator \<Rightarrow> bool" where
  "continues sy sm sent r sm' \<longleftrightarrow>
     (\<forall>(k, e) \<in> set sent. k = ev_symbol e \<and> ev_event_ts e = ev_server_ts e) \<and>
     (\<forall>n. dict_get (sm_seq sm) sy = Some n \<longrightarrow>
        map ev_seq (sent_for sy sent) = map (\<lambda>i. n + int i) [0..<length (sent_for sy sent)] \<and>
        (\<forall>x. r = Inr x \<longrightarrow> dict_get (sm_seq sm') sy = Some (n + int (length (sent_for sy sent)))))"

lemma upt_shift: "map (\<lambda>i. n + int i) [0..<Suc k] = n # map (\<lambda>i. n + 1 + int i) [0..<k]"
  by (simp add: upt_conv_Cons map_Suc_upt [symmetric] del: upt_Suc)

lemma feed_pass_continues:
  "feed_pass ps sm = (sent, r, sm') \<Longrightarrow> continues sy sm sent r sm'"
proof (induction ps arbitrary: sm sent r sm')
  case Nil
  then show ?case by (simp add: continues_def sent_for_def)
next
  case (Cons p ps)
  obtain d symbol where p: "p = (d, symbol)" by (cases p)
  obtain q sm1 where m: "make_event d symbol sm = (q, sm1)" by (cases "make_event d symbol sm")
  note eff = make_event_effect [OF m]
  show ?case
  proof (cases "\<exists>e. q = Inr e \<and> dr_produce d = Inr ()")
    case False
    then consider exc where "q = Inl exc" | e exc where "q = Inr e" "dr_produce d = Inl exc"
      by (metis (full_types) old.unit.exhaust sum.exhaust)
    then have "sent = [] \<and> (\<exists>exc. r = Inl exc)"
    proof cases
      case (2 e exc)
      then have "feed_pass (p # ps) sm = ([], Inl exc, sm1)" using p m by simp
      with Cons.prems show ?thesis by (metis Pair_inject)
    qed (use Cons.prems p m in auto)
    then show ?thesis by (auto simp: continues_def sent_for_def)
  next
    case True
    then obtain e sent2 where e: "q = Inr e" "feed_pass ps sm1 = (sent2, r, sm')" "sent = (symbol, e) # sent2"
      using Cons.prems p m by (auto split: prod.splits)
    from Cons.IH [OF e(2)] eff e(1,3) show ?thesis
      unfolding continues_def sent_for_def by (auto simp: upt_shift simp del: upt_Suc)
  qed
qed

lemma continues_append:
  assumes "continues sy sm s1 (Inr x) sm1" "continues sy sm1 s2 r sm2"
  shows "continues sy sm (s1 @ s2) r sm2"
proof -
  have "map (\<lambda>i. n + int i) [0..<a + b] = map (\<lambda>i. n + int i) [0..<a] @ map (\<lambda>i. n + int a + int i) [0..<b]"
    for n a b
    by (rule nth_equalityI) (auto simp: nth_append)
  with assms show ?thesis unfolding continues_def sent_for_def by (auto simp: add.assoc)
qed

lemma run_feed_continues:
  "run_feed dss sm = (sent, r, sm') \<Longrightarrow> continues sy sm sent r sm'"
proof (induction dss arbitrary: sm sent r sm')
  case Nil
  then show ?case by (simp add: continues_def sent_for_def)
next
  case (Cons ds dss)
  obtain s1 q sm1 where f: "feed_pass (zip ds (dict_keys INITIAL_PRICES)) sm = (s1, q, sm1)"
    by (cases "feed_pass (zip ds (dict_keys INITIAL_PRICES)) sm")
  note c = feed_pass_continues [OF f, of sy]
  show ?case
  proof (cases q)
    case (Inl exc)
    with f Cons.prems c show ?thesis by simp
  next
    case (Inr x)
    with f Cons.prems obtain s2 where "run_feed dss sm1 = (s2, r, sm')" "sent = s1 @ s2"
      by (auto split: prod.splits)
    with Cons.IH continues_append [OF c [unfolded Inr]] show ?thesis by simp
  qed
qed

lemma feed_pass_quotes:
  "feed_pass ps sm = (sent, r, sm') \<Longrightarrow> prices_ok sm \<Longrightarrow> \<forall>p \<in> set ps. gauss_ok (fst p) \<Longrightarrow>
     prices_ok sm' \<and> (\<forall>p \<in> set sent. \<not> f_lt (ev_ask (snd p)) (ev_bid (snd p)))"
proof (induction ps arbitrary: sm sent r sm')
  case (Cons p ps)
  obtain d symbol where p: "p = (d, symbol)" by (cases p)
  obtain q sm1 where m: "make_event d symbol sm = (q, sm1)" by (cases "make_event d symbol sm")
  from Cons.prems(3) p have "gauss_ok d" by simp
  from make_event_quotes [OF m Cons.prems(2) this] Cons.IH [of sm1] Cons.prems p m show ?case
    by (auto split: sum.splits prod.splits)
qed simp

lemma run_feed_quotes:
  "run_feed dss sm = (sent, r, sm') \<Longrightarrow> prices_ok sm \<Longrightarrow> \<forall>ds \<in> set dss. \<forall>d \<in> set ds. gauss_ok d \<Longrightarrow>
     prices_ok sm' \<and> (\<forall>p \<in> set sent. \<not> f_lt (ev_ask (snd p)) (ev_bid (snd p)))"
proof (induction dss arbitrary: sm sent r sm')
  case (Cons ds dss)
  obtain s1 q sm1 where f: "feed_pass (zip ds (dict_keys INITIAL_PRICES)) sm = (s1, q, sm1)"
    by (cases "feed_pass (zip ds (dict_keys INITIAL_PRICES)) sm")
  have "\<forall>p \<in> set (zip ds (dict_keys INITIAL_PRICES)). gauss_ok (fst p)"
    using Cons.prems(3) by (auto dest: set_zip_leftD)
  from feed_pass_quotes [OF f Cons.prems(2) this] Cons.IH [of sm1] Cons.prems f show ?case
    by (cases q) (fastforce split: prod.splits)+
qed simp

lemma accepts_contiguous:
  "cs_last_seq s sy = Some (n - 1) \<Longrightarrow>
     fst (accept_stream True sy (map (\<lambda>i. n + int i) [0..<k]) s) = map (\<lambda>i. n + int i) [0..<k]"
proof (induction k arbitrary: s n)
  case (Suc k)
  have "classify_sequence sy n True s = (NEXT, set_last_seq sy n s)"
    using Suc.prems by (simp add: classify_sequence_def)
  with Suc.IH [of "set_last_seq sy n s" "n + 1"] show ?case
    by (simp add: upt_shift case_prod_beta del: upt_Suc)
qed simp

lemma accepts_from_first:
  assumes "cs_last_seq s sy = None"
  shows "fst (accept_stream True sy (map (\<lambda>i. n + int i) [0..<k]) s) = map (\<lambda>i. n + int i) [0..<k]"
proof (cases k)
  case (Suc j)
  have "classify_sequence sy n True s = (NEXT, set_last_seq sy n s)"
    using assms by (simp add: classify_sequence_def)
  with Suc accepts_contiguous [of "set_last_seq sy n s" sy "n + 1" j] show ?thesis
    by (simp add: upt_shift case_prod_beta del: upt_Suc)
qed simp

text \<open>
  C24. The simulated feed is what the platform asks of an upstream: however long it runs and
  wherever it fails, every record is keyed by its symbol, the numbers sent for a symbol
  count up from 1 without a gap, and no quote is crossed, as long as no random step takes a
  price below zero. A RAW client that sees a symbol's stream from its start accepts all of
  it.
\<close>

theorem simulated_feed_has_no_gaps:
  assumes "run_feed dss new_simulator = (sent, r, sm)" "\<forall>ds \<in> set dss. \<forall>d \<in> set ds. gauss_ok d"
    "sy \<in> set (dict_keys INITIAL_PRICES)" "cs_last_seq s sy = None"
  shows "(\<forall>(key, e) \<in> set sent. key = ev_symbol e \<and> ev_event_ts e = ev_server_ts e \<and>
      \<not> f_lt (ev_ask e) (ev_bid e)) \<and>
    map ev_seq (sent_for sy sent) = map (\<lambda>i. 1 + int i) [0..<length (sent_for sy sent)] \<and>
    fst (accept_stream True sy (map ev_seq (sent_for sy sent)) s) = map ev_seq (sent_for sy sent)"
proof -
  have start: "dict_get (sm_seq new_simulator) sy = Some 1"
    using assms(3) by (auto simp: new_simulator_def INITIAL_PRICES_def dict_keys_def dict_get_Cons)
  have prices: "prices_ok new_simulator"
    by (auto simp: prices_ok_def new_simulator_def INITIAL_PRICES_def dict_get_Cons split: if_splits)
  from run_feed_continues [OF assms(1), of sy] start have
    c: "\<forall>(k, e) \<in> set sent. k = ev_symbol e \<and> ev_event_ts e = ev_server_ts e"
      "map ev_seq (sent_for sy sent) = map (\<lambda>i. 1 + int i) [0..<length (sent_for sy sent)]"
    by (auto simp: continues_def)
  with run_feed_quotes [OF assms(1) prices assms(2)] accepts_from_first [OF assms(4), of 1]
  show ?thesis by fastforce
qed

definition sample_draw :: draw where
  "sample_draw = \<lparr>dr_gauss = Fin 0, dr_bid_size = 100, dr_ask_size = 200, dr_time = Fin 1,
     dr_produce = Inr ()\<rparr>"

theorem simulated_feed_has_no_gaps_witness:
  "\<exists>sent r sm. run_feed [replicate 5 sample_draw, replicate 5 sample_draw] new_simulator = (sent, r, sm) \<and>
     map ev_seq (sent_for ''AAPL'' sent) = map (\<lambda>i. 1 + int i) [0..<length (sent_for ''AAPL'' sent)]"
proof -
  obtain sent r sm where f: "run_feed [replicate 5 sample_draw, replicate 5 sample_draw] new_simulator = (sent, r, sm)"
    by (metis prod_cases3)
  have g: "\<forall>ds \<in> set [replicate 5 sample_draw, replicate 5 sample_draw]. \<forall>d \<in> set ds. gauss_ok d"
    by (simp add: sample_draw_def gauss_ok_def)
  have k: "''AAPL'' \<in> set (dict_keys INITIAL_PRICES)" by (simp add: INITIAL_PRICES_def dict_keys_def)
  have n: "cs_last_seq (new_session ''c'' DROP_OLDEST JSON (Fin 0)) ''AAPL'' = None"
    by (simp add: new_session_def)
  from simulated_feed_has_no_gaps [OF f g k n] f show ?thesis by blast
qed

end
