(* ===== verification/Load_Bench.thy ===== *)
theory Load_Bench
  imports Session_Turns
begin

text \<open>
  \<open>src/benchmark/load_bench.py\<close>: the clients that check what the gateway delivers. A
  client decodes every frame, remembers the greatest sequence number of each symbol, and
  counts frames that regress or are malformed; a scenario adds its clients up and is
  invalid if any of them complains. Frames, clock readings and failures of the connection
  are arguments; \<open>show\<close> is the text of an exception.

  The last section runs such a client against the session model: it finds no regression in
  what the gateway sends, and counts as malformed the error replies and nothing else.
\<close>

definition DURATION_SEC :: int where "DURATION_SEC = 15"

record client_result =
  cr_client_id :: nat
  cr_received :: nat
  cr_malformed :: nat
  cr_regressions :: nat
  cr_latencies :: "pyfloat list"
  cr_error :: "string option"

definition new_client_result :: "nat \<Rightarrow> client_result" where
  "new_client_result i = \<lparr>cr_client_id = i, cr_received = 0, cr_malformed = 0, cr_regressions = 0,
     cr_latencies = [], cr_error = None\<rparr>"

definition bench_percentile :: "pyfloat list \<Rightarrow> int \<Rightarrow> pyfloat result" where
  "bench_percentile values p =
     (if values = [] then Inr (Fin 0)
      else let ordered = sort values
           in bindE (f_int_div (int (length ordered) * p) 100) (\<lambda>x.
              bindE (f_int x) (\<lambda>i.
              bindE (py_index ordered (min i (int (length ordered) - 1))) (\<lambda>v. Inr (f_round 2 v)))))"

section \<open>One client\<close>

fun hash_key :: "json \<Rightarrow> json option" where
  \<comment> \<open>a JSON value as a dictionary key: equal numbers are one key, containers cannot be hashed\<close>
  "hash_key (JBool b) = Some (JInt (if b then 1 else 0))"
| "hash_key (JFloat (Fin x)) = Some (if x = of_int \<lfloor>x\<rfloor> then JInt \<lfloor>x\<rfloor> else JFloat (Fin x))"
| "hash_key (JList xs) = None"
| "hash_key (JObj kvs) = None"
| "hash_key v = Some v"

record bench_state =
  bs_result :: client_result
  bs_last :: "json \<rightharpoonup> int"

definition malformed :: "bench_state \<Rightarrow> bench_state" where
  "malformed b = b\<lparr>bs_result := (bs_result b)\<lparr>cr_malformed := Suc (cr_malformed (bs_result b))\<rparr>\<rparr>"

definition received :: "bench_state \<Rightarrow> bench_state" where
  "received b = b\<lparr>bs_result := (bs_result b)\<lparr>cr_received := Suc (cr_received (bs_result b))\<rparr>\<rparr>"

definition note_seq :: "json \<Rightarrow> int \<Rightarrow> bench_state \<Rightarrow> bench_state" where
  \<comment> \<open>the regression test and \<open>last_seq[symbol] = max(seq, previous or seq)\<close>; a NaN is
    never found again\<close>
  "note_seq key sq b =
     (let previous = (if key = JFloat NaN then None else bs_last b key);
          b1 = (case previous of
                  Some p \<Rightarrow> if sq < p then b\<lparr>bs_result := (bs_result b)\<lparr>cr_regressions :=
                      Suc (cr_regressions (bs_result b))\<rparr>\<rparr> else b
                | None \<Rightarrow> b);
          top = (case previous of None \<Rightarrow> sq | Some p \<Rightarrow> max sq (if p = 0 then sq else p))
      in b1\<lparr>bs_last := (bs_last b1)(key \<mapsto> top)\<rparr>)"

definition note_latency :: "pyfloat \<Rightarrow> json \<Rightarrow> bench_state \<Rightarrow> bench_state result" where
  "note_latency time event_ts b =
     (if event_ts = JNull then Inr b
      else bindE (json_int event_ts) (\<lambda>n.
           bindE (f_of_int n) (\<lambda>ts.
             let latency = f_sub (f_mul time (Fin 1000)) ts
             in Inr (if f_is_finite latency
                     then b\<lparr>bs_result := (bs_result b)\<lparr>cr_latencies := cr_latencies (bs_result b) @ [latency]\<rparr>\<rparr>
                     else b))))"

definition caught :: "py_exn \<Rightarrow> bool" where
  \<comment> \<open>the inner \<open>except\<close>; a decoding error is a \<open>ValueError\<close>\<close>
  "caught exc \<longleftrightarrow> exc \<in> {KeyError, TypeError, ValueError, OtherError ''JSONDecodeError''}"

definition raised :: "py_exn \<Rightarrow> bench_state \<Rightarrow> py_exn option \<times> bench_state" where
  "raised exc b = (if caught exc then (None, malformed b) else (Some exc, b))"

text \<open>One frame: the exception that leaves the inner \<open>try\<close>, if any, and the state.\<close>

definition bench_frame :: "json result \<Rightarrow> pyfloat \<Rightarrow> bench_state \<Rightarrow> py_exn option \<times> bench_state" where
  "bench_frame loaded time b =
     (case bindE loaded (\<lambda>m.
           bindE (json_get m ''symbol'' JNull) (\<lambda>symbol.
           bindE (bindE (json_item m ''seq'') json_int) (\<lambda>sq.
           bindE (json_get m ''event_ts'' JNull) (\<lambda>ts.
             case hash_key symbol of None \<Rightarrow> Inl TypeError | Some key \<Rightarrow> Inr (key, sq, ts))))) of
        Inl exc \<Rightarrow> raised exc b
      | Inr (key, sq, ts) \<Rightarrow>
          (let b1 = note_seq key sq b
           in case note_latency time ts b1 of
                Inl exc \<Rightarrow> raised exc b1
              | Inr b2 \<Rightarrow> (None, received b2)))"

datatype bench_input =
    BenchFrame "json result" pyfloat
  | BenchStops
  | BenchRaises py_exn

definition connection_error :: "(py_exn \<Rightarrow> string) \<Rightarrow> py_exn \<Rightarrow> bench_state \<Rightarrow> client_result" where
  "connection_error show exc b =
     (bs_result b)\<lparr>cr_error := Some (''client '' @ str_of_int (int (cr_client_id (bs_result b))) @ '': '' @ show exc)\<rparr>"

fun run_bench :: "(py_exn \<Rightarrow> string) \<Rightarrow> bench_input list \<Rightarrow> bench_state \<Rightarrow> client_result" where
  \<comment> \<open>\<open>run_client\<close> along its frames, up to the deadline or a failure of the connection\<close>
  "run_bench show [] b = bs_result b"
| "run_bench show (BenchStops # ins) b = bs_result b"
| "run_bench show (BenchRaises exc # ins) b = connection_error show exc b"
| "run_bench show (BenchFrame loaded time # ins) b =
     (case bench_frame loaded time b of
        (None, b1) \<Rightarrow> run_bench show ins b1
      | (Some exc, b1) \<Rightarrow> connection_error show exc b1)"

definition bench_client :: "(py_exn \<Rightarrow> string) \<Rightarrow> nat \<Rightarrow> bench_input list \<Rightarrow> client_result" where
  "bench_client show i ins = run_bench show ins \<lparr>bs_result = new_client_result i, bs_last = Map.empty\<rparr>"

section \<open>A scenario\<close>

record scenario_result =
  sc_n_clients :: nat
  sc_p50_ms :: pyfloat
  sc_p99_ms :: pyfloat
  sc_total_sent :: json
  sc_total_dropped :: json
  sc_throughput_eps :: pyfloat
  sc_duration_sec :: int
  sc_received :: nat
  sc_malformed :: nat
  sc_regressions :: nat
  sc_errors :: "string list"

fun join_with :: "string \<Rightarrow> string list \<Rightarrow> string" where
  "join_with sep [] = []"
| "join_with sep [s] = s"
| "join_with sep (s # ss) = s @ sep @ join_with sep ss"

definition sum_of :: "(client_result \<Rightarrow> nat) \<Rightarrow> client_result list \<Rightarrow> nat" where
  "sum_of f rs = sum_list (map f rs)"

definition scenario_errors :: "client_result list \<Rightarrow> string list" where
  "scenario_errors rs =
     (let failed = List.map_filter (\<lambda>r. case cr_error r of Some (c # e) \<Rightarrow> Some (c # e) | _ \<Rightarrow> None) rs;
          silent = map (\<lambda>r. str_of_int (int (cr_client_id r))) (filter (\<lambda>r. cr_received r = 0) rs);
          bad = sum_of cr_malformed rs; back = sum_of cr_regressions rs
      in failed
         @ (if silent = [] then [] else [''clients received no frames: '' @ join_with '', '' silent])
         @ (if bad = 0 then [] else [''malformed frames: '' @ str_of_int (int bad)])
         @ (if back = 0 then [] else [''sequence regressions: '' @ str_of_int (int back)]))"

definition run_scenario :: "nat \<Rightarrow> client_result list \<Rightarrow> json result \<Rightarrow> scenario_result result" where
  \<comment> \<open>from the clients' results and what \<open>/metrics/summary\<close> answered\<close>
  "run_scenario n rs fetched =
     (let metrics = (case fetched of Inl _ \<Rightarrow> JObj [] | Inr m \<Rightarrow> m);
          latencies = concat (map cr_latencies rs)
      in bindE (bench_percentile latencies 50) (\<lambda>a.
         bindE (bench_percentile latencies 99) (\<lambda>b.
         bindE (json_get metrics ''total_sent'' (JInt 0)) (\<lambda>sent.
         bindE (json_get metrics ''total_dropped'' (JInt 0)) (\<lambda>dropped.
         bindE (f_int_div (int (sum_of cr_received rs)) DURATION_SEC) (\<lambda>eps.
           Inr \<lparr>sc_n_clients = n, sc_p50_ms = a, sc_p99_ms = b, sc_total_sent = sent,
             sc_total_dropped = dropped, sc_throughput_eps = f_round 1 eps,
             sc_duration_sec = DURATION_SEC, sc_received = sum_of cr_received rs, sc_malformed = sum_of cr_malformed rs,
             sc_regressions = sum_of cr_regressions rs, sc_errors = scenario_errors rs\<rparr>))))))"

definition scenario_verdict :: "scenario_result \<Rightarrow> string option" where
  \<comment> \<open>what \<open>main\<close> raises about a scenario, if anything\<close>
  "scenario_verdict r =
     (if sc_errors r = [] then None
      else Some (''Scenario with '' @ str_of_int (int (sc_n_clients r)) @ '' clients is invalid: ''
             @ join_with ''; '' (sc_errors r)))"

fun run_scenarios ::
  "(nat \<Rightarrow> scenario_result result) \<Rightarrow> nat list \<Rightarrow> scenario_result list \<times> unit result" where
  \<comment> \<open>the loop of \<open>main\<close> over the client counts: the results it has collected, and whether
    it raised\<close>
  "run_scenarios run [] = ([], Inr ())"
| "run_scenarios run (n # ns) =
     (case run n of
        Inl exc \<Rightarrow> ([], Inl exc)
      | Inr r \<Rightarrow>
          (if scenario_verdict r \<noteq> None then ([r], Inl RuntimeError)
           else case run_scenarios run ns of (rs, outcome) \<Rightarrow> (r # rs, outcome)))"

text \<open>Only a scenario with errors stops the benchmark, and then it is the last one run.\<close>

lemma run_scenarios_results:
  "run_scenarios run ns = (rs, outcome) \<Longrightarrow>
     (outcome = Inr () \<longrightarrow> map Inr rs = map run ns \<and> (\<forall>r \<in> set rs. sc_errors r = [])) \<and>
     (outcome = Inl RuntimeError \<and> (\<forall>n. run n \<noteq> Inl RuntimeError) \<longrightarrow> rs \<noteq> [] \<and> sc_errors (last rs) \<noteq> [])"
proof (induction ns arbitrary: rs outcome)
  case (Cons n ns)
  obtain rs' out where r: "run_scenarios run ns = (rs', out)" by (cases "run_scenarios run ns")
  from Cons.IH [OF r] Cons.prems r show ?case
    by (auto simp: scenario_verdict_def split: sum.splits if_splits)
qed auto

section \<open>What the gateway sends\<close>

definition market_message :: "message \<Rightarrow> bool" where
  "market_message m \<longleftrightarrow> (\<exists>e. m = event_to_dict e) \<or> (\<exists>sn. m = snapshot_message sn)"

definition gateway_message :: "message \<Rightarrow> bool" where
  "gateway_message m \<longleftrightarrow> market_message m \<or> (\<exists>t. m = error_message t)"

definition speaks_market :: "client_session \<Rightarrow> bool" where
  "speaks_market s \<longleftrightarrow> (\<forall>m \<in> set (q_items (cs_queue s)). gateway_message m)"

lemma market_messages [simp]: "gateway_message (event_to_dict e)" "gateway_message (snapshot_message sn)"
    "gateway_message (error_message t)"
  by (auto simp: gateway_message_def market_message_def)

lemma speaks_market_enqueue:
  assumes "speaks_market s" "gateway_message m"
  shows "speaks_market (snd (enqueue m s))"
  using assms
  by (auto simp: enqueue_def speaks_market_def Let_def bump_dropped_def
      dest!: put_nowait_items get_nowait_items split: option.splits slow_consumer_policy.splits)

lemma speaks_market_frame [simp]:
  "speaks_market (set_last_seq sy n s) = speaks_market s"
  "speaks_market (set_last_price sy p s) = speaks_market s"
  "speaks_market (bump_gaps s) = speaks_market s" "speaks_market (mark_delivered e s) = speaks_market s"
  "speaks_market (s\<lparr>cs_aggregator := ag\<rparr>) = speaks_market s"
  "speaks_market (push_event e s) = speaks_market s" "speaks_market (flush_client s) = speaks_market s"
  by (simp_all add: speaks_market_def push_event_def flush_client_def bump_gaps_def)

lemma speaks_market_classify: "speaks_market (snd (classify_sequence sy n raw s)) = speaks_market s"
  by (simp add: classify_sequence_def split: option.split)

lemma speaks_market_deliver: "speaks_market s \<Longrightarrow> speaks_market (snd (deliver_event e s))"
  by (auto simp: deliver_event_def case_prod_beta speaks_market_enqueue split: sum.split)

lemma speaks_market_event: "speaks_market s \<Longrightarrow> speaks_market (snd (dispatch_event raw e s))"
  using speaks_market_classify [of "ev_symbol e" "ev_seq e" raw s]
  by (auto simp: dispatch_event_def case_prod_beta speaks_market_deliver split: sequence_decision.split)

lemma speaks_market_turn: "speaks_market s \<Longrightarrow> speaks_market (snd (dispatch_turn s))"
  by (simp add: dispatch_turn_def speaks_market_event split: option.split prod.split)

lemma speaks_market_snapshot: "speaks_market s \<Longrightarrow> speaks_market (snd (dispatch_snapshot sy f s))"
  by (auto simp: dispatch_snapshot_def case_prod_beta speaks_market_enqueue split: sum.split option.split)

lemma speaks_market_writer:
  assumes "speaks_market s"
  shows "speaks_market (snd (writer_turn o' time s)) \<and> (\<forall>m. fst (writer_turn o' time s) = Some m \<longrightarrow> gateway_message m)"
  using assms
  by (auto simp: writer_turn_def Let_def speaks_market_def bump_sent_def dest!: get_nowait_items
      split: option.splits send_outcome.splits)

lemma speaks_market_step:
  assumes "speaks_market s"
  shows "speaks_market (snd (client_step t (ph, s))) \<and> (\<forall>m \<in> set (sent_by t s). gateway_message m)"
proof (cases t)
  case (WriterTurn o' time)
  with speaks_market_writer [OF assms] show ?thesis by (auto split: option.splits)
qed (cases ph; use assms in \<open>simp add: speaks_market_turn speaks_market_snapshot\<close>)+

lemma speaks_market_enter [simp]: "speaks_market (enter_symbol sy flt snap es s) = speaks_market s"
  by (simp add: speaks_market_def enter_symbol_frame)

lemma speaks_market_subscribe: "speaks_market s \<Longrightarrow> speaks_market (subscribe_session sy flt snap es s)"
  by (auto simp: subscribe_session_def case_prod_beta speaks_market_enqueue split: option.split bool.split)

lemma speaks_market_session:
  assumes "speaks_market s"
  shows "speaks_market (snd (session_step t (ph, s))) \<and> (\<forall>m \<in> set (sent_in t s). gateway_message m)"
proof (cases t)
  case (TaskTurn c)
  with speaks_market_step [OF assms, of c ph] show ?thesis by simp
next
  case Leaves
  with assms show ?thesis by (cases ph) (simp_all add: end_aggregator_def)
qed (use assms in \<open>simp_all add: speaks_market_enqueue speaks_market_subscribe,
    simp_all add: speaks_market_def forget_symbol_def close_session_def\<close>)

lemma run_session_market:
  "run_session ts (ph, s) = (sent, ph', s') \<Longrightarrow> speaks_market s \<Longrightarrow> \<forall>m \<in> set sent. gateway_message m"
proof (induction ts arbitrary: ph s sent)
  case (Cons t ts)
  obtain ph1 s1 where c: "session_step t (ph, s) = (ph1, s1)" by (cases "session_step t (ph, s)")
  with Cons.prems obtain sent2 where r: "run_session ts (ph1, s1) = (sent2, ph', s')" "sent = sent_in t s @ sent2"
    by (auto split: prod.splits)
  from speaks_market_session [OF Cons.prems(2), of t ph] c Cons.IH [OF r(1)] r(2) show ?case by auto
qed simp

lemma market_message_fields:
  assumes "market_message m"
  obtains sy n ts where "dict_get m ''symbol'' = Some (JStr sy)" "dict_get m ''seq'' = Some (JInt n)"
    "(case dict_get m ''event_ts'' of None \<Rightarrow> JNull | Some v \<Rightarrow> v) = ts" "ts = JNull \<or> (\<exists>k. ts = JInt k)"
    "\<And>t. msg_seq t m = (if sy = t then Some n else None)"
proof -
  from assms consider e where "m = event_to_dict e" | sn where "m = snapshot_message sn"
    by (auto simp: market_message_def)
  then show ?thesis
  proof cases
    case (1 e)
    then show ?thesis by (intro that [of "ev_symbol e" "ev_seq e" "JInt (ev_event_ts e)"]) simp_all
  next
    case (2 sn)
    have "dict_get (snapshot_message sn) ''symbol'' = Some (JStr (sn_symbol sn))"
      "dict_get (snapshot_message sn) ''seq'' = Some (JInt (sn_seq sn))"
      "dict_get (snapshot_message sn) ''event_ts'' = None"
      by (simp_all add: snapshot_message_def dict_get_Cons)
    with 2 show ?thesis by (intro that [of "sn_symbol sn" "sn_seq sn" JNull]) simp_all
  qed
qed

lemma seqs_for_Cons:
  "seqs_for sy (m # ms) = (case msg_seq sy m of None \<Rightarrow> seqs_for sy ms | Some n \<Rightarrow> n # seqs_for sy ms)"
  by (simp add: seqs_for_def map_filter_def split: option.split)

text \<open>The frames still to come lie above what the client remembers.\<close>

definition ahead :: "bench_state \<Rightarrow> message list \<Rightarrow> bool" where
  "ahead b ms \<longleftrightarrow> (\<forall>sy. sorted_wrt (<) (seqs_for sy ms) \<and>
     (\<forall>p n. bs_last b (JStr sy) = Some p \<longrightarrow> n \<in> set (seqs_for sy ms) \<longrightarrow> p < n))"

lemma note_latency_frame:
  assumes "note_latency time ts b = Inr b2"
  shows "bs_last b2 = bs_last b" "cr_regressions (bs_result b2) = cr_regressions (bs_result b)"
    "cr_malformed (bs_result b2) = cr_malformed (bs_result b)"
  using assms by (auto simp: note_latency_def bindE_eq_Inr Let_def split: if_splits)

lemma note_seq_ahead:
  assumes "ahead b (m # ms)" "\<And>t. msg_seq t m = (if sy = t then Some n else None)"
  shows "ahead (note_seq (JStr sy) n b) ms \<and> bs_result (note_seq (JStr sy) n b) = bs_result b"
proof -
  have "bs_last b (JStr sy) = Some p \<Longrightarrow> p < n" for p
    using assms by (auto simp: ahead_def seqs_for_Cons)
  then have last: "bs_last (note_seq (JStr sy) n b) = (bs_last b)(JStr sy \<mapsto> n)"
    "bs_result (note_seq (JStr sy) n b) = bs_result b"
    by (auto simp: note_seq_def Let_def fun_eq_iff split: option.splits)
  with assms show ?thesis
    by (auto simp: ahead_def seqs_for_Cons split: if_splits)
qed

lemma bench_frame_market:
  assumes "market_message m" "ahead b (m # ms)" "bench_frame (Inr (JObj m)) time b = (r, b')"
  shows "ahead b' ms \<and> cr_regressions (bs_result b') = cr_regressions (bs_result b) \<and>
    cr_malformed (bs_result b') = cr_malformed (bs_result b)"
proof -
  from assms(1) obtain sy n ts where m: "dict_get m ''symbol'' = Some (JStr sy)" "dict_get m ''seq'' = Some (JInt n)"
    "(case dict_get m ''event_ts'' of None \<Rightarrow> JNull | Some v \<Rightarrow> v) = ts" "ts = JNull \<or> (\<exists>k. ts = JInt k)"
    "\<And>t. msg_seq t m = (if sy = t then Some n else None)" by (rule market_message_fields) blast
  define b1 where "b1 = note_seq (JStr sy) n b"
  have b1: "ahead b1 ms" "bs_result b1 = bs_result b"
    using note_seq_ahead [OF assms(2) m(5)] by (simp_all add: b1_def)
  have frame: "bench_frame (Inr (JObj m)) time b =
      (case note_latency time ts b1 of Inl exc \<Rightarrow> raised exc b1 | Inr b2 \<Rightarrow> (None, received b2))"
    using m(1-3) by (simp add: bench_frame_def b1_def Let_def split: sum.split)
  show ?thesis
  proof (cases "note_latency time ts b1")
    case (Inl exc)
    have of_int: "f_of_int k = Inl exc \<Longrightarrow> exc = OverflowError" for k
      by (auto simp: f_of_int_def split: pyfloat.splits)
    have "exc = OverflowError"
      using Inl m(4) of_int by (auto simp: note_latency_def bindE_def Let_def split: if_splits sum.splits)
    with Inl frame assms(3) b1 show ?thesis by (auto simp: raised_def caught_def)
  next
    case (Inr b2)
    with frame assms(3) have "b' = received b2" by simp
    with note_latency_frame [OF Inr] b1 show ?thesis by (simp add: ahead_def received_def)
  qed
qed

definition is_error :: "message \<Rightarrow> bool" where
  "is_error m \<longleftrightarrow> dict_get m ''error'' \<noteq> None"

lemma is_error_market: "market_message m \<Longrightarrow> \<not> is_error m"
  by (auto simp: market_message_def is_error_def event_to_dict_def snapshot_message_def snapshot_to_dict_def
      dict_get_Cons)

lemma is_error_not: "\<not> is_error (event_to_dict e)" "\<not> is_error (snapshot_message sn)"
  by (rule is_error_market, force simp: market_message_def)+

lemma is_error_reply [simp]: "is_error (error_message t)"
  by (simp add: is_error_def error_message_def dict_get_Cons)

lemma bench_frame_error: "bench_frame (Inr (JObj (error_message t))) time b = (None, malformed b)"
  by (simp add: bench_frame_def error_message_def dict_get_Cons bindE_def raised_def caught_def)

text \<open>The error replies are the malformed frames, as far as the client reads.\<close>

lemma bench_frame_gateway:
  assumes "gateway_message m" "ahead b (m # ms)" "bench_frame (Inr (JObj m)) time b = (r, b')"
  shows "ahead b' ms \<and> cr_regressions (bs_result b') = cr_regressions (bs_result b) \<and>
    cr_malformed (bs_result b') = cr_malformed (bs_result b) + (if is_error m then 1 else 0)"
proof (cases "market_message m")
  case True
  with bench_frame_market [OF True assms(2,3)] is_error_market show ?thesis by simp
next
  case False
  then obtain t where m: "m = error_message t" using assms(1) by (auto simp: gateway_message_def)
  with assms(2,3) bench_frame_error [of t time b] show ?thesis
    by (auto simp: malformed_def ahead_def seqs_for_Cons)
qed

lemma run_bench_market:
  assumes "\<forall>m \<in> set (map fst fs). gateway_message m" "ahead b (map fst fs)"
    "\<forall>loaded time. BenchFrame loaded time \<notin> set rest"
    "r = run_bench show (map (\<lambda>(m, time). BenchFrame (Inr (JObj m)) time) fs @ rest) b"
  shows "cr_regressions r = cr_regressions (bs_result b) \<and>
    cr_malformed r \<le> cr_malformed (bs_result b) + length (filter is_error (map fst fs)) \<and>
    (cr_error r = None \<longrightarrow> cr_malformed r = cr_malformed (bs_result b) + length (filter is_error (map fst fs)))"
  using assms(1,2,4)
proof (induction fs arbitrary: b)
  case Nil
  show ?case
  proof (cases rest)
    case (Cons x xs)
    with assms(3) Nil show ?thesis by (cases x) (auto simp: connection_error_def)
  qed (use Nil in simp)
next
  case (Cons f fs)
  obtain m time where f: "f = (m, time)" by (cases f)
  obtain e b1 where fr: "bench_frame (Inr (JObj m)) time b = (e, b1)"
    by (cases "bench_frame (Inr (JObj m)) time b")
  from Cons.prems f have "gateway_message m" "ahead b (m # map fst fs)" by simp_all
  note b1 = bench_frame_gateway [OF this fr]
  show ?case
  proof (cases e)
    case None
    with Cons.IH [of b1] Cons.prems b1 f fr show ?thesis by (auto split: if_splits)
  next
    case (Some exc)
    with Cons.prems b1 f fr show ?thesis by (simp add: connection_error_def)
  qed
qed

text \<open>
  C23. What the benchmark makes of the gateway: a benchmark client subscribes to each of its
  symbols once and never unsubscribes. Whatever a session does for such a client from its
  connection on, in any interleaving of its tasks and its handler, in either mode and under
  either slow-consumer policy, and with any clock and however the connection ends, the
  client counts no sequence regression, and the frames it counts as malformed are error
  replies: at most as many as were sent, and exactly these if it ends without an error. So
  without an error reply it does not complain. The first two hypotheses are those of
  \<open>client_receives_increasing_sequences\<close>.
\<close>

theorem benchmark_accepts_gateway_stream:
  assumes "list_all honest_turn ts" "only_subscribed {} ts"
    "\<forall>sy. length (filter (subscribes_to sy) ts) \<le> 1 \<and> Unsubscribed sy \<notin> set ts"
    "run_session ts (DispatchRuns, fresh_session cid pol enc mode now) = (sent, ph', s')" "map fst fs = sent"
    "\<forall>loaded time. BenchFrame loaded time \<notin> set rest"
    "r = bench_client show i (map (\<lambda>(m, time). BenchFrame (Inr (JObj m)) time) fs @ rest)"
  shows "cr_regressions r = 0 \<and> cr_malformed r \<le> length (filter is_error sent) \<and>
    (cr_error r = None \<longrightarrow> cr_malformed r = length (filter is_error sent))"
proof -
  have "speaks_market (fresh_session cid pol enc mode now)"
    by (simp add: speaks_market_def fresh_session_def start_writer_def new_queue_def)
  from run_session_market [OF assms(4) this] have market: "\<forall>m \<in> set (map fst fs). gateway_message m"
    using assms(5) by simp
  have sorted: "sorted_wrt (<) (seqs_for sy (map fst fs))" for sy
    using fresh_sequences_increase [OF assms(1,2) _ _ assms(4)] assms(3,5) by simp
  have "ahead \<lparr>bs_result = new_client_result i, bs_last = Map.empty\<rparr> (map fst fs)"
    using sorted by (simp add: ahead_def)
  from run_bench_market [OF market this assms(6) assms(7) [unfolded bench_client_def]] assms(5) show ?thesis
    by (simp add: new_client_result_def)
qed

theorem benchmark_accepts_gateway_stream_witness:
  "\<exists>sent ph' s'. run_session sample_turns (DispatchRuns, fresh_session ''c'' DROP_OLDEST JSON RAW (Fin 0)) =
       (sent, ph', s') \<and> length (filter is_error sent) = 1 \<and>
     cr_regressions (bench_client (\<lambda>_. ''error'') 0
       (map (\<lambda>(m, time). BenchFrame (Inr (JObj m)) time) (map (\<lambda>m. (m, Fin 3)) sent) @ [BenchStops])) = 0"
proof -
  let ?s = "fresh_session ''c'' DROP_OLDEST JSON RAW (Fin 0)"
  obtain sent ph' s' where r: "run_session sample_turns (DispatchRuns, ?s) = (sent, ph', s')"
    by (cases "run_session sample_turns (DispatchRuns, ?s)") auto
  have o: "\<forall>sy. length (filter (subscribes_to sy) sample_turns) \<le> 1 \<and> Unsubscribed sy \<notin> set sample_turns"
    using sample_turns_ok(3,4) by blast
  have f: "map fst (map (\<lambda>m. (m, Fin 3)) sent) = sent" by (simp add: comp_def)
  have n: "\<forall>loaded time. BenchFrame loaded time \<notin> set [BenchStops]" by simp
  have "length (filter is_error sent) = 1"
    using sample_turns_sent is_error_not unfolding r by simp
  with benchmark_accepts_gateway_stream [OF sample_turns_ok(1,2) o r f n refl] r show ?thesis by blast
qed

end
