(* ===== verification/Serialization_Bench.thy ===== *)
theory Serialization_Bench
  imports Models
begin

text \<open>
  \<open>src/benchmark/serialization_bench.py\<close>: encode and decode one event \<open>n\<close> times with each
  of two encoders and compare times and sizes. The encoders and the readings of
  \<open>perf_counter\<close> are arguments; printing is left out. The lemmas say when the benchmark has
  an answer: it raises without an iteration, with an encoder that raises, and where a
  measured time is zero.
\<close>

definition ITERATIONS :: nat where "ITERATIONS = 100000"

definition make_sample_event :: "(string, json) dict" where
  "make_sample_event = event_to_dict
     \<lparr>ev_symbol = ''AAPL'', ev_bid = fl (18911 / 100), ev_ask = fl (18913 / 100), ev_bid_size = 500,
      ev_ask_size = 300, ev_event_ts = 1710001234567, ev_server_ts = 1710001234571, ev_seq = 102938,
      ev_type = QUOTE, ev_last_price = Fin 0, ev_last_size = 0\<rparr>"

record bench_times =
  bt_encode :: pyfloat
  bt_decode :: pyfloat

record bench_report =
  be_encode_ms :: pyfloat
  be_decode_ms :: pyfloat
  be_total_ms :: pyfloat
  be_payload_bytes :: nat
  be_encode_per_sec :: int
  be_decode_per_sec :: int

fun repeated :: "nat \<Rightarrow> 'a result \<Rightarrow> 'a option \<Rightarrow> 'a option result" where
  \<comment> \<open>the variable a loop assigns, from what each of its iterations computes\<close>
  "repeated 0 r v = Inr v"
| "repeated (Suc n) r v = (case r of Inl exc \<Rightarrow> Inl exc | Inr x \<Rightarrow> repeated n r (Some x))"

definition per_second :: "nat \<Rightarrow> pyfloat \<Rightarrow> int result" where
  "per_second n time = bindE (f_of_int (int n)) (\<lambda>k. bindE (f_div k time) f_int)"

definition in_ms :: "pyfloat \<Rightarrow> pyfloat" where
  "in_ms time = f_round 2 (f_mul time (Fin 1000))"

definition bench_codec ::
  "((string, json) dict \<Rightarrow> 'b list result) \<Rightarrow> ('b list \<Rightarrow> json result) \<Rightarrow> bench_times \<Rightarrow>
   (string, json) dict \<Rightarrow> nat \<Rightarrow> bench_report result" where
  \<comment> \<open>\<open>bench_json\<close> and \<open>bench_msgpack\<close>, which differ in the encoder only; without an
    iteration \<open>encoded\<close> is unbound\<close>
  "bench_codec encode decode t event n =
     bindE (repeated n (encode event) None) (\<lambda>encoded.
     bindE (case encoded of None \<Rightarrow> Inr None | Some bytes \<Rightarrow> repeated n (decode bytes) None) (\<lambda>_.
     case encoded of
       None \<Rightarrow> Inl (OtherError ''UnboundLocalError'')
     | Some bytes \<Rightarrow>
         bindE (per_second n (bt_encode t)) (\<lambda>e.
         bindE (per_second n (bt_decode t)) (\<lambda>d.
           Inr \<lparr>be_encode_ms = in_ms (bt_encode t), be_decode_ms = in_ms (bt_decode t),
             be_total_ms = in_ms (f_add (bt_encode t) (bt_decode t)), be_payload_bytes = length bytes,
             be_encode_per_sec = e, be_decode_per_sec = d\<rparr>))))"

definition summarize :: "bench_report \<Rightarrow> bench_report \<Rightarrow> (pyfloat \<times> pyfloat) result" where
  \<comment> \<open>\<open>size_reduction\<close> and \<open>speed_improvement\<close> of \<open>main\<close>, from the JSON and the msgpack report\<close>
  "summarize j m =
     bindE (f_int_div (int (be_payload_bytes m)) (int (be_payload_bytes j))) (\<lambda>q.
     bindE (f_div (be_total_ms j) (be_total_ms m)) (\<lambda>s.
       Inr (f_round 1 (f_mul (f_sub (Fin 1) q) (Fin 100)), f_round 2 s)))"

section \<open>Facts\<close>

lemma repeated_ok [simp]: "repeated n (Inr x) v = Inr (if n = 0 then v else Some x)"
  by (induction n arbitrary: v) auto

lemma repeated_raises [simp]: "repeated n (Inl exc) v = (if n = 0 then Inr v else Inl exc)"
  by (cases n) auto

lemma bench_without_iterations: "bench_codec encode decode t event 0 = Inl (OtherError ''UnboundLocalError'')"
  by (simp add: bench_codec_def)

text \<open>With codecs that work, the report fails only over the measured times.\<close>

lemma bench_codec_reports:
  assumes "encode event = Inr bytes" "decode bytes = Inr v" "0 < n" "n < 2 ^ 53"
    "bt_encode t = Fin x" "bt_decode t = Fin y"
  shows "bench_codec encode decode t event n =
    bindE (per_second n (Fin x)) (\<lambda>e. bindE (per_second n (Fin y)) (\<lambda>d.
      Inr \<lparr>be_encode_ms = in_ms (Fin x), be_decode_ms = in_ms (Fin y),
        be_total_ms = in_ms (f_add (Fin x) (Fin y)), be_payload_bytes = length bytes,
        be_encode_per_sec = e, be_decode_per_sec = d\<rparr>))"
  using assms by (simp add: bench_codec_def)

lemma per_second_zero: "n < 2 ^ 53 \<Longrightarrow> per_second n (Fin 0) = Inl ZeroDivisionError"
  by (simp add: per_second_def f_of_int_small)

text \<open>A payload that is not larger is never reported as larger, whatever the rounding does.\<close>

lemma summarize_reduction:
  assumes "summarize j m = Inr (r, s)" "be_payload_bytes m \<le> be_payload_bytes j" "be_payload_bytes j < 2 ^ 53"
  shows "Fin 0 \<le> r"
proof -
  have pos: "0 < be_payload_bytes j" using assms(1) by (cases "be_payload_bytes j") (auto simp: summarize_def f_int_div_def)
  let ?a = "(of_int (int (be_payload_bytes m)) :: rat) / of_int (int (be_payload_bytes j))"
  have a: "0 \<le> ?a" "?a \<le> 1" using assms(2) pos by (simp_all add: divide_le_eq)
  have "?a \<le> of_int 1" "(1::int) < 2 ^ 53" using a(2) by simp_all
  from fl_between [OF a(1) this] obtain v where v: "fl ?a = Fin v" "v \<le> 1" by auto
  have "Fin 0 \<le> f_sub (Fin 1) (Fin v)" using fl_mono [of 0 "1 - v"] v(2) by (simp add: f_sub_def)
  moreover have "Fin 0 \<le> f_mul x (Fin 100)" if "Fin 0 \<le> x" for x
    using that fl_mono [of 0] by (cases x) (auto simp: f_sgn_inf_def)
  moreover have "Fin 0 \<le> f_round 1 x" if "Fin 0 \<le> x" for x
    using f_round_mono_all [OF that, of 1] rne_of_int [of 0] by simp
  moreover have "r = f_round 1 (f_mul (f_sub (Fin 1) (Fin v)) (Fin 100))"
    using assms(1) pos v(1) by (auto simp: summarize_def f_int_div_def bindE_eq_Inr)
  ultimately show ?thesis by simp
qed

end
