(* ===== verification/Client_Stream.thy ===== *)
theory Client_Stream
  imports Gateway_Effects
begin

text \<open>
  What a RAW client makes of a stream of events: the dispatch task takes, of a stream
  without gaps, each event once, and the writer sends what is queued. The theories that put
  components in a row share these lemmas.
\<close>

section \<open>Streams\<close>


text \<open>
  A RAW client with boundaries \<open>L\<close> takes, of a stream without gaps, exactly the events
  that are the next of their symbol.
\<close>

fun taken :: "(string \<rightharpoonup> int) \<Rightarrow> market_event list \<Rightarrow> market_event list" where
  "taken L [] = []"
| "taken L (e # es) =
     (if case L (ev_symbol e) of None \<Rightarrow> True | Some n \<Rightarrow> n < ev_seq e
      then e # taken (L(ev_symbol e \<mapsto> ev_seq e)) es else taken L es)"

fun gapless :: "(string \<rightharpoonup> int) \<Rightarrow> market_event list \<Rightarrow> bool" where
  "gapless L [] = True"
| "gapless L (e # es) =
     (case L (ev_symbol e) of
        None \<Rightarrow> gapless (L(ev_symbol e \<mapsto> ev_seq e)) es
      | Some n \<Rightarrow> ev_seq e \<le> n + 1 \<and> gapless (if ev_seq e \<le> n then L else L(ev_symbol e \<mapsto> ev_seq e)) es)"

fun consecutive :: "(string \<rightharpoonup> int) \<Rightarrow> market_event list \<Rightarrow> bool" where
  "consecutive L [] = True"
| "consecutive L (e # es) \<longleftrightarrow>
     (case L (ev_symbol e) of None \<Rightarrow> True | Some n \<Rightarrow> ev_seq e = n + 1) \<and>
     consecutive (L(ev_symbol e \<mapsto> ev_seq e)) es"

definition raw_holding :: "market_event list \<Rightarrow> client_session \<Rightarrow> bool" where
  \<comment> \<open>a RAW session without filters whose aggregator holds these events\<close>
  "raw_holding es s \<longleftrightarrow> cs_filters s = Map.empty \<and> \<not> cs_disconnected s \<and> q_max (cs_queue s) = QUEUE_MAX_SIZE \<and>
     (\<exists>ag. cs_aggregator s = Some ag \<and> ag_mode ag = RAW \<and> wf_queue OUTPUT_MAX_SIZE (ag_output ag) \<and>
       q_items (ag_output ag) = es)"

lemma raw_holding_push:
  assumes "raw_holding [] s" "length es \<le> OUTPUT_MAX_SIZE"
  shows "raw_holding es (fold push_event es s) \<and> cs_last_seq (fold push_event es s) = cs_last_seq s \<and>
    cs_queue (fold push_event es s) = cs_queue s"
proof -
  from assms(1) obtain ag where ag: "cs_aggregator s = Some ag" "ag_mode ag = RAW"
    "wf_queue OUTPUT_MAX_SIZE (ag_output ag)" "q_items (ag_output ag) = []"
    by (auto simp: raw_holding_def)
  have push: "cs_aggregator s = Some ag \<Longrightarrow> ag_mode ag = RAW \<Longrightarrow> fold push_event es s =
      s\<lparr>cs_aggregator := Some (ag\<lparr>ag_output := fold put_latest es (ag_output ag)\<rparr>)\<rparr>" for s ag
    by (induction es arbitrary: s ag) (simp_all add: push_event_def push_def)
  have "keep_last OUTPUT_MAX_SIZE es = es"
    using assms(2) by (simp add: keep_last_def)
  then show ?thesis
    using assms(1) ag fold_put_latest [OF ag(3), of es] unfolding push [OF ag(1,2)]
    by (auto simp: raw_holding_def OUTPUT_MAX_SIZE_def)
qed

lemma dispatch_turn_held:
  assumes "raw_holding (e # es) s"
  shows "\<exists>s1. raw_holding es s1 \<and> cs_last_seq s1 = cs_last_seq s \<and> cs_queue s1 = cs_queue s \<and>
    dispatch_turn s = dispatch_event True e s1"
proof -
  from assms obtain ag where ag: "cs_aggregator s = Some ag" "ag_mode ag = RAW"
    "wf_queue OUTPUT_MAX_SIZE (ag_output ag)" "q_items (ag_output ag) = e # es"
    and s: "cs_filters s = Map.empty" "\<not> cs_disconnected s" "q_max (cs_queue s) = QUEUE_MAX_SIZE"
    by (auto simp: raw_holding_def)
  let ?s = "s\<lparr>cs_aggregator := Some (ag\<lparr>ag_output := (ag_output ag)\<lparr>q_items := es\<rparr>\<rparr>)\<rparr>"
  have "next_event ag = Some (e, ag\<lparr>ag_output := (ag_output ag)\<lparr>q_items := es\<rparr>\<rparr>)"
    using ag(4) by (simp add: next_event_def get_nowait_def)
  then have "dispatch_turn s = dispatch_event True e ?s"
    using ag(1,2) by (simp add: dispatch_turn_def)
  moreover have "raw_holding es ?s" using s ag by (simp add: raw_holding_def wf_queue_def)
  ultimately show ?thesis by (intro exI [of _ ?s]) simp
qed

lemma dispatch_next_raw:
  assumes "raw_holding es s" "length (q_items (cs_queue s)) < QUEUE_MAX_SIZE"
    "classify_sequence (ev_symbol e) (ev_seq e) True s = (NEXT, set_last_seq (ev_symbol e) (ev_seq e) s)"
  shows "\<exists>s'. dispatch_event True e s = (DispatchRuns, s') \<and> raw_holding es s' \<and>
    cs_last_seq s' = (cs_last_seq s)(ev_symbol e \<mapsto> ev_seq e) \<and>
    q_items (cs_queue s') = q_items (cs_queue s) @ [event_to_dict e]"
proof -
  let ?s1 = "set_last_seq (ev_symbol e) (ev_seq e) s"
  let ?q = "(cs_queue s)\<lparr>q_items := q_items (cs_queue s) @ [event_to_dict e]\<rparr>"
  let ?s' = "mark_delivered e (?s1\<lparr>cs_queue := ?q\<rparr>)"
  have "put_nowait (event_to_dict e) (cs_queue s) = Some ?q"
    using assms(1,2) by (simp add: put_nowait_def queue_full_def raw_holding_def)
  then have "enqueue (event_to_dict e) ?s1 = (True, ?s1\<lparr>cs_queue := ?q\<rparr>)" by (simp add: enqueue_def)
  moreover have "should_deliver e ?s1 = Inr True"
    using assms(1) by (simp add: should_deliver_def raw_holding_def set_last_seq_def)
  ultimately have "dispatch_event True e s = (DispatchRuns, ?s')"
    by (simp add: dispatch_event_def assms(3) deliver_event_def)
  moreover have "raw_holding es ?s'"
    using assms(1) by (simp add: raw_holding_def mark_delivered_def set_last_price_def set_last_seq_def)
  moreover have "cs_last_seq ?s' = (cs_last_seq s)(ev_symbol e \<mapsto> ev_seq e)"
    "q_items (cs_queue ?s') = q_items (cs_queue s) @ [event_to_dict e]"
    by (simp_all add: mark_delivered_def set_last_price_def set_last_seq_def)
  ultimately show ?thesis by (intro exI [of _ ?s']) simp
qed

lemma dispatch_turn_raw:
  assumes "raw_holding (e # es) s" "gapless (cs_last_seq s) (e # es)"
    "length (q_items (cs_queue s)) + length (taken (cs_last_seq s) (e # es)) \<le> QUEUE_MAX_SIZE"
  shows "\<exists>s'. dispatch_turn s = (DispatchRuns, s') \<and> raw_holding es s' \<and> gapless (cs_last_seq s') es \<and>
    q_items (cs_queue s') @ map event_to_dict (taken (cs_last_seq s') es) =
      q_items (cs_queue s) @ map event_to_dict (taken (cs_last_seq s) (e # es))"
proof -
  from dispatch_turn_held [OF assms(1)] obtain s1 where s1: "raw_holding es s1"
    "cs_last_seq s1 = cs_last_seq s" "cs_queue s1 = cs_queue s" "dispatch_turn s = dispatch_event True e s1"
    by blast
  show ?thesis
  proof (cases "case cs_last_seq s (ev_symbol e) of None \<Rightarrow> True | Some n \<Rightarrow> n < ev_seq e")
    case True
    then have c: "classify_sequence (ev_symbol e) (ev_seq e) True s1 = (NEXT, set_last_seq (ev_symbol e) (ev_seq e) s1)"
      using assms(2) s1(2) by (simp add: classify_sequence_def split: option.splits)
    have "length (q_items (cs_queue s1)) < QUEUE_MAX_SIZE" using True assms(3) s1(3) by simp
    from dispatch_next_raw [OF s1(1) this c] obtain s' where s': "dispatch_event True e s1 = (DispatchRuns, s')"
      "raw_holding es s'" "cs_last_seq s' = (cs_last_seq s)(ev_symbol e \<mapsto> ev_seq e)"
      "q_items (cs_queue s') = q_items (cs_queue s) @ [event_to_dict e]" unfolding s1(2,3) by blast
    have "gapless (cs_last_seq s') es"
      using True assms(2) unfolding s'(3) by (simp split: option.splits)
    moreover have "taken (cs_last_seq s) (e # es) = e # taken (cs_last_seq s') es"
      using True unfolding s'(3) by simp
    ultimately show ?thesis using s' s1(4) by (intro exI [of _ s']) simp
  next
    case False
    then obtain n where n: "cs_last_seq s (ev_symbol e) = Some n" "ev_seq e \<le> n" by (simp split: option.splits)
    then have "dispatch_turn s = (DispatchRuns, s1)"
      using s1 by (simp add: dispatch_event_def classify_sequence_def)
    moreover have "gapless (cs_last_seq s1) es" using n assms(2) s1(2) by simp
    ultimately show ?thesis using n s1 by (intro exI [of _ s1]) simp
  qed
qed

lemma dispatch_turns_raw:
  "raw_holding ds s \<Longrightarrow> gapless (cs_last_seq s) ds \<Longrightarrow>
   length (q_items (cs_queue s)) + length (taken (cs_last_seq s) ds) \<le> QUEUE_MAX_SIZE \<Longrightarrow>
   \<exists>s'. run_client (map DispatchTurn (replicate (length ds) store)) (DispatchRuns, s) = ([], DispatchRuns, s') \<and>
     \<not> cs_disconnected s' \<and> q_items (cs_queue s') = q_items (cs_queue s) @ map event_to_dict (taken (cs_last_seq s) ds)"
proof (induction ds arbitrary: s)
  case Nil
  then show ?case by (simp add: raw_holding_def)
next
  case (Cons e es)
  from dispatch_turn_raw [OF Cons.prems] obtain s' where
    s': "dispatch_turn s = (DispatchRuns, s')" "raw_holding es s'" "gapless (cs_last_seq s') es"
      "q_items (cs_queue s') @ map event_to_dict (taken (cs_last_seq s') es) =
       q_items (cs_queue s) @ map event_to_dict (taken (cs_last_seq s) (e # es))" by blast
  have "length (q_items (cs_queue s')) + length (taken (cs_last_seq s') es) \<le> QUEUE_MAX_SIZE"
    using arg_cong [OF s'(4), of length] Cons.prems(3) by simp
  from Cons.IH [OF s'(2,3) this] s'(1,4) show ?case by auto
qed

definition sendable :: "message \<Rightarrow> bool" where
  \<comment> \<open>the latency of the message can be computed\<close>
  "sendable m \<longleftrightarrow> dict_get m ''event_ts'' = None \<or>
     (\<exists>n. dict_get m ''event_ts'' = Some (JInt n) \<and> \<bar>n\<bar> < 2 ^ 53)"

lemma sendable_messages [simp]:
  "sendable (event_to_dict e) \<longleftrightarrow> \<bar>ev_event_ts e\<bar> < 2 ^ 53" "sendable (snapshot_message sn)"
  by (simp_all add: sendable_def snapshot_message_def dict_get_Cons)

lemma record_latency_sendable:
  "sendable m \<Longrightarrow> cs_disconnected (record_latency t m s) = cs_disconnected s \<and>
     cs_queue (record_latency t m s) = cs_queue s"
  by (auto simp: sendable_def record_latency_def latency_record_def f_of_int_small Let_def split: if_splits)

lemma writer_turns_send:
  "\<not> cs_disconnected s \<Longrightarrow> q_items (cs_queue s) = ms \<Longrightarrow> list_all sendable ms \<Longrightarrow> length clocks = length ms \<Longrightarrow>
   fst (run_client (map (WriterTurn SendOk) clocks) (ph, s)) = ms"
proof (induction ms arbitrary: s clocks)
  case (Cons m ms)
  then obtain t ts where ts: "clocks = t # ts" by (cases clocks) auto
  let ?q = "(cs_queue s)\<lparr>q_items := ms\<rparr>"
  have g: "get_nowait (cs_queue s) = Some (m, ?q)" using Cons.prems(2) by (simp add: get_nowait_def)
  have "\<not> cs_disconnected (record_latency t m (bump_sent (s\<lparr>cs_queue := ?q\<rparr>))) \<and>
      cs_queue (record_latency t m (bump_sent (s\<lparr>cs_queue := ?q\<rparr>))) = ?q"
    using Cons.prems(1,3) record_latency_sendable [of m t] by (simp add: bump_sent_def)
  then obtain s' where s': "writer_turn SendOk t s = (Some m, s')" "\<not> cs_disconnected s'"
    "q_items (cs_queue s') = ms" using Cons.prems(1) g by (simp add: writer_turn_def)
  from Cons.IH [OF s'(2,3), of ts] Cons.prems(3,4) s'(1) ts show ?case
    by (simp add: case_prod_beta)
qed simp

lemma run_client_append:
  "run_client (ts @ us) x =
     (case run_client ts x of (ms, y) \<Rightarrow> case run_client us y of (ns, z) \<Rightarrow> (ms @ ns, z))"
  by (induction ts arbitrary: x) (simp_all add: case_prod_beta)

text \<open>The tasks of a RAW client after one another: its dispatch task, then its writer.\<close>

definition serve :: "(string \<Rightarrow> snapshot_data option result) \<Rightarrow> nat \<Rightarrow> pyfloat list \<Rightarrow> client_session \<Rightarrow> message list" where
  "serve store n clocks s =
     fst (run_client (map DispatchTurn (replicate n store) @ map (WriterTurn SendOk) clocks) (DispatchRuns, s))"

lemma serve_raw:
  assumes "raw_holding ds s" "gapless (cs_last_seq s) ds" "ms = q_items (cs_queue s) @ map event_to_dict (taken (cs_last_seq s) ds)"
    "length ms \<le> QUEUE_MAX_SIZE" "list_all sendable ms" "length clocks = length ms"
  shows "serve store (length ds) clocks s = ms"
proof -
  have "length (q_items (cs_queue s)) + length (taken (cs_last_seq s) ds) \<le> QUEUE_MAX_SIZE" using assms(3,4) by simp
  from dispatch_turns_raw [OF assms(1,2) this, of store] obtain s' where
    s': "run_client (map DispatchTurn (replicate (length ds) store)) (DispatchRuns, s) = ([], DispatchRuns, s')"
      "\<not> cs_disconnected s'" "q_items (cs_queue s') = ms" using assms(3) by auto
  from writer_turns_send [OF s'(2,3) assms(5,6), of DispatchRuns] s'(1) show ?thesis
    by (simp add: serve_def run_client_append case_prod_beta)
qed

lemma consecutive_gapless: "consecutive L es \<Longrightarrow> gapless L es \<and> taken L es = es"
  by (induction L es rule: consecutive.induct) (auto split: option.splits)

lemma fanout_session:
  "gw_heap (fold fanout_event es g) i =
     map_option (fold push_event (filter (\<lambda>e. i \<in> subs_of g (ev_symbol e)) es)) (gw_heap g i)"
proof (induction es arbitrary: g)
  case (Cons e es)
  have "gw_heap (fanout_event e g) i = (if i \<in> subs_of g (ev_symbol e) then map_option (push_event e) (gw_heap g i) else gw_heap g i)"
    by (simp add: fanout_event_def Let_def)
  with Cons.IH [of "fanout_event e g"] show ?case by (simp add: views option.map_comp comp_def)
qed (simp add: option.map_id0)

end
