(* ===== verification/Handover.thy ===== *)
theory Handover
  imports Gateway Client_Stream
begin

text \<open>
  From a snapshot to the stream that continues it: a subscription of \<open>Gateway\<close> followed by
  the client's tasks of \<open>Client_Stream\<close>. This is the promise the platform makes to a new
  client: the full state first, then every update after it.
\<close>

lemma fold_fanout_later:
  "gw_heap g i = Some s \<Longrightarrow> \<forall>t. i \<in> subs_of g t \<longleftrightarrow> t = sy \<Longrightarrow>
     gw_heap (fold fanout_event es g) i = Some (fold push_event (filter (\<lambda>e. ev_symbol e = sy) es) s)"
  by (simp add: fanout_session)

lemma handed_over_raw:
  assumes "raw_holding [] s" "length es \<le> OUTPUT_MAX_SIZE"
    "es = filter (\<lambda>e. sn_seq sn < ev_seq e) (sort_key ev_seq fs) @ us"
    "enqueue (snapshot_message sn) s = (True, s1)" "q_items (cs_queue s) = []"
  shows "raw_holding es (fold push_event us (handed_over sy None sn fs s1)) \<and>
    cs_last_seq (fold push_event us (handed_over sy None sn fs s1)) = (cs_last_seq s)(sy \<mapsto> sn_seq sn) \<and>
    q_items (cs_queue (fold push_event us (handed_over sy None sn fs s1))) = [snapshot_message sn]"
proof -
  let ?s = "fold push_event us (handed_over sy None sn fs s1)"
  have s1: "s1 = s\<lparr>cs_queue := (cs_queue s)\<lparr>q_items := [snapshot_message sn]\<rparr>\<rparr>"
    using assms(1,4,5) by (simp add: enqueue_def put_nowait_def queue_full_def raw_holding_def QUEUE_MAX_SIZE_def)
  have frame: "cs_filters ?s = Map.empty" "cs_last_seq ?s = (cs_last_seq s)(sy \<mapsto> sn_seq sn)"
    "cs_queue ?s = cs_queue s1" "cs_disconnected ?s = cs_disconnected s"
    "cs_aggregator ?s = cs_aggregator (fold push_event es s)"
    using assms(1) by (simp_all add: fold_push_event_frame s1 raw_holding_def assms(3) option.map_comp comp_def)
  with raw_holding_push [OF assms(1,2)] assms(1) show ?thesis by (simp add: raw_holding_def s1)
qed

text \<open>
  C5. Snapshot first, then every update. A client without other subscriptions or filters
  subscribes in RAW mode; \<open>es\<close> is fanned out while its snapshot is fetched, \<open>us\<close>
  after it is registered. If the updates of its symbol above the snapshot's number, as they
  arrive sorted from the buffer and then live, continue the snapshot without a gap, the
  client is sent the snapshot and then each of them, once and in order. Events that the
  snapshot already includes, and other symbols' events, are not sent.
\<close>

theorem snapshot_then_updates:
  assumes "begin_initialization i sy g = (k, g1)" "gw_heap g i = Some s" "{t. i \<in> subs_of g t} = {}"
    "raw_holding [] s" "q_items (cs_queue s) = []" "cs_last_seq s = Map.empty"
    "fs = filter (\<lambda>e. ev_symbol e = sy) es" "length fs \<le> 500"
    "finish_subscription i sy k None (Inr (Some sn)) (fold fanout_event es g1) = (ok, g2)"
    "updates = filter (\<lambda>e. sn_seq sn < ev_seq e) (sort_key ev_seq fs) @ filter (\<lambda>e. ev_symbol e = sy) us"
    "consecutive [sy \<mapsto> sn_seq sn] updates" "length updates < 500"
    "list_all (\<lambda>e. \<bar>ev_event_ts e\<bar> < 2 ^ 53) updates" "length clocks = Suc (length updates)"
  shows "ok \<and> (\<exists>s'. gw_heap (fold fanout_event us g2) i = Some s' \<and>
    serve store (length updates) clocks s' = snapshot_message sn # map event_to_dict updates)"
proof -
  obtain q s1 where e: "enqueue (snapshot_message sn) s = (q, s1)" by (cases "enqueue (snapshot_message sn) s")
  have q: q using e assms(4,5)
    by (auto simp: enqueue_def put_nowait_def queue_full_def raw_holding_def QUEUE_MAX_SIZE_def)
  have "\<forall>e \<in> set es. i \<notin> subs_of g (ev_symbol e)" using assms(3) by simp
  note h = hand_over [OF assms(1,2) this assms(9,7)]
  have ok and g2: "gw_heap g2 i = Some (handed_over sy None sn fs s1)" "\<forall>t. i \<in> subs_of g2 t \<longleftrightarrow> t = sy"
    using h assms(3,8) e q by auto
  let ?s = "fold push_event (filter (\<lambda>e. ev_symbol e = sy) us) (handed_over sy None sn fs s1)"
  have "length updates \<le> OUTPUT_MAX_SIZE" using assms(12) by (simp add: OUTPUT_MAX_SIZE_def)
  note raw = handed_over_raw [OF assms(4) this assms(10) e [simplified q] assms(5), of sy]
  have "serve store (length updates) clocks ?s = snapshot_message sn # map event_to_dict updates"
    using raw consecutive_gapless [OF assms(11)] assms(6,12-14)
    by (intro serve_raw) (simp_all add: QUEUE_MAX_SIZE_def list.pred_map comp_def)
  with fold_fanout_later [OF g2, of us] \<open>ok\<close> show ?thesis by blast
qed

theorem snapshot_then_updates_witness:
  "\<exists>ok g2 s'. finish_subscription 0 ''A'' 1 None (Inr (Some (sample_snapshot 5)))
       (fold fanout_event [sample_event ''A'' 7, sample_event ''A'' 5, sample_event ''A'' 6]
         (snd (begin_initialization 0 ''A'' (snd (connect_session ''c'' JSON RAW (Fin 0) new_gateway))))) = (ok, g2) \<and>
     ok \<and> gw_heap (fold fanout_event [sample_event ''B'' 1, sample_event ''A'' 8] g2) 0 = Some s' \<and>
     serve (\<lambda>_. Inr None) 3 (replicate 4 (Fin 2)) s' = snapshot_message (sample_snapshot 5) #
       map event_to_dict [sample_event ''A'' 6, sample_event ''A'' 7, sample_event ''A'' 8]"
proof -
  let ?g = "snd (connect_session ''c'' JSON RAW (Fin 0) new_gateway)"
  let ?es = "[sample_event ''A'' 7, sample_event ''A'' 5, sample_event ''A'' 6]"
  let ?us = "[sample_event ''B'' 1, sample_event ''A'' 8]"
  let ?s = "start_writer ((new_session ''c'' DROP_OLDEST JSON (Fin 0))
      \<lparr>cs_aggregator := Some (start_aggregator (new_aggregation_buffer RAW 100))\<rparr>)"
  let ?up = "[sample_event ''A'' 6, sample_event ''A'' 7, sample_event ''A'' 8]"
  obtain g1 where b: "begin_initialization 0 ''A'' ?g = (1, g1)"
    by (simp add: begin_initialization_def connect_session_def new_gateway_def Let_def)
  obtain ok g2 where f: "finish_subscription 0 ''A'' 1 None (Inr (Some (sample_snapshot 5)))
      (fold fanout_event ?es g1) = (ok, g2)"
    by (metis surj_pair)
  have heap: "gw_heap ?g 0 = Some ?s" by (simp add: connect_session_def new_gateway_def Let_def)
  have none: "{t. 0 \<in> subs_of ?g t} = {}" by (simp add: views) (simp add: subs_of_def new_gateway_def)
  have raw: "raw_holding [] ?s" "q_items (cs_queue ?s) = []" "cs_last_seq ?s = Map.empty"
    by (simp_all add: raw_holding_def start_writer_def new_session_def start_aggregator_def
        new_aggregation_buffer_def QUEUE_MAX_SIZE_def) (simp_all add: new_queue_def)
  have fs: "?es = filter (\<lambda>e. ev_symbol e = ''A'') ?es" "length ?es \<le> 500" by simp_all
  have up: "?up = filter (\<lambda>e. sn_seq (sample_snapshot 5) < ev_seq e) (sort_key ev_seq ?es)
      @ filter (\<lambda>e. ev_symbol e = ''A'') ?us" by (simp add: sort_key_def)
  have more: "consecutive [''A'' \<mapsto> sn_seq (sample_snapshot 5)] ?up" "length ?up < 500"
    "list_all (\<lambda>e. \<bar>ev_event_ts e\<bar> < 2 ^ 53) ?up" "length (replicate 4 (Fin 2)) = Suc (length ?up)"
    by (simp_all add: sample_event_def)
  from snapshot_then_updates [OF b heap none raw fs f up more, of "\<lambda>_. Inr None"] obtain s' where "ok"
    "gw_heap (fold fanout_event ?us g2) 0 = Some s'"
    "serve (\<lambda>_. Inr None) (length ?up) (replicate 4 (Fin 2)) s' = snapshot_message (sample_snapshot 5) # map event_to_dict ?up"
    by blast
  moreover have "length ?up = 3" by simp
  ultimately show ?thesis using b f by (intro exI [of _ ok] exI [of _ g2] exI [of _ s']) (simp only: snd_conv simp_thms)
qed

end
