(* ===== verification/Pipeline.thy ===== *)
theory Pipeline
  imports Distribution_Engine Feed_Simulator Client_Stream "HOL-Library.Countable"
begin

text \<open>
  The components in a row: what the simulator produces goes through Kafka to the engine,
  from there through Redis Pub/Sub to the gateway, and on to the client. Nothing here is
  code of its own; the functions below hand the output of one component's model to the
  next, and the lemmas say what each leg does to a stream of events. Serialisation is a
  pair of functions that give an event's dictionary back (\<open>json_contract\<close>).
\<close>

section \<open>From Kafka to Redis\<close>

definition published :: "'e store_call list \<Rightarrow> 'e list" where
  \<comment> \<open>what the engine's calls hand to PUBLISH; a call that raised may have been delivered\<close>
  "published calls = List.map_filter (\<lambda>c. case c of UpdateSnapshot e reply \<Rightarrow> None | PublishEvent e reply \<Rightarrow> Some e) calls"

lemma published_simps [simp]:
  "published [] = []"
  "published (UpdateSnapshot e reply # calls) = published calls"
  "published (PublishEvent e reply # calls) = e # published calls"
  "published (calls @ calls') = published calls @ published calls'"
  by (simp_all add: published_def List.map_filter_def)

text \<open>Every event once or, after a retry, several times in a row.\<close>

inductive stutters :: "'e list \<Rightarrow> 'e list \<Rightarrow> bool" where
  stutters_Nil: "stutters [] []"
| stutters_Cons: "stutters fs ds \<Longrightarrow> stutters (f # fs) (replicate (Suc k) f @ ds)"

lemma stutters_set: "stutters fs ds \<Longrightarrow> set ds = set fs"
  by (induction rule: stutters.induct) auto

lemma process_publishes:
  assumes "process_consumed_event as c eng = (Some (Inr True), calls, ds, eng')"
  shows "\<exists>k. published calls = replicate (Suc k) (ce_event c)"
proof -
  note post = process_consumed_post [OF assms]
  have "set (published calls) \<subseteq> {ce_event c}"
    using post by (force simp: published_def List.map_filter_def split: store_call.splits)
  then have "published calls = replicate (length (published calls)) (ce_event c)"
    by (metis replicate_length_same singletonD subsetD)
  moreover have "published calls \<noteq> []" using post by auto
  ultimately show ?thesis by (metis length_0_conv not0_implies_Suc)
qed

lemma run_engine_publishes:
  "run_engine ass eng = (AwaitsEvent, calls, eng') \<Longrightarrow>
     stutters (map ce_event (q_items (br_queue (en_bridge eng)))) (published calls)"
proof (induction ass eng arbitrary: calls eng' rule: run_engine.induct)
  case (1 ass eng)
  show ?case
  proof (cases "next_consumed (en_bridge eng)")
    case None
    then have "q_items (br_queue (en_bridge eng)) = []"
      by (simp add: next_consumed_def get_nowait_None_iff split: option.splits prod.splits)
    with None 1(2) show ?thesis by (simp add: run_engine.simps [of ass] stutters_Nil)
  next
    case (Some p)
    obtain c b where p: "p = (c, b)" by (cases p)
    note q = next_consumed_Some [OF Some [unfolded p]]
    obtain as rest where ass: "ass = as # rest"
      using 1(2) Some p by (cases ass) (auto simp: run_engine.simps [of "[]"])
    obtain r calls1 ds eng1 where pe:
      "process_consumed_event as c (eng\<lparr>en_bridge := b\<rparr>) = (r, calls1, ds, eng1)"
      by (cases "process_consumed_event as c (eng\<lparr>en_bridge := b\<rparr>)") auto
    have "r = Some (Inr True)"
      using 1(2) Some p ass pe by (auto simp: run_engine.simps [of "as # rest"] split: option.splits sum.splits if_splits)
    note pe = pe [unfolded this]
    obtain calls2 where rest: "run_engine rest eng1 = (AwaitsEvent, calls2, eng')" "calls = calls1 @ calls2"
      using 1(2) Some p ass pe by (auto simp: run_engine.simps [of "as # rest"] split: prod.splits)
    have "en_bridge eng1 = acknowledge c b" using process_consumed_post [OF pe] by simp
    then have "q_items (br_queue (en_bridge eng)) = c # q_items (br_queue (en_bridge eng1))"
      using q by (simp add: acknowledge_def)
    moreover have "stutters (map ce_event (q_items (br_queue (en_bridge eng1)))) (published calls2)"
      using "1.IH" [OF Some p [symmetric] ass pe [symmetric] refl refl refl refl TrueI rest(1)] .
    moreover obtain k where "published calls1 = replicate (Suc k) (ce_event c)"
      using process_publishes [OF pe] by blast
    ultimately show ?thesis using rest(2) stutters_Cons by fastforce
  qed
qed

section \<open>From Redis to the sessions\<close>

fun gateway_listens ::
  "(string \<Rightarrow> pyfloat result) \<Rightarrow> (string \<Rightarrow> json result) \<Rightarrow> (json \<Rightarrow> bool) \<Rightarrow> string list \<Rightarrow> gateway \<Rightarrow>
   gateway option" where
  \<comment> \<open>the listening of \<open>fanout_loop\<close> along the payloads that arrive; \<^const>\<open>None\<close> where it breaks\<close>
  "gateway_listens fparse loads hashable [] g = Some g"
| "gateway_listens fparse loads hashable (t # ts) g =
     (case pubsub_message fparse (Inr t) loads hashable of
        FanOut e \<Rightarrow> gateway_listens fparse loads hashable ts (fanout_event e g)
      | SkipMessage \<Rightarrow> gateway_listens fparse loads hashable ts g
      | BreakLoop \<Rightarrow> None)"

definition json_contract :: "(json \<Rightarrow> string) \<Rightarrow> (string \<Rightarrow> json result) \<Rightarrow> bool" where
  \<comment> \<open>the dictionary of an event survives \<open>json.dumps\<close> and \<open>json.loads\<close>\<close>
  "json_contract dumps loads \<longleftrightarrow>
     (\<forall>e. loads (dumps (JObj (event_to_dict e))) = Inr (JObj (event_to_dict e)))"

definition tradeless :: "market_event \<Rightarrow> bool" where
  \<comment> \<open>without a last trade, as every parser leaves an event\<close>
  "tradeless e \<longleftrightarrow> ev_last_price e = Fin 0 \<and> ev_last_size e = 0"

lemma tradeless_hop: "tradeless (hop ts e)" "tradeless e \<Longrightarrow> hop (ev_server_ts e) e = e"
  by (simp_all add: tradeless_def hop_def)

lemma gateway_listens_published:
  "json_contract dumps loads \<Longrightarrow> list_all tradeless es \<Longrightarrow>
   gateway_listens fparse loads hashable (map (snd \<circ> publish_command dumps pfx) es) g =
     Some (fold fanout_event es g)"
proof (induction es arbitrary: g)
  case (Cons e es)
  have "pubsub_message fparse (Inr (dumps (JObj (event_to_dict e)))) loads hashable = FanOut e"
    using Cons.prems parse_event_to_dict [of "\<lambda>d. json_field d ''server_ts'' json_int" e "ev_server_ts e" fparse]
    by (simp add: pubsub_message_def json_contract_def tradeless_hop json_field_def)
  with Cons show ?case by (simp add: publish_command_def)
qed simp

section \<open>From the session to the client\<close>

lemma repeats_ignored:
  "L (ev_symbol e) = Some (ev_seq e) \<Longrightarrow>
     gapless L (replicate k e @ es) = gapless L es \<and> taken L (replicate k e @ es) = taken L es"
  by (induction k) auto

lemma stutters_taken:
  "stutters fs ds \<Longrightarrow> consecutive L fs \<Longrightarrow> gapless L ds \<and> taken L ds = fs"
proof (induction arbitrary: L rule: stutters.induct)
  case (stutters_Cons fs ds f k)
  define M where "M = L(ev_symbol f \<mapsto> ev_seq f)"
  have "M (ev_symbol f) = Some (ev_seq f)" by (simp add: M_def)
  then have "gapless M (replicate k f @ ds) \<and> taken M (replicate k f @ ds) = fs"
    using stutters_Cons.IH [of M] stutters_Cons.prems repeats_ignored [of M f k ds] by (simp add: M_def [symmetric])
  with stutters_Cons.prems show ?case by (auto simp: M_def split: option.splits)
qed simp

text \<open>
  A burst of published events: the fanout leaves them with the session, the dispatch task
  takes each event once, the writer sends them.
\<close>

lemma burst_reaches_client:
  assumes "json_contract dumps loads" "list_all tradeless ds" "stutters fs ds"
    "gw_heap g i = Some s" "\<forall>e \<in> set ds. i \<in> subs_of g (ev_symbol e)"
    "raw_holding [] s" "consecutive (cs_last_seq s) fs" "q_items (cs_queue s) = []"
    "length ds \<le> OUTPUT_MAX_SIZE" "length fs \<le> QUEUE_MAX_SIZE" "length clocks = length fs"
    "\<forall>f \<in> set fs. \<bar>ev_event_ts f\<bar> < 2 ^ 53"
  shows "\<exists>g' s'. gateway_listens fparse loads hashable (map (snd \<circ> publish_command dumps pfx) ds) g = Some g' \<and>
    gw_heap g' i = Some s' \<and> serve store (length ds) clocks s' = map event_to_dict fs"
proof -
  note push = raw_holding_push [OF assms(6,9)]
  note t = stutters_taken [OF assms(3,7)]
  have "serve store (length ds) clocks (fold push_event ds s) = map event_to_dict fs"
    using push t assms(8,10-12) by (intro serve_raw) (simp_all add: list_all_iff)
  moreover have "filter (\<lambda>e. i \<in> subs_of g (ev_symbol e)) ds = ds" using assms(5) by (simp add: filter_id_conv)
  ultimately show ?thesis
    using gateway_listens_published [OF assms(1,2)] fanout_session [of ds g i] assms(4) by simp
qed

section \<open>The simulated feed\<close>

lemma consecutiveI:
  "\<forall>sy. map ev_seq (filter (\<lambda>e. ev_symbol e = sy) fs) =
        map (\<lambda>i. nx sy + int i) [0..<length (filter (\<lambda>e. ev_symbol e = sy) fs)] \<Longrightarrow>
   \<forall>sy. L sy = None \<or> L sy = Some (nx sy - 1) \<Longrightarrow> consecutive L fs"
proof (induction fs arbitrary: L nx)
  case (Cons f fs)
  have q: "ev_seq f = nx (ev_symbol f)"
    "map ev_seq (filter (\<lambda>e. ev_symbol e = ev_symbol f) fs) =
     map (\<lambda>i. nx (ev_symbol f) + 1 + int i) [0..<length (filter (\<lambda>e. ev_symbol e = ev_symbol f) fs)]"
    using Cons.prems(1) [THEN spec, of "ev_symbol f"] by (simp_all add: upt_shift del: upt_Suc)
  have "consecutive (L(ev_symbol f \<mapsto> ev_seq f)) fs"
  proof (rule Cons.IH [where nx = "nx(ev_symbol f := nx (ev_symbol f) + 1)"]; intro allI)
    fix sy
    show "map ev_seq (filter (\<lambda>e. ev_symbol e = sy) fs) =
        map (\<lambda>i. (nx(ev_symbol f := nx (ev_symbol f) + 1)) sy + int i)
          [0..<length (filter (\<lambda>e. ev_symbol e = sy) fs)]"
      using Cons.prems(1) [THEN spec, of sy] q(2) by (cases "sy = ev_symbol f") auto
    show "(L(ev_symbol f \<mapsto> ev_seq f)) sy = None \<or>
        (L(ev_symbol f \<mapsto> ev_seq f)) sy = Some ((nx(ev_symbol f := nx (ev_symbol f) + 1)) sy - 1)"
      using Cons.prems(2) q(1) by simp
  qed
  then show ?case using Cons.prems(2) [THEN spec, of "ev_symbol f"] q(1) by auto
qed simp

lemma feed_pass_symbols:
  "feed_pass ps sm = (sent, r, sm') \<Longrightarrow> ev_symbol ` set (map snd sent) \<subseteq> snd ` set ps"
proof (induction ps arbitrary: sm sent r sm')
  case (Cons p ps)
  obtain d symbol where p: "p = (d, symbol)" by (cases p)
  obtain q sm1 where m: "make_event d symbol sm = (q, sm1)" by (cases "make_event d symbol sm")
  obtain sent1 r1 sm2 where f: "feed_pass ps sm1 = (sent1, r1, sm2)" by (metis prod_cases3)
  show ?case
  proof (cases q)
    case (Inr e)
    have "ev_symbol e = symbol" using make_event_effect [OF m] Inr by simp
    moreover have "sent = [] \<or> sent = (symbol, e) # sent1"
      using Cons.prems Inr m f by (auto simp: p split: sum.splits)
    ultimately show ?thesis using Cons.IH [OF f] by (auto simp only: p list.map set_simps snd_conv image_subset_iff image_insert)
  qed (use Cons.prems m in \<open>auto simp: p\<close>)
qed simp

lemma run_feed_symbols:
  "run_feed dss sm = (sent, r, sm') \<Longrightarrow> ev_symbol ` set (map snd sent) \<subseteq> set (dict_keys INITIAL_PRICES)"
proof (induction dss arbitrary: sm sent r sm')
  case (Cons ds dss)
  obtain s1 r1 sm1 where f: "feed_pass (zip ds (dict_keys INITIAL_PRICES)) sm = (s1, r1, sm1)" by (metis prod_cases3)
  obtain s2 r2 sm2 where g: "run_feed dss sm1 = (s2, r2, sm2)" by (metis prod_cases3)
  have "ev_symbol ` set (map snd s1) \<subseteq> set (dict_keys INITIAL_PRICES)"
    using feed_pass_symbols [OF f] by (fastforce dest: set_zip_rightD)
  moreover have "sent = s1 \<or> sent = s1 @ s2" using Cons.prems f g by (auto split: sum.splits)
  ultimately show ?case using Cons.IH [OF g] by (auto simp only: map_append set_append image_subset_iff)
qed simp

lemma run_feed_consecutive:
  assumes "run_feed dss new_simulator = (sent, r, sm)"
  shows "consecutive Map.empty (map snd sent)"
proof (rule consecutiveI [where nx = "\<lambda>_. 1"]; intro allI)
  fix sy
  show "map ev_seq (filter (\<lambda>e. ev_symbol e = sy) (map snd sent)) =
      map (\<lambda>i. 1 + int i) [0..<length (filter (\<lambda>e. ev_symbol e = sy) (map snd sent))]"
  proof (cases "sy \<in> set (dict_keys INITIAL_PRICES)")
    case True
    then have "dict_get (sm_seq new_simulator) sy = Some 1"
      by (auto simp: new_simulator_def INITIAL_PRICES_def dict_keys_def dict_get_Cons)
    with run_feed_continues [OF assms, of sy] show ?thesis by (simp add: continues_def sent_for_def)
  next
    case False
    with run_feed_symbols [OF assms] have "filter (\<lambda>e. ev_symbol e = sy) (map snd sent) = []"
      by (force simp: filter_empty_conv)
    then show ?thesis by (simp only: list.map list.size upt.simps)
  qed
qed simp

lemma consecutive_same:
  "list_all2 (\<lambda>e f. \<exists>t. f = hop t e) es fs \<Longrightarrow> consecutive L es \<longleftrightarrow> consecutive L fs"
proof (induction arbitrary: L rule: list_all2_induct)
  case (Cons e es f fs)
  then obtain t where "f = hop t e" by blast
  then have "ev_symbol f = ev_symbol e" "ev_seq f = ev_seq e" by (simp_all add: hop_def)
  then show ?case by (simp only: consecutive.simps Cons.IH)
qed simp

text \<open>What the engine makes of the records on the topic.\<close>

lemma parsed_hop:
  assumes "json_contract dumps loads"
    "parse_event fparse time (loads (dumps (JObj (event_to_dict e)))) = Parsed f"
  shows "\<exists>t. f = hop t e"
proof (cases "now_ms time")
  case (Inl exc)
  with assms show ?thesis
    by (simp add: parse_event_def json_contract_def opt_of_def parse_market_event_def parse_fields_def json_field_def
        split: option.splits)
next
  case (Inr t)
  with assms parse_event_to_dict [of "\<lambda>_. opt_of (now_ms time)" e t fparse] show ?thesis
    by (auto simp: parse_event_def json_contract_def opt_of_def)
qed

lemma list_all2_in2:
  assumes "list_all2 (\<lambda>p f. \<exists>t. f = h t p) xs ys" "f \<in> set ys"
  shows "\<exists>p t. p \<in> set xs \<and> f = h t p"
proof -
  from assms(2) obtain k where k: "k < length ys" "f = ys ! k" by (auto simp: in_set_conv_nth)
  with assms(1) have "\<exists>t. f = h t (xs ! k)" "xs ! k \<in> set xs"
    by (auto dest: list_all2_nthD2 list_all2_lengthD)
  then show ?thesis by blast
qed

section \<open>A concrete run\<close>

instance pyfloat :: countable
  by countable_datatype

instance json :: countable
  by countable_datatype

definition unary_dumps :: "json \<Rightarrow> string" where
  \<comment> \<open>a text for every value, for the witness\<close>
  "unary_dumps j = replicate (to_nat j) (CHR ''x'')"

definition unary_loads :: "string \<Rightarrow> json result" where
  "unary_loads t = Inr (from_nat (length t))"

lemma unary_json_contract: "json_contract unary_dumps unary_loads"
  by (simp add: json_contract_def unary_dumps_def unary_loads_def)

definition pipeline_event :: market_event where
  \<comment> \<open>the first quote the simulator makes of \<open>sample_draw\<close>\<close>
  "pipeline_event = (case make_event sample_draw ''AAPL'' new_simulator of
     (Inr e, _) \<Rightarrow> e | (Inl _, _) \<Rightarrow> sample_event ''AAPL'' 1)"

definition pipeline_engine :: "market_event engine" where
  "pipeline_engine = (new_engine f_0_1 f_5_0)\<lparr>en_bridge := new_bridge\<lparr>br_queue := (new_queue 10000)\<lparr>q_items :=
     [\<lparr>ce_event = hop 2000 pipeline_event, ce_topic = ''market-events'', ce_partition = 0, ce_offset = 0\<rparr>]\<rparr>\<rparr>\<rparr>"

definition pipeline_session :: client_session where
  "pipeline_session = (new_session ''c'' DROP_OLDEST JSON (Fin 0))
     \<lparr>cs_aggregator := Some (new_aggregation_buffer RAW 100)\<rparr>"

definition pipeline_gateway :: gateway where
  "pipeline_gateway = new_gateway\<lparr>gw_heap := [0 \<mapsto> pipeline_session],
     gw_subs := map (\<lambda>sy. (sy, {0})) (dict_keys INITIAL_PRICES)\<rparr>"

definition pipeline_attempts :: "attempt list list" where
  \<comment> \<open>the first publication fails, so the event is published twice\<close>
  "pipeline_attempts = [[\<lparr>at_update = StoreOk, at_publish = StoreFails, at_wait = WaitElapses\<rparr>,
     \<lparr>at_update = StoreOk, at_publish = StoreOk, at_wait = WaitElapses\<rparr>]]"

lemma now_ms_Fin:
  assumes "0 \<le> n" "n < 2 ^ 40"
  shows "now_ms (Fin (of_int n)) = Inr (n * 1000)"
proof -
  have "now_ms (Fin (of_int n)) = f_int (fl (of_int (n * 1000)))" by (simp add: now_ms_def)
  also have "fl (of_int (n * 1000)) = Fin (of_int (n * 1000))" using assms by (intro fl_of_int) simp
  also have "f_int (Fin (of_int (n * 1000))) = Inr (n * 1000)"
    using assms(1) by (simp only: f_int.simps floor_of_int ceiling_of_int of_int_0_le_iff if_cancel)
  finally show ?thesis .
qed

lemma pipeline_feed:
  "\<exists>sm. run_feed [[sample_draw]] new_simulator = ([(''AAPL'', pipeline_event)], Inr (), sm)"
  "ev_event_ts pipeline_event = 1000"
proof -
  have n: "now_ms (Fin 1) = Inr 1000" using now_ms_Fin [of 1] by simp
  have k: "dict_keys INITIAL_PRICES = ''AAPL'' # tl (dict_keys INITIAL_PRICES)"
    by (simp add: INITIAL_PRICES_def dict_keys_def)
  have a: "dict_get (sm_prices new_simulator) ''AAPL'' = Some (Fin 189)"
    by (simp add: new_simulator_def INITIAL_PRICES_def dict_get_Cons)
  obtain p sm1 where q: "next_price (Fin 0) ''AAPL'' new_simulator = (Inr p, sm1)" "sm_seq sm1 = sm_seq new_simulator"
    by (simp add: next_price_def a Let_def)
  have q1: "dict_get (sm_seq sm1) ''AAPL'' = Some 1"
    unfolding q(2) by (simp add: new_simulator_def INITIAL_PRICES_def dict_get_Cons)
  obtain e sm2 where m: "make_event sample_draw ''AAPL'' new_simulator = (Inr e, sm2)" "ev_event_ts e = 1000"
    using q q1 n by (cases p) (simp add: make_event_def sample_draw_def)
  then have e: "pipeline_event = e" by (simp add: pipeline_event_def)
  show "\<exists>sm. run_feed [[sample_draw]] new_simulator = ([(''AAPL'', pipeline_event)], Inr (), sm)"
    using m(1) by (subst (1) run_feed.simps(2), subst k) (simp add: e, simp add: sample_draw_def)
  show "ev_event_ts pipeline_event = 1000" using m(2) e by simp
qed

lemma pipeline_run:
  "\<exists>calls eng'. run_engine pipeline_attempts pipeline_engine = (AwaitsEvent, calls, eng') \<and>
     published calls = [hop 2000 pipeline_event, hop 2000 pipeline_event]"
  by (simp add: pipeline_engine_def pipeline_attempts_def new_engine_def new_bridge_def new_queue_def
      run_engine.simps [of "_ # _"] run_engine.simps [of "[]"] next_consumed_def get_nowait_def
      process_consumed_event_def process_event_def acknowledge_def Let_def)

end
