(* ===== verification/Spec2Isabelle.thy ===== *)
theory Spec2Isabelle
  imports Session Snapshot_Store Distribution_Engine History_Store Tick_Writer
    Gateway Gateway_Handler Session_Turns Gateway_Http Feed_Simulator Load_Bench Serialization_Bench
    Handover Pipeline
begin

text \<open>
  A verification development for the real-time market data platform under \<open>src/src\<close>.

  \<^bold>\<open>The program.\<close> A simulator (\<open>feed/simulator.py\<close>) produces quotes to Kafka. Two
  consumer groups read them. The distribution engine (\<open>engine/engine.py\<close>) takes events
  from a consumer thread through a bounded queue, writes each to a Redis snapshot and
  publishes it (\<open>engine/snapshot_store.py\<close>), acknowledges it, and lets the thread commit
  offsets up to the first gap in what is acknowledged. The tick writer
  (\<open>storage/tick_writer.py\<close>) stores batches of ticks in TimescaleDB
  (\<open>storage/history_store.py\<close>) and commits a batch once it is stored. The gateway
  (\<open>gateway/gateway.py\<close>) listens to Redis Pub/Sub for the symbols its WebSocket clients
  ask for, fans each event out to the clients' aggregation buffers
  (\<open>gateway/aggregator.py\<close>), and runs for each client a dispatch task and a writer around
  a bounded outbound queue (\<open>gateway/session.py\<close>); over HTTP it serves snapshots, metrics
  and the history. A load benchmark (\<open>benchmark/load_bench.py\<close>) plays clients and checks
  what they receive.

  \<^bold>\<open>How the code is modelled.\<close> Objects are records, one field for each attribute that any
  operation reads; a method is a function from the object to its result and the changed
  object. Code that raises returns \<open>py_exn + 'a\<close>. Where tasks or threads interleave, the
  operations are cut at their \<open>await\<close>s, and an inductive step relation
  (\<open>pipeline_step\<close>, \<open>gateway_step\<close>) runs one piece at a time in any order. What the outside
  answers (Kafka, Redis, the database, sockets, clocks, random draws, cancellation) is an
  argument of the operation or a choice of the step; where a theorem needs such an answer
  to be sensible, the documented behaviour is a named hypothesis (\<open>hset_contract\<close>,
  \<open>float_text_contract\<close>, \<open>json_contract\<close>, \<open>honest_turn\<close>). Python's integers are unbounded and
  so are the model's; its floats are binary64 and so are the model's.

  \<^bold>\<open>Theories.\<close>

  \<^item> \<open>Prelude\<close>, \<open>Py_Float\<close>, \<open>Py_Data\<close>: exceptions and results, dictionaries in insertion
    order, the locale \<open>step_invariant\<close>; binary64 with correct rounding and \<open>round(x, n)\<close>;
    \<open>int\<close>, \<open>str\<close>, \<open>upper\<close>, and JSON values with the accesses that raise.
  \<^item> \<open>Models\<close> (\<open>models.py\<close> and the event parser common to three modules): \<open>MarketEvent\<close>,
    \<open>SnapshotData\<close>, their dictionaries, what a hop through a serialised event keeps.
  \<^item> \<open>Bounded_Queue\<close>, \<open>Backoff\<close>: \<open>asyncio.Queue\<close> without waiting, behind the locale
    \<open>bounded_queue\<close>; the doubling delays of every retry loop, behind \<open>capped_backoff\<close>.
  \<^item> \<open>Snapshot_Store\<close>: keys, channels, the HSET and EXPIRE transaction, reading back.
  \<^item> \<open>Kafka_Bridge\<close>, \<open>Distribution_Engine\<close>: tracking, handoff, the cursor scan and the
    drain of acknowledgements; processing with retries; thread and engine side by side.
    The central invariant is that commits stay behind processing.
  \<^item> \<open>History_Store\<close>, \<open>Tick_Writer\<close>: the table as a list of rows under its unique index,
    inserts that ignore conflicts and bounded fetches (locale \<open>keyed_store\<close>); batching by
    size and time, flushing with retries against any store that keeps the locale
    \<open>tick_sink\<close>, committing afterwards.
  \<^item> \<open>Aggregator\<close>, \<open>Session\<close>: pass-through and 100 ms windows, with the window as a
    reference definition; sequence classification, filters, the outbound queue under both
    policies, the writer, the latency window and its percentiles.
  \<^item> \<open>Gateway_State\<close>, \<open>Gateway_Effects\<close>: the registry, the subscriptions being set up, the
    Pub/Sub channels wanted and confirmed, and each operation of \<open>gateway.py\<close> on them; one
    equation per operation and view of the state.
  \<^item> \<open>Gateway_Dispatch\<close>: the dispatch task beside writer, window and fanout, parsing what
    clients and Redis send, recovery from a gap.
  \<^item> \<open>Gateway\<close>: all tasks of the gateway as a step relation; the invariants of registry
    and channels; the refinement to an abstract table of subscriptions.
  \<^item> \<open>Gateway_Handler\<close>: the connection handler from a text message to its steps, an
    executable schedule of the gateway, what becomes of a client whose task has died, a run
    that leaves a client without its channel, and the messages that end a connection.
  \<^item> \<open>Session_Turns\<close>: all that happens to one session, its handler's actions included; every
    step of the gateway is made of such turns. The order of the sequence numbers a client is
    sent, and the silence after its dispatch task has died, hold for all their sequences.
  \<^item> \<open>Gateway_Http\<close>: health, snapshot, metrics, Prometheus text, history.
  \<^item> \<open>Feed_Simulator\<close>, \<open>Load_Bench\<close>: producer and checking consumer; the benchmark run
    against the session model counts no regression, and only error replies as malformed.
    \<open>Serialization_Bench\<close>: when the comparison of two encoders has an answer.
  \<^item> \<open>Client_Stream\<close>, \<open>Handover\<close>: a RAW client takes of a stream without gaps each event once;
    a new client is sent the snapshot and then every later update.
  \<^item> \<open>Pipeline\<close> and the end of this theory: the components in a row, from the simulator's
    draws to the client's socket, through engine retries that repeat publications.

  \<^bold>\<open>Bounds, fuel and termination.\<close> Loops over data are structural. Loops that wait for the
  outside run along a list of its answers, so nothing is cut off: the result says when the
  answers have run out (\<^const>\<open>None\<close>, \<open>StillRetrying\<close>, \<open>AwaitsEvent\<close>), and that retries
  end is proved (\<open>recovery_ends_the_retries\<close>, \<open>flush_recovers\<close>) for every number of
  failures. Queue and buffer sizes are the constants of the code. Bounds in hypotheses are
  those of floating point (integers below \<open>2 ^ 53\<close>, timestamps below \<open>2 ^ 42\<close> ms) or of the
  code's own limits.

  \<^bold>\<open>Where the code falls short\<close> of what it means to do, a theorem states the behaviour it
  has: a message that does not parse stops all later commits of its partition
  (\<open>malformed_message_stops_commits\<close>); one timestamp outside the range of \<open>datetime\<close> makes
  the writer retry for ever (\<open>out_of_range_tick_blocks_flush\<close>); an error of the snapshot
  store silences a client (\<open>store_error_silences_client\<close>) and keeps its session
  registered for ever (\<open>crashed_client_is_never_cleaned_up\<close>); an unsubscription removes the
  channel another client is waiting on (\<open>unsubscribe_strands_initializing_client\<close>); some
  requests close the connection instead of being answered
  (\<open>malformed_request_closes_connection\<close>, \<open>parsed_filter_bounds\<close>).

  \<^bold>\<open>Not modelled.\<close> The bodies of libraries: Kafka client, Redis, asyncpg, FastAPI, JSON and
  msgpack encoders. The wiring of the processes (\<open>lifespan\<close>, routes, signal handlers,
  environment variables other than the namespace), closing of connections, logging and
  printing: they keep no state the operations read. \<open>received_at\<close> of a stored tick, which nothing reads.
  Cancellation of a client's handler by the server's shutdown, after which the process
  ends. A handoff's put that takes effect between its cancellation by the thread and the
  arrival of this on the loop. The refusal of NUL characters by the database in the symbol
  of a query.
\<close>
section \<open>From the feed to the client\<close>

text \<open>
  C10. End to end. The simulator's records, whatever it drew and wherever it failed, are
  parsed by the engine, which puts each into the snapshot store and publishes it, repeating
  both as often as Redis fails; every PUBLISH call, those that raised included, reaches the
  gateway. Then a RAW client without filters that is subscribed to all symbols is sent the
  whole feed: every quote once and in order, with the engine's clock as its server
  timestamp and nothing else changed. The repeated publications leave no trace. The bounds
  are those of the two queues between fanout and socket, here filled by the whole burst
  before the client's tasks run.
\<close>

theorem quotes_travel_to_client:
  assumes "json_contract dumps loads" "run_feed dss new_simulator = (sent, outcome, sm)"
    "list_all2 (\<lambda>p c. \<exists>time. parse_event fparse time (loads (dumps (JObj (event_to_dict (snd p))))) =
       Parsed (ce_event c)) sent (q_items (br_queue (en_bridge eng)))"
    "run_engine ass eng = (AwaitsEvent, calls, eng')"
    "gw_heap g i = Some s" "set (dict_keys INITIAL_PRICES) \<subseteq> {sy. i \<in> subs_of g sy}"
    "raw_holding [] s" "cs_last_seq s = Map.empty" "q_items (cs_queue s) = []"
    "length (published calls) \<le> 1000" "length sent \<le> 500" "length clocks = length sent"
    "list_all (\<lambda>p. \<bar>ev_event_ts (snd p)\<bar> < 2 ^ 53) sent"
  shows "\<exists>g' s' received.
    gateway_listens fparse loads hashable (map (snd \<circ> publish_command dumps pfx) (published calls)) g = Some g' \<and>
    gw_heap g' i = Some s' \<and>
    serve store (length (published calls)) clocks s' = received \<and>
    list_all2 (\<lambda>p m. \<exists>t. m = event_to_dict (hop t (snd p))) sent received"
proof -
  define fs where "fs = map ce_event (q_items (br_queue (en_bridge eng)))"
  have hops: "list_all2 (\<lambda>p f. \<exists>t. f = hop t (snd p)) sent fs"
    unfolding fs_def list.rel_map using assms(3) by (rule list_all2_mono) (use parsed_hop [OF assms(1)] in blast)
  have len: "length sent = length fs" using list_all2_lengthD [OF hops] .
  have cons: "consecutive (cs_last_seq s) fs"
    using run_feed_consecutive [OF assms(2)] consecutive_same [of "map snd sent" fs] hops assms(8)
    by (simp add: list.rel_map)
  have st: "stutters fs (published calls)" unfolding fs_def by (rule run_engine_publishes [OF assms(4)])
  have each: "\<exists>p t. p \<in> set sent \<and> f = hop t (snd p)" if f: "f \<in> set (published calls)" for f
    using hops f [unfolded stutters_set [OF st]] by (rule list_all2_in2 [where h = "\<lambda>t p. hop t (snd p)"])
  have 1: "list_all tradeless (published calls)"
    unfolding list_all_iff using each tradeless_hop(1) by metis
  have 2: "\<forall>f \<in> set (published calls). i \<in> subs_of g (ev_symbol f)"
  proof
    fix f assume "f \<in> set (published calls)"
    from each [OF this] obtain p t where p: "p \<in> set sent" "f = hop t (snd p)" by blast
    then have "ev_symbol f \<in> ev_symbol ` set (map snd sent)" by (simp add: hop_def)
    with run_feed_symbols [OF assms(2)] assms(6) show "i \<in> subs_of g (ev_symbol f)" by blast
  qed
  have 3: "\<forall>f \<in> set fs. \<bar>ev_event_ts f\<bar> < 2 ^ 53"
  proof
    fix f assume "f \<in> set fs"
    from list_all2_in2 [where h = "\<lambda>t p. hop t (snd p)", OF hops this] obtain p t where "p \<in> set sent" "f = hop t (snd p)" by blast
    with assms(13) show "\<bar>ev_event_ts f\<bar> < 2 ^ 53" by (simp add: list_all_iff hop_def)
  qed
  have 4: "length (published calls) \<le> OUTPUT_MAX_SIZE" "length fs \<le> QUEUE_MAX_SIZE" "length clocks = length fs"
    using assms(10-12) len by (simp_all add: OUTPUT_MAX_SIZE_def QUEUE_MAX_SIZE_def)
  have "list_all2 (\<lambda>p m. \<exists>t. m = event_to_dict (hop t (snd p))) sent (map event_to_dict fs)"
    using hops unfolding list.rel_map by (rule list_all2_mono) blast
  with burst_reaches_client [OF assms(1) 1 st assms(5) 2 assms(7) cons assms(9) 4 3, of fparse hashable pfx store]
  show ?thesis by blast
qed

theorem quotes_travel_to_client_witness:
  "\<exists>calls eng' g' s'. run_engine pipeline_attempts pipeline_engine = (AwaitsEvent, calls, eng') \<and>
     length (published calls) = 2 \<and>
     gateway_listens (\<lambda>_. Inl ValueError) unary_loads (\<lambda>_. False)
       (map (snd \<circ> publish_command unary_dumps []) (published calls)) pipeline_gateway = Some g' \<and>
     gw_heap g' 0 = Some s' \<and>
     (\<exists>t. serve (\<lambda>_. Inr None) 2 [Fin 3] s' = [event_to_dict (hop t pipeline_event)])"
proof -
  let ?sent = "[(''AAPL'', pipeline_event)]"
  obtain sm where f: "run_feed [[sample_draw]] new_simulator = (?sent, Inr (), sm)" using pipeline_feed(1) by blast
  obtain calls eng' where r: "run_engine pipeline_attempts pipeline_engine = (AwaitsEvent, calls, eng')"
    and p: "published calls = [hop 2000 pipeline_event, hop 2000 pipeline_event]" using pipeline_run by blast
  have "now_ms (Fin 2) = Inr 2000" using now_ms_Fin [of 2] by simp
  then have "parse_event (\<lambda>_. Inl ValueError) (Fin 2) (unary_loads (unary_dumps (JObj (event_to_dict pipeline_event))))
      = Parsed (hop 2000 pipeline_event)"
    using parse_event_to_dict [of "\<lambda>_. opt_of (now_ms (Fin 2))"] unary_json_contract
    by (simp add: parse_event_def json_contract_def)
  then have k: "list_all2 (\<lambda>p c. \<exists>time. parse_event (\<lambda>_. Inl ValueError) time
      (unary_loads (unary_dumps (JObj (event_to_dict (snd p))))) = Parsed (ce_event c)) ?sent
      (q_items (br_queue (en_bridge pipeline_engine)))"
    by (auto simp: pipeline_engine_def)
  have h: "gw_heap pipeline_gateway 0 = Some pipeline_session" by (simp add: pipeline_gateway_def)
  have m: "set (dict_keys INITIAL_PRICES) \<subseteq> {sy. 0 \<in> subs_of pipeline_gateway sy}"
    by (simp add: pipeline_gateway_def subs_of_def INITIAL_PRICES_def dict_keys_def dict_get_Cons)
  have s: "raw_holding [] pipeline_session" "cs_last_seq pipeline_session = Map.empty" "q_items (cs_queue pipeline_session) = []"
    by (simp_all add: raw_holding_def pipeline_session_def new_session_def new_aggregation_buffer_def QUEUE_MAX_SIZE_def)
      (simp_all add: new_queue_def)
  have l: "length (published calls) \<le> 1000" "length ?sent \<le> 500" "length [Fin 3] = length ?sent"
    "list_all (\<lambda>p. \<bar>ev_event_ts (snd p)\<bar> < 2 ^ 53) ?sent"
    by (simp_all add: p pipeline_feed(2))
  from quotes_travel_to_client [OF unary_json_contract f k r h m s l, of "\<lambda>_. False" "[]" "\<lambda>_. Inr None"]
  obtain g' s' where g: "gateway_listens (\<lambda>_. Inl ValueError) unary_loads (\<lambda>_. False)
       (map (snd \<circ> publish_command unary_dumps []) (published calls)) pipeline_gateway = Some g'"
     "gw_heap g' 0 = Some s'"
     "\<exists>t. serve (\<lambda>_. Inr None) (length (published calls)) [Fin 3] s' = [event_to_dict (hop t pipeline_event)]"
    by (auto simp: list_all2_Cons1)
  moreover have "length (published calls) = 2" by (simp add: p)
  ultimately show ?thesis using r by metis
qed

end
